(* ===== verification/Hive_Prelude.thy ===== *)
theory Hive_Prelude
  imports
    Main
    "HOL-Library.Word"
    "HOL-Library.Signed_Division"
    "HOL-Library.Monad_Syntax"
    "HOL-Library.List_Lexorder"
begin

text \<open>
  Shared vocabulary of the development: bytes and byte slices, the byte orders of
  Go's \<^verbatim>\<open>encoding/binary\<close>, \<^verbatim>\<open>bytes.Compare\<close>, the reading of a machine word as a signed or
  unsigned Go integer, slice expressions that may panic, and the list lemmas the components share.
  A Go panic is the value \<^term>\<open>None\<close> of an option; an error is the value \<^term>\<open>Inl\<close> of a sum.
\<close>

named_theorems go_int \<open>reading machine words as Go integers\<close>
named_theorems bytes_enc \<open>byte encodings and their lengths\<close>
named_theorems slice_simps \<open>slice expressions that are in range\<close>

section \<open>Types\<close>

type_synonym byte = "8 word"
type_synonym bytes = "byte list"
type_synonym u8 = "8 word"
type_synonym u16 = "16 word"
type_synonym u32 = "32 word"
type_synonym u64 = "64 word"

datatype signedness = Unsigned | Signed

section \<open>Definitions\<close>

subsection \<open>Go integers\<close>

text \<open>
  A Go integer type is a width and a signedness. A value is the word; \<open>int_val\<close> is the number
  the word stands for. Comparison and division look at that number; addition, subtraction and
  multiplication are those of the word and wrap around. Division truncates towards zero, and the one
  quotient that does not fit (the least number divided by minus one) wraps around.
\<close>

definition int_val :: "signedness \<Rightarrow> 'a::len word \<Rightarrow> int" where
  "int_val s w = (case s of Unsigned \<Rightarrow> uint w | Signed \<Rightarrow> sint w)"

definition int_min :: "signedness \<Rightarrow> 'a::len itself \<Rightarrow> int" where
  "int_min s t = (case s of Unsigned \<Rightarrow> 0 | Signed \<Rightarrow> - (2 ^ (LENGTH('a) - 1)))"

definition int_max :: "signedness \<Rightarrow> 'a::len itself \<Rightarrow> int" where
  "int_max s t = (case s of Unsigned \<Rightarrow> 2 ^ LENGTH('a) - 1 | Signed \<Rightarrow> 2 ^ (LENGTH('a) - 1) - 1)"

definition fits :: "signedness \<Rightarrow> 'a::len itself \<Rightarrow> int \<Rightarrow> bool" where
  "fits s t i \<longleftrightarrow> int_min s t \<le> i \<and> i \<le> int_max s t"

definition go_less :: "signedness \<Rightarrow> 'a::len word \<Rightarrow> 'a word \<Rightarrow> bool" where
  "go_less s x y \<longleftrightarrow> int_val s x < int_val s y"

definition go_div :: "signedness \<Rightarrow> 'a::len word \<Rightarrow> 'a word \<Rightarrow> 'a word" where
  "go_div s x y = word_of_int (int_val s x sdiv int_val s y)"

subsection \<open>Byte orders\<close>

fun le_bytes :: "nat \<Rightarrow> nat \<Rightarrow> bytes" where
  "le_bytes 0 v = []"
| "le_bytes (Suc n) v = word_of_nat (v mod 256) # le_bytes n (v div 256)"

fun le_val :: "bytes \<Rightarrow> nat" where
  "le_val [] = 0"
| "le_val (b # bs) = unat b + 256 * le_val bs"

definition be_bytes :: "nat \<Rightarrow> nat \<Rightarrow> bytes" where
  "be_bytes n v = rev (le_bytes n v)"

definition be_val :: "bytes \<Rightarrow> nat" where
  "be_val bs = le_val (rev bs)"

text \<open>\<^verbatim>\<open>bytes.Compare\<close>: minus one, zero or one.\<close>

fun bytes_compare :: "bytes \<Rightarrow> bytes \<Rightarrow> int" where
  "bytes_compare [] [] = 0"
| "bytes_compare [] (b # bs) = -1"
| "bytes_compare (a # as) [] = 1"
| "bytes_compare (a # as) (b # bs) =
     (if a < b then -1 else if b < a then 1 else bytes_compare as bs)"

subsection \<open>Slice expressions\<close>

text \<open>
  \<^verbatim>\<open>s[i:]\<close> and \<^verbatim>\<open>s[i:j]\<close> panic when the indices are out of range. The upper index may in Go reach
  the capacity; every slice modelled here has its capacity equal to its length or is sliced within its
  length.
\<close>

definition slice_from :: "'a list \<Rightarrow> int \<Rightarrow> 'a list option" where
  "slice_from xs i = (if 0 \<le> i \<and> i \<le> int (length xs) then Some (drop (nat i) xs) else None)"

definition slice_range :: "'a list \<Rightarrow> int \<Rightarrow> int \<Rightarrow> 'a list option" where
  "slice_range xs i j =
     (if 0 \<le> i \<and> i \<le> j \<and> j \<le> int (length xs) then Some (take (nat (j - i)) (drop (nat i) xs)) else None)"

definition slice_index :: "'a list \<Rightarrow> int \<Rightarrow> 'a option" where
  "slice_index xs i = (if 0 \<le> i \<and> i < int (length xs) then Some (xs ! nat i) else None)"

definition slice_store :: "'a list \<Rightarrow> int \<Rightarrow> 'a \<Rightarrow> 'a list option" where
  "slice_store xs i x = (if 0 \<le> i \<and> i < int (length xs) then Some (xs[nat i := x]) else None)"

text \<open>\<^verbatim>\<open>make([]T, n)\<close> panics for a negative length.\<close>

definition go_make :: "'a \<Rightarrow> int \<Rightarrow> 'a list option" where
  "go_make z n = (if n < 0 then None else Some (replicate (nat n) z))"

text \<open>\<^verbatim>\<open>copy(dst, src)\<close> copies the shorter of the two lengths.\<close>

definition go_copy :: "'a list \<Rightarrow> 'a list \<Rightarrow> 'a list" where
  "go_copy dst src = take (length dst) src @ drop (length src) dst"

section \<open>Lemmas\<close>

subsection \<open>Go integers\<close>

lemma int_val_simps [simp, go_int]:
  "int_val Unsigned w = uint w"
  "int_val Signed w = sint w"
  by (simp_all add: int_val_def)

lemma int_min_simps [simp]:
  "int_min Unsigned TYPE('a::len) = 0"
  "int_min Signed TYPE('a::len) = - (2 ^ (LENGTH('a) - 1))"
  by (simp_all add: int_min_def)

lemma int_max_simps [simp]:
  "int_max Unsigned TYPE('a::len) = 2 ^ LENGTH('a) - 1"
  "int_max Signed TYPE('a::len) = 2 ^ (LENGTH('a) - 1) - 1"
  by (simp_all add: int_max_def)

lemma int_val_0 [simp]: "int_val s 0 = 0"
  by (cases s) simp_all

lemma int_val_eq_iff [simp]: "int_val s x = int_val s y \<longleftrightarrow> x = y"
  by (cases s) (auto intro: unsigned_word_eqI signed_word_eqI)

lemma int_val_eq_0_iff [simp]: "int_val s x = 0 \<longleftrightarrow> x = 0"
  using int_val_eq_iff [of s x 0] by simp

lemma fits_int_val [simp]: "fits s TYPE('a) (int_val s (w :: 'a::len word))"
proof (cases s)
  case Unsigned
  have "uint w < 2 ^ LENGTH('a)" by (rule uint_lt2p)
  with Unsigned show ?thesis by (simp add: fits_def)
next
  case Signed
  have "sint w < 2 ^ (LENGTH('a) - 1)" by (rule sint_lt)
  moreover have "- (2 ^ (LENGTH('a) - 1)) \<le> sint w" by (rule sint_ge)
  ultimately show ?thesis using Signed by (simp add: fits_def)
qed

lemma int_val_bounds:
  "int_min s TYPE('a) \<le> int_val s (w :: 'a::len word)"
  "int_val s (w :: 'a::len word) \<le> int_max s TYPE('a)"
  using fits_int_val [of s w] by (simp_all add: fits_def)

lemma int_val_of_int:
  assumes "fits s TYPE('a::len) i"
  shows "int_val s (word_of_int i :: 'a word) = i"
proof (cases s)
  case Unsigned
  with assms have "0 \<le> i" and "i < 2 ^ LENGTH('a)" by (auto simp: fits_def)
  with Unsigned show ?thesis by (simp add: uint_word_of_int)
next
  case Signed
  with assms have "- (2 ^ (LENGTH('a) - 1)) \<le> i" and "i < 2 ^ (LENGTH('a) - 1)"
    by (auto simp: fits_def)
  with Signed show ?thesis by (simp add: signed_of_int signed_take_bit_int_eq_self)
qed

lemma word_of_int_val [simp]: "word_of_int (int_val s w) = w"
  by (cases s) simp_all

lemma int_val_wrap:
  "\<exists>k. int_val s (word_of_int i :: 'a::len word) = i + k * 2 ^ LENGTH('a)"
proof -
  let ?w = "word_of_int i :: 'a word"
  have "(word_of_int (int_val s ?w) :: 'a word) = word_of_int i" by simp
  then have "int_val s ?w mod 2 ^ LENGTH('a) = i mod 2 ^ LENGTH('a)"
    by (simp only: word_of_int_eq_iff take_bit_eq_mod)
  then have "2 ^ LENGTH('a) dvd int_val s ?w - i" by (simp add: mod_eq_dvd_iff)
  then obtain k where "int_val s ?w - i = 2 ^ LENGTH('a) * k" by (auto simp: dvd_def)
  then show ?thesis by (intro exI [of _ k]) (simp add: algebra_simps)
qed

lemma int_val_span: "int_max s TYPE('a::len) - int_min s TYPE('a) < 2 ^ LENGTH('a)"
proof (cases s)
  case Unsigned
  then show ?thesis by simp
next
  case Signed
  have "(2::int) ^ LENGTH('a) = 2 * 2 ^ (LENGTH('a) - 1)"
    by (simp flip: power_Suc)
  with Signed show ?thesis by simp
qed

text \<open>An operation whose result does not fit is off by a non-zero multiple of the modulus.\<close>

lemma int_val_overflow:
  assumes "\<not> fits s TYPE('a::len) i"
  obtains k where "int_val s (word_of_int i :: 'a word) = i + k * 2 ^ LENGTH('a)" and "k \<noteq> 0"
proof -
  obtain k where k: "int_val s (word_of_int i :: 'a word) = i + k * 2 ^ LENGTH('a)"
    using int_val_wrap by blast
  have "k \<noteq> 0"
  proof
    assume "k = 0"
    with k have "int_val s (word_of_int i :: 'a word) = i" by simp
    with fits_int_val [of s "word_of_int i :: 'a word"] assms show False by simp
  qed
  with k that show ?thesis by blast
qed

lemma word_arith_int_val:
  "(x :: 'a::len word) + y = word_of_int (int_val s x + int_val s y)"
  "x - y = word_of_int (int_val s x - int_val s y)"
  "x * y = word_of_int (int_val s x * int_val s y)"
  by simp_all

subsection \<open>Byte orders\<close>

lemma unat_byte_less: "unat (b :: byte) < 256"
proof -
  have "unat b < 2 ^ LENGTH(8)" by (rule unsigned_less)
  then show ?thesis by simp
qed

lemma length_le_bytes [simp, bytes_enc]: "length (le_bytes n v) = n"
  by (induction n arbitrary: v) simp_all

lemma length_be_bytes [simp, bytes_enc]: "length (be_bytes n v) = n"
  by (simp add: be_bytes_def)

lemma le_val_le_bytes [bytes_enc]: "le_val (le_bytes n v) = v mod 256 ^ n"
proof (induction n arbitrary: v)
  case 0
  then show ?case by simp
next
  case (Suc n)
  have "unat (word_of_nat (v mod 256) :: byte) = v mod 256"
    by (simp add: unat_of_nat)
  then have "le_val (le_bytes (Suc n) v) = v mod 256 + 256 * (v div 256 mod 256 ^ n)"
    by (simp add: Suc.IH)
  also have "\<dots> = v mod (256 * 256 ^ n)"
    by (simp add: mod_mult2_eq)
  finally show ?case by simp
qed

lemma le_val_less: "le_val bs < 256 ^ length bs"
proof (induction bs)
  case Nil
  then show ?case by simp
next
  case (Cons b bs)
  with unat_byte_less [of b] show ?case by simp
qed

lemma le_bytes_le_val [simp, bytes_enc]: "le_bytes (length bs) (le_val bs) = bs"
proof (induction bs)
  case Nil
  then show ?case by simp
next
  case (Cons b bs)
  with unat_byte_less [of b] show ?case by simp
qed

lemma be_val_be_bytes [bytes_enc]: "be_val (be_bytes n v) = v mod 256 ^ n"
  by (simp add: be_val_def be_bytes_def le_val_le_bytes)

lemma le_val_append: "le_val (as @ bs) = le_val as + 256 ^ length as * le_val bs"
  by (induction as) (simp_all add: algebra_simps)

lemma le_val_replicate_0 [simp]: "le_val (replicate n 0) = 0"
  by (induction n) simp_all

lemma le_bytes_inject:
  "v < 256 ^ n \<Longrightarrow> w < 256 ^ n \<Longrightarrow> le_bytes n v = le_bytes n w \<longleftrightarrow> v = w"
  by (metis le_val_le_bytes mod_less)

subsection \<open>Lexical order of byte slices\<close>

lemma bytes_compare_less: "bytes_compare as bs = -1 \<longleftrightarrow> as < bs"
  by (induction as bs rule: bytes_compare.induct) auto

lemma bytes_compare_eq: "bytes_compare as bs = 0 \<longleftrightarrow> as = bs"
  by (induction as bs rule: bytes_compare.induct) auto

lemma bytes_compare_greater: "bytes_compare as bs = 1 \<longleftrightarrow> bs < as"
  by (induction as bs rule: bytes_compare.induct) auto

lemma bytes_compare_range: "bytes_compare as bs \<in> {-1, 0, 1}"
  by (induction as bs rule: bytes_compare.induct) auto

lemma bytes_compare_less_0: "bytes_compare as bs < 0 \<longleftrightarrow> as < bs"
  using bytes_compare_range [of as bs] bytes_compare_less [of as bs] by auto

lemma bytes_compare_greater_0: "bytes_compare as bs > 0 \<longleftrightarrow> bs < as"
  using bytes_compare_range [of as bs] bytes_compare_greater [of as bs] by auto

subsection \<open>Slice expressions\<close>

lemma slice_from_nat [simp, slice_simps]:
  "i \<le> length xs \<Longrightarrow> slice_from xs (int i) = Some (drop i xs)"
  by (simp add: slice_from_def)

lemma slice_range_nat [simp, slice_simps]:
  "i + n \<le> length xs \<Longrightarrow> slice_range xs (int i) (int i + int n) = Some (take n (drop i xs))"
  by (simp add: slice_range_def nat_add_distrib)

lemma slice_index_nat [simp, slice_simps]: "i < length xs \<Longrightarrow> slice_index xs (int i) = Some (xs ! i)"
  by (simp add: slice_index_def)

lemma slice_store_nat [simp, slice_simps]: "i < length xs \<Longrightarrow> slice_store xs (int i) x = Some (xs[i := x])"
  by (simp add: slice_store_def)

lemma go_copy_same [simp]: "length src = length dst \<Longrightarrow> go_copy dst src = src"
  by (simp add: go_copy_def)

lemma length_go_copy [simp]: "length (go_copy dst src) = length dst"
  by (simp add: go_copy_def)

end
