(* ===== verification/SafeMath.thy ===== *)
theory SafeMath
  imports Hive_Prelude
begin

text \<open>
  The package \<^verbatim>\<open>core/safemath\<close>: checked integer arithmetic. The generic functions take the
  signedness of the Go type as an argument, so that each lemma covers all eight integer types of the
  constraint \<^verbatim>\<open>Integer\<close>. An error is \<^term>\<open>Inl\<close>, without its message text.
\<close>

section \<open>Definitions\<close>

datatype math_error = ErrIntegerOverflow | ErrIntegerDivisionByZero

definition SafeAdd :: "signedness \<Rightarrow> 'a::len word \<Rightarrow> 'a word \<Rightarrow> math_error + 'a word" where
  "SafeAdd s x y =
     (let result = x + y in
      if go_less s 0 y then
        (if go_less s result x then Inl ErrIntegerOverflow else Inr result)
      else if go_less s x result then Inl ErrIntegerOverflow
      else Inr result)"

definition SafeSub :: "signedness \<Rightarrow> 'a::len word \<Rightarrow> 'a word \<Rightarrow> math_error + 'a word" where
  "SafeSub s x y =
     (let result = x - y in
      if go_less s 0 y then
        (if go_less s x result then Inl ErrIntegerOverflow else Inr result)
      else if go_less s result x then Inl ErrIntegerOverflow
      else Inr result)"

definition SafeMul :: "signedness \<Rightarrow> 'a::len word \<Rightarrow> 'a word \<Rightarrow> math_error + 'a word" where
  "SafeMul s x y =
     (if x = 0 \<or> y = 0 then Inr 0
      else let result = x * y in
        if go_div s result x \<noteq> y then Inl ErrIntegerOverflow else Inr result)"

text \<open>\<^verbatim>\<open>bits.Mul64\<close> and \<^verbatim>\<open>bits.Div64\<close> of Go's standard library; \<^verbatim>\<open>Div64\<close> panics when the quotient does
  not fit.\<close>

definition Mul64 :: "u64 \<Rightarrow> u64 \<Rightarrow> u64 \<times> u64" where
  "Mul64 x y = (let p = unat x * unat y in (word_of_nat (p div 2 ^ 64), word_of_nat (p mod 2 ^ 64)))"

definition Div64 :: "u64 \<Rightarrow> u64 \<Rightarrow> u64 \<Rightarrow> (u64 \<times> u64) option" where
  "Div64 hi lo y =
     (if y = 0 \<or> y \<le> hi then None
      else let p = unat hi * 2 ^ 64 + unat lo in
        Some (word_of_nat (p div unat y), word_of_nat (p mod unat y)))"

definition SafeMulUint64 :: "u64 \<Rightarrow> u64 \<Rightarrow> math_error + u64" where
  "SafeMulUint64 x y =
     (if x = 0 \<or> y = 0 then Inr 0
      else let (hi, lo) = Mul64 x y in
        if hi \<noteq> 0 then Inl ErrIntegerOverflow else Inr lo)"

definition SafeMulInt64 :: "u64 \<Rightarrow> u64 \<Rightarrow> math_error + u64" where
  "SafeMulInt64 x y =
     (if x = 0 \<or> y = 0 then Inr 0
      else let
        xNegative = go_less Signed x 0; yNegative = go_less Signed y 0;
        xPositive = go_less Signed 0 x; yPositive = go_less Signed 0 y;
        (resultIsPositive, resultSign) =
          (if xNegative \<and> yPositive then (False, -1 :: u64) else (True, 1));
        x' = (if xNegative then - x else x);
        (resultIsPositive, resultSign) =
          (if yNegative \<and> xPositive then (False, -1) else (resultIsPositive, resultSign));
        y' = (if yNegative then - y else y);
        (hi, lo) = Mul64 x' y'
      in if hi \<noteq> 0 then Inl ErrIntegerOverflow
      else let
        loSigned = lo * resultSign;
        signBitSet = (and (signed_drop_bit 63 loSigned) 1 = 1)
      in if resultIsPositive then
           (if signBitSet then Inl ErrIntegerOverflow else Inr loSigned)
         else if \<not> signBitSet then Inl ErrIntegerOverflow
         else Inr loSigned)"

definition SafeDiv :: "signedness \<Rightarrow> 'a::len word \<Rightarrow> 'a word \<Rightarrow> math_error + 'a word" where
  "SafeDiv s x y = (if y = 0 then Inl ErrIntegerDivisionByZero else Inr (go_div s x y))"

definition SafeLeftShift :: "signedness \<Rightarrow> 'a::len word \<Rightarrow> u8 \<Rightarrow> math_error + 'a word" where
  "SafeLeftShift s val shift =
     (let result = push_bit (unat shift) val in
      if go_less s result val then Inl ErrIntegerOverflow else Inr result)"

definition Safe64MulDiv :: "u64 \<Rightarrow> u64 \<Rightarrow> u64 \<Rightarrow> (math_error + u64) option" where
  "Safe64MulDiv x y d =
     (if d = 0 then Some (Inl ErrIntegerDivisionByZero)
      else let (prodHi, prodLo) = Mul64 x y in
        if d \<le> prodHi then Some (Inl ErrIntegerOverflow)
        else case Div64 prodHi prodLo d of None \<Rightarrow> None | Some (quo, rem) \<Rightarrow> Some (Inr quo))"

text \<open>The contract: the exact result when it fits, the overflow error otherwise.\<close>

definition checked :: "signedness \<Rightarrow> int \<Rightarrow> math_error + 'a::len word" where
  "checked s i = (if fits s TYPE('a) i then Inr (word_of_int i) else Inl ErrIntegerOverflow)"

text \<open>The one signed product that does not fit and yet is not detected.\<close>

definition mul_blind_spot :: "signedness \<Rightarrow> 'a::len word \<Rightarrow> 'a word \<Rightarrow> bool" where
  "mul_blind_spot s x y \<longleftrightarrow> s = Signed \<and> int_val s x = -1 \<and> int_val s y = int_min s TYPE('a)"

section \<open>Addition and subtraction\<close>

lemma checked_Inr:
  "checked s i = Inr (r :: 'a::len word) \<longleftrightarrow> int_val s r = i"
  unfolding checked_def using int_val_of_int [of s i, where ?'a = 'a] fits_int_val [of s r]
  by (auto simp del: fits_int_val)

lemma sum_overflow_side:
  fixes r :: "'a::len word"
  assumes r: "int_val s r = int_val s (x :: 'a word) + d + k * 2 ^ LENGTH('a)"
    and d: "- (2 ^ LENGTH('a)) < d" "d < 2 ^ LENGTH('a)" and k: "k \<noteq> 0"
  shows "0 < d \<Longrightarrow> int_val s r < int_val s x"
    and "d \<le> 0 \<Longrightarrow> int_val s x < int_val s r"
proof -
  have span: "int_val s r - int_val s x < 2 ^ LENGTH('a)" "int_val s x - int_val s r < 2 ^ LENGTH('a)"
    using int_val_span [of s, where ?'a = 'a] int_val_bounds [of s r] int_val_bounds [of s x]
    by linarith+
  have pos: "(0::int) < 2 ^ LENGTH('a)" by simp
  {
    assume "0 < d"
    have "k < 0"
    proof (rule ccontr)
      assume "\<not> k < 0"
      with k have "1 \<le> k" by simp
      then have "2 ^ LENGTH('a) \<le> k * 2 ^ LENGTH('a)" using pos by simp
      with r span(1) \<open>0 < d\<close> show False by linarith
    qed
    then have "k * 2 ^ LENGTH('a) \<le> -1 * 2 ^ LENGTH('a)"
      using pos by (intro mult_right_mono) simp_all
    with r d(2) show "int_val s r < int_val s x" by linarith
  }
  {
    assume "d \<le> 0"
    have "0 < k"
    proof (rule ccontr)
      assume "\<not> 0 < k"
      with k have "k \<le> -1" by simp
      then have "k * 2 ^ LENGTH('a) \<le> -1 * 2 ^ LENGTH('a)"
        using pos by (intro mult_right_mono) simp_all
      with r span(2) \<open>d \<le> 0\<close> show False by linarith
    qed
    then have "1 * 2 ^ LENGTH('a) \<le> k * 2 ^ LENGTH('a)"
      using pos by (intro mult_right_mono) simp_all
    with r d(1) show "int_val s x < int_val s r" by linarith
  }
qed

lemma int_val_abs_less: "\<bar>int_val s (y :: 'a::len word)\<bar> < 2 ^ LENGTH('a)"
proof -
  have h: "(2::int) ^ (LENGTH('a) - 1) < 2 ^ LENGTH('a)" by (rule power_strict_increasing) simp_all
  show ?thesis
  proof (cases s)
    case Unsigned
    with int_val_bounds [of s y] show ?thesis by simp
  next
    case Signed
    have "- (2 ^ (LENGTH('a) - 1)) \<le> sint y" and "sint y < 2 ^ (LENGTH('a) - 1)"
      by (rule sint_ge, rule sint_lt)
    with h show ?thesis unfolding Signed int_val_simps by linarith
  qed
qed

text \<open>One step of addition: the comparison with the first operand detects every overflow.\<close>

lemma overflow_test:
  fixes x :: "'a::len word" and s :: signedness
  assumes d: "\<bar>d\<bar> < 2 ^ LENGTH('a)"
  defines "r \<equiv> word_of_int (int_val s x + d) :: 'a word"
  shows "(if 0 < d then int_val s r < int_val s x else int_val s x < int_val s r)
         \<longleftrightarrow> \<not> fits s TYPE('a) (int_val s x + d)"
proof (cases "fits s TYPE('a) (int_val s x + d)")
  case True
  then have "int_val s r = int_val s x + d" by (simp only: r_def int_val_of_int)
  with True show ?thesis by simp
next
  case False
  then obtain k where k: "int_val s r = int_val s x + d + k * 2 ^ LENGTH('a)" "k \<noteq> 0"
    unfolding r_def by (rule int_val_overflow)
  from d have "- (2 ^ LENGTH('a)) < d" "d < 2 ^ LENGTH('a)" by simp_all
  from sum_overflow_side [OF k(1) this k(2)] False show ?thesis by auto
qed

lemma SafeAdd_eq: "SafeAdd s x y = checked s (int_val s x + int_val s y)"
proof -
  have "x + y = word_of_int (int_val s x + int_val s y)" by (rule word_arith_int_val)
  then show ?thesis
    using overflow_test [of "int_val s y" s x] int_val_abs_less [of s y]
    by (auto simp: SafeAdd_def checked_def go_less_def Let_def)
qed

lemma SafeSub_eq: "SafeSub s x y = checked s (int_val s x - int_val s y)"
proof (cases "y = 0")
  case True
  then show ?thesis by (simp add: SafeSub_def checked_def go_less_def Let_def)
next
  case False
  then have "int_val s y \<noteq> 0" by simp
  then have "(0 < - int_val s y) = (\<not> 0 < int_val s y)" by linarith
  moreover have "x - y = word_of_int (int_val s x - int_val s y)" by (rule word_arith_int_val)
  ultimately show ?thesis
    using overflow_test [of "- int_val s y" s x] int_val_abs_less [of s y]
    by (auto simp: SafeSub_def checked_def go_less_def Let_def split: if_splits)
qed

section \<open>Multiplication\<close>

lemma sdiv_rem_less: "b \<noteq> 0 \<Longrightarrow> \<bar>a - b * (a sdiv b)\<bar> < \<bar>b :: int\<bar>"
proof -
  assume b: "b \<noteq> 0"
  have "b * (a sdiv b) = sgn a * (\<bar>b\<bar> * (\<bar>a\<bar> div \<bar>b\<bar>))"
    by (simp add: signed_divide_int_def abs_sgn algebra_simps)
  also have "\<bar>b\<bar> * (\<bar>a\<bar> div \<bar>b\<bar>) = \<bar>a\<bar> - \<bar>a\<bar> mod \<bar>b\<bar>"
    by (simp add: minus_mod_eq_mult_div)
  finally have "a - b * (a sdiv b) = sgn a * (\<bar>a\<bar> mod \<bar>b\<bar>)"
    by (simp add: algebra_simps) (simp add: abs_sgn)
  moreover have "0 \<le> \<bar>a\<bar> mod \<bar>b\<bar>" using b by simp
  ultimately have "\<bar>a - b * (a sdiv b)\<bar> \<le> \<bar>a\<bar> mod \<bar>b\<bar>"
    by (simp add: abs_mult abs_sgn_eq)
  also have "\<dots> < \<bar>b\<bar>" using b by simp
  finally show ?thesis .
qed

lemma sdiv_abs_le: "\<bar>a sdiv b\<bar> \<le> \<bar>a :: int\<bar>"
proof (cases "b = 0")
  case True
  then show ?thesis by (simp add: signed_divide_int_def)
next
  case False
  then have "\<bar>a\<bar> div \<bar>b\<bar> \<le> \<bar>a\<bar>" using zdiv_mono2 [of "\<bar>a\<bar>" 1 "\<bar>b\<bar>"] by simp
  moreover from False have "0 \<le> \<bar>a\<bar> div \<bar>b\<bar>" by (simp add: pos_imp_zdiv_nonneg_iff)
  ultimately show ?thesis
    by (auto simp: signed_divide_int_def abs_mult abs_sgn_eq)
qed

lemma mult_sdiv_cancel: "a \<noteq> 0 \<Longrightarrow> (a * b) sdiv a = (b :: int)"
  by (simp add: signed_divide_int_def abs_mult sgn_mult algebra_simps)
    (simp add: abs_sgn sgn_if)

text \<open>The quotient fits, but for the least number divided by minus one.\<close>

lemma fits_sdiv:
  fixes r x :: "'a::len word"
  assumes "\<not> fits s TYPE('a) (int_val s r sdiv int_val s x)"
  shows "s = Signed \<and> int_val s r = int_min s TYPE('a) \<and> int_val s x = -1
         \<and> int_val s r sdiv int_val s x = - int_min s TYPE('a)"
proof (cases s)
  case Unsigned
  have "0 \<le> uint r sdiv uint x"
    by (cases "uint r = 0"; cases "uint x = 0")
      (simp_all add: signed_divide_int_def pos_imp_zdiv_nonneg_iff order_neq_le_trans)
  with sdiv_abs_le [of "uint r" "uint x"] int_val_bounds [of Unsigned r]
  have "fits s TYPE('a) (int_val s r sdiv int_val s x)"
    unfolding Unsigned fits_def int_val_simps int_min_simps int_max_simps by linarith
  with assms show ?thesis by contradiction
next
  case Signed
  let ?m = "2 ^ (LENGTH('a) - 1) :: int" and ?q = "sint r sdiv sint x"
  have r: "- ?m \<le> sint r" "sint r < ?m" by (rule sint_ge, rule sint_lt)
  from assms Signed have "?q < - ?m \<or> ?m \<le> ?q" by (auto simp: fits_def)
  with sdiv_abs_le [of "sint r" "sint x"] r have q: "?q = ?m" and rm: "sint r = - ?m"
    by linarith+
  have m: "0 < ?m" by simp
  have "\<not> 1 < \<bar>sint x\<bar>"
  proof
    assume "1 < \<bar>sint x\<bar>"
    then have "\<bar>sint r\<bar> div \<bar>sint x\<bar> < \<bar>sint r\<bar>"
      using rm m by (intro int_div_less_self) simp_all
    moreover have "?q \<le> \<bar>sint r\<bar> div \<bar>sint x\<bar>"
      by (auto simp: signed_divide_int_def sgn_if pos_imp_zdiv_nonneg_iff)
    ultimately show False using q rm m by linarith
  qed
  moreover have "sint x \<noteq> 0" "sint x \<noteq> 1"
    using q rm m by (auto simp: signed_divide_int_def sgn_mult_abs)
  ultimately have "sint x = -1" by linarith
  with Signed q rm show ?thesis by simp
qed

lemma word_half_wrap:
  "word_of_int (2 ^ (LENGTH('a) - 1)) = (word_of_int (- (2 ^ (LENGTH('a) - 1))) :: 'a::len word)"
proof -
  have "(2::int) ^ (LENGTH('a) - 1) - - (2 ^ (LENGTH('a) - 1)) = 2 ^ LENGTH('a)"
    by (simp flip: power_Suc)
  then show ?thesis
    unfolding word_of_int_eq_iff take_bit_eq_mod mod_eq_dvd_iff by simp
qed

lemma fits_int_min [simp]: "fits s TYPE('a::len) (int_min s TYPE('a))"
  using int_val_bounds [of s "0 :: 'a word"] by (simp add: fits_def)

lemma mul_blind_spot_result:
  fixes x y :: "'a::len word"
  assumes "mul_blind_spot s x y"
  shows "x * y = y" and "go_div s (x * y) x = y"
proof -
  from assms have s: "s = Signed" and x: "int_val s x = -1" and y: "int_val s y = int_min s TYPE('a)"
    unfolding mul_blind_spot_def by blast+
  have wrap: "word_of_int (- int_min s TYPE('a)) = y"
    using s y word_half_wrap word_of_int_val [of s y] by (metis int_min_simps(2) minus_minus)
  have "x * y = word_of_int (int_val s x * int_val s y)" by (rule word_arith_int_val)
  also have "\<dots> = word_of_int (- int_min s TYPE('a))" by (simp only: x y mult_minus1)
  finally show xy: "x * y = y" using wrap by simp
  then have "go_div s (x * y) x = word_of_int (- int_min s TYPE('a))"
    using x y by (simp add: go_div_def signed_divide_int_def sgn_if)
  with wrap show "go_div s (x * y) x = y" by simp
qed

lemma mul_undetected:
  fixes x y :: "'a::len word"
  assumes x: "x \<noteq> 0" and nofit: "\<not> fits s TYPE('a) (int_val s x * int_val s y)"
    and y: "go_div s (x * y) x = y"
  shows "mul_blind_spot s x y"
proof -
  let ?r = "int_val s (x * y)" and ?x = "int_val s x" and ?y = "int_val s y"
  obtain k where r: "?r = ?x * ?y + k * 2 ^ LENGTH('a)" and k: "k \<noteq> 0"
    using int_val_overflow [OF nofit] word_arith_int_val(3) [of x y s] by metis
  have "\<not> fits s TYPE('a) (?r sdiv ?x)"
  proof
    assume "fits s TYPE('a) (?r sdiv ?x)"
    then have "?r sdiv ?x = ?y" using y int_val_of_int unfolding go_div_def by metis
    with sdiv_rem_less [of ?x ?r] x r have "\<bar>k * 2 ^ LENGTH('a)\<bar> < \<bar>?x\<bar>" by simp
    moreover have "1 * 2 ^ LENGTH('a) \<le> \<bar>k\<bar> * 2 ^ LENGTH('a)"
      using k by (intro mult_right_mono) simp_all
    ultimately show False using int_val_abs_less [of s x] by (simp add: abs_mult)
  qed
  then have q: "s = Signed" "?r = int_min s TYPE('a)" "?x = -1" "?r sdiv ?x = - int_min s TYPE('a)"
    by (blast dest: fits_sdiv)+
  have "y = word_of_int (- int_min s TYPE('a))" using y q(4) by (simp add: go_div_def)
  also have "\<dots> = word_of_int (int_min s TYPE('a))" using q(1) word_half_wrap by simp
  finally have "?y = int_min s TYPE('a)" using int_val_of_int fits_int_min by metis
  with q show ?thesis by (simp add: mul_blind_spot_def)
qed

lemma checked_0 [simp]: "checked s 0 = Inr 0"
  by (cases s) (simp_all add: checked_def fits_def)

lemma SafeMul_eq:
  fixes x y :: "'a::len word"
  shows "SafeMul s x y = (if mul_blind_spot s x y then Inr y else checked s (int_val s x * int_val s y))"
proof (cases "x = 0 \<or> y = 0")
  case True
  then show ?thesis by (auto simp: SafeMul_def mul_blind_spot_def)
next
  case False
  then have x: "x \<noteq> 0" by simp
  show ?thesis
  proof (cases "fits s TYPE('a) (int_val s x * int_val s y)")
    case True
    then have "int_val s (x * y) = int_val s x * int_val s y"
      using int_val_of_int word_arith_int_val(3) by metis
    then have "go_div s (x * y) x = y" using x by (simp add: go_div_def mult_sdiv_cancel)
    moreover have "\<not> mul_blind_spot s x y" using True by (auto simp: mul_blind_spot_def fits_def)
    ultimately show ?thesis using True False by (simp add: SafeMul_def checked_def)
  next
    case nofit: False
    show ?thesis
    proof (cases "mul_blind_spot s x y")
      case True
      with False mul_blind_spot_result [OF True] show ?thesis by (simp add: SafeMul_def)
    next
      case neq: False
      with mul_undetected [OF x nofit] have "go_div s (x * y) x \<noteq> y" by blast
      with False nofit neq show ?thesis by (simp add: SafeMul_def checked_def)
    qed
  qed
qed

section \<open>128-bit products\<close>

lemma unat_u64_less: "unat (x :: u64) < 2 ^ 64"
proof -
  have "unat x < 2 ^ LENGTH(64)" by (rule unsigned_less)
  then show ?thesis by simp
qed

lemma Mul64_hi_lo:
  assumes "Mul64 x y = (hi, lo)"
  shows "unat hi = unat x * unat y div 2 ^ 64" and "unat lo = unat x * unat y mod 2 ^ 64"
proof -
  have "unat x * unat y < 2 ^ 64 * 2 ^ 64"
    using unat_u64_less by (intro mult_strict_mono) auto
  then have "unat x * unat y div 2 ^ 64 < 2 ^ 64" by (simp add: less_mult_imp_div_less)
  with assms show "unat hi = unat x * unat y div 2 ^ 64"
    by (auto simp: Mul64_def Let_def unat_of_nat)
  from assms show "unat lo = unat x * unat y mod 2 ^ 64"
    by (auto simp: Mul64_def Let_def unat_of_nat)
qed

lemma Safe64MulDiv_eq:
  "Safe64MulDiv x y d = Some
     (if d = 0 then Inl ErrIntegerDivisionByZero
      else if unat x * unat y div unat d < 2 ^ 64 then Inr (word_of_nat (unat x * unat y div unat d))
      else Inl ErrIntegerOverflow)"
proof (cases "d = 0")
  case True
  then show ?thesis by (simp add: Safe64MulDiv_def)
next
  case False
  obtain hi lo where m: "Mul64 x y = (hi, lo)" by (cases "Mul64 x y")
  note hl = Mul64_hi_lo [OF m]
  have p: "unat hi * 2 ^ 64 + unat lo = unat x * unat y" unfolding hl by simp
  have d: "0 < unat d" using False by (simp add: unat_gt_0)
  have "d \<le> hi \<longleftrightarrow> unat d \<le> unat x * unat y div 2 ^ 64" by (simp add: word_le_nat_alt hl)
  also have "\<dots> \<longleftrightarrow> unat d * 2 ^ 64 \<le> unat x * unat y" by (simp add: less_eq_div_iff_mult_less_eq)
  also have "\<dots> \<longleftrightarrow> \<not> unat x * unat y div unat d < 2 ^ 64"
    using d by (simp add: div_less_iff_less_mult mult.commute not_less)
  finally show ?thesis
    using False m p by (auto simp: Safe64MulDiv_def Div64_def Let_def)
qed

lemma SafeMulUint64_eq:
  "SafeMulUint64 x y = checked Unsigned (uint x * uint y)"
proof -
  obtain hi lo where m: "Mul64 x y = (hi, lo)" by (cases "Mul64 x y")
  note hl = Mul64_hi_lo [OF m]
  have hi: "hi = 0 \<longleftrightarrow> unat x * unat y < 2 ^ 64"
    using hl(1) by (simp add: div_eq_0_iff flip: unat_0_iff)
  have "fits Unsigned TYPE(64) (uint x * uint y) \<longleftrightarrow> int (unat x * unat y) < int (2 ^ 64)"
    by (auto simp: fits_def)
  also have "\<dots> \<longleftrightarrow> hi = 0" unfolding hi by (rule of_nat_less_iff)
  finally have fits: "fits Unsigned TYPE(64) (uint x * uint y) \<longleftrightarrow> hi = 0" .
  have lo: "lo = x * y" if "hi = 0"
  proof -
    from that hi have lt: "unat x * unat y < 2 ^ LENGTH(64)" by simp
    then have "unat (x * y) = unat x * unat y" by (rule unat_mult_lem [THEN iffD1])
    moreover from lt hl(2) have "unat lo = unat x * unat y" by simp
    ultimately show ?thesis by (simp only: word_unat_eq_iff)
  qed
  have "SafeMulUint64 x y = (if hi \<noteq> 0 then Inl ErrIntegerOverflow else Inr (x * y))"
    using m hi lo by (simp add: SafeMulUint64_def)
  then show ?thesis unfolding checked_def fits by simp
qed

lemma sign_bit_63: "and (signed_drop_bit 63 w) 1 = (1 :: u64) \<longleftrightarrow> sint w < 0"
proof -
  have "and (signed_drop_bit 63 w) 1 = (1 :: u64) \<longleftrightarrow> odd (signed_drop_bit 63 w)"
    by (simp only: and_one_eq odd_iff_mod_2_eq_one)
  also have "\<dots> \<longleftrightarrow> bit w 63" by (simp only: flip: bit_0) (simp add: bit_signed_drop_bit_iff)
  also have "\<dots> \<longleftrightarrow> sint w < 0" using bit_last_iff [of w] by simp
  finally show ?thesis .
qed

lemma unat_abs_word:
  "unat (if sint x < 0 then - x else (x :: 'a::len word)) = nat \<bar>sint x\<bar>"
proof (cases "sint x < 0")
  case True
  have "- x = word_of_int (- sint x)" by simp
  moreover have "- sint x < 2 ^ LENGTH('a)" using int_val_abs_less [of Signed x] by simp
  ultimately have "uint (- x) = - sint x" using True by (simp only: uint_word_of_int) simp
  then have "nat (uint (- x)) = nat (- sint x)" by (rule arg_cong)
  with True show ?thesis by simp
next
  case False
  have "uint (word_of_int (sint x) :: 'a word) = sint x mod 2 ^ LENGTH('a)" by (rule uint_word_of_int)
  also have "\<dots> = sint x" using False int_val_abs_less [of Signed x] by (intro mod_pos_pos_trivial) simp_all
  finally have "nat (uint (word_of_int (sint x) :: 'a word)) = nat (sint x)" by (rule arg_cong)
  with False show ?thesis by simp
qed

lemma sint_of_int_64:
  assumes P: "0 < P" "P < 2 ^ 64"
  shows "sint (word_of_int P :: u64) < 0 \<longleftrightarrow> 2 ^ 63 \<le> P"
    and "sint (word_of_int (- P) :: u64) < 0 \<longleftrightarrow> P \<le> 2 ^ 63"
proof -
  have sint: "sint (word_of_int i :: u64) = i" if "- (2 ^ 63) \<le> i" "i < 2 ^ 63" for i
    using int_val_of_int [of Signed i, where ?'a = 64] that by (simp add: fits_def)
  have wrap: "word_of_int i = (word_of_int j :: u64)" if "i - j = 2 ^ 64" for i j
    using that by (simp only: word_of_int_eq_iff take_bit_eq_mod mod_eq_dvd_iff) simp
  have big: "sint (word_of_int P :: u64) = P - 2 ^ 64" if "2 ^ 63 \<le> P"
    by (subst wrap [of P "P - 2 ^ 64"], simp, rule sint) (use P(2) that in simp_all)
  have small: "sint (word_of_int (- P) :: u64) = 2 ^ 64 - P" if "2 ^ 63 < P"
    by (subst wrap [of "2 ^ 64 - P" "- P", symmetric], simp, rule sint) (use P(2) that in simp_all)
  show "sint (word_of_int P :: u64) < 0 \<longleftrightarrow> 2 ^ 63 \<le> P"
    using sint [of P] big P by (cases "P < 2 ^ 63") simp_all
  show "sint (word_of_int (- P) :: u64) < 0 \<longleftrightarrow> P \<le> 2 ^ 63"
    using sint [of "- P"] small P by (cases "P \<le> 2 ^ 63") simp_all
qed

lemma SafeMulInt64_eq: "SafeMulInt64 x y = checked Signed (sint x * sint y)"
proof (cases "x = 0 \<or> y = 0")
  case True
  then show ?thesis by (auto simp: SafeMulInt64_def)
next
  case False
  then have nz: "sint x \<noteq> 0" "sint y \<noteq> 0" using int_val_eq_0_iff [of Signed] by auto
  define neg where "neg \<longleftrightarrow> (sint x < 0) \<noteq> (sint y < 0)"
  define P where "P = \<bar>sint x\<bar> * \<bar>sint y\<bar>"
  have P0: "0 < P" using nz by (simp add: P_def)
  have prod: "sint x * sint y = (if neg then - P else P)"
    using nz by (auto simp: neg_def P_def abs_if)
  let ?x = "if sint x < 0 then - x else x" and ?y = "if sint y < 0 then - y else y"
  obtain hi lo where m: "Mul64 ?x ?y = (hi, lo)" by (cases "Mul64 ?x ?y")
  have "unat ?x * unat ?y = nat P" by (simp only: unat_abs_word P_def nat_mult_distrib abs_ge_zero)
  note hl = Mul64_hi_lo [OF m, unfolded this]
  have hi: "hi = 0 \<longleftrightarrow> P < 2 ^ 64"
    using hl(1) P0 by (simp add: div_eq_0_iff nat_less_iff flip: unat_0_iff)
  have run: "SafeMulInt64 x y =
     (if hi \<noteq> 0 then Inl ErrIntegerOverflow
      else let w = lo * (if neg then -1 else 1) in
        if (sint w < 0) = neg then Inr w else Inl ErrIntegerOverflow)"
    using False nz m by (auto simp: SafeMulInt64_def go_less_def neg_def sign_bit_63 Let_def)
  show ?thesis
  proof (cases "P < 2 ^ 64")
    case True
    then have "unat lo = nat P" using hl(2) by (simp add: nat_less_iff)
    then have "word_of_nat (unat lo) = (word_of_nat (nat P) :: u64)" by (rule arg_cong)
    then have "lo = word_of_int P" using P0 by (simp add: of_nat_nat)
    then have w: "lo * (if neg then -1 else 1) = word_of_int (sint x * sint y)" by (simp add: prod)
    show ?thesis
      using True hi P0 sint_of_int_64 [OF P0 True]
      by (auto simp: run w checked_def fits_def prod Let_def)
  next
    case nofit: False
    then have "\<not> fits Signed TYPE(64) (sint x * sint y)" by (auto simp: fits_def prod)
    with nofit hi show ?thesis by (simp add: run checked_def)
  qed
qed

section \<open>Division and shift\<close>

lemma SafeDiv_eq:
  fixes x y :: "'a::len word"
  assumes "y \<noteq> 0"
  shows "SafeDiv s x y =
     (if mul_blind_spot s y x then Inr x else checked s (int_val s x sdiv int_val s y))"
proof (cases "fits s TYPE('a) (int_val s x sdiv int_val s y)")
  case True
  then have "\<not> mul_blind_spot s y x"
    by (auto simp: mul_blind_spot_def fits_def signed_divide_int_def sgn_if split: if_splits)
  with True assms show ?thesis by (simp add: SafeDiv_def checked_def go_div_def)
next
  case False
  note q = fits_sdiv [OF False]
  then have "mul_blind_spot s y x" by (auto simp: mul_blind_spot_def)
  then have "y * x = x" and "go_div s (y * x) y = x" by (rule mul_blind_spot_result)+
  then have "go_div s x y = x" by simp
  with \<open>mul_blind_spot s y x\<close> assms show ?thesis by (simp add: SafeDiv_def)
qed

lemma push_bit_int_val:
  "push_bit n (w :: 'a::len word) = word_of_int (int_val s w * 2 ^ n)"
  by (simp add: push_bit_eq_mult)

lemma SafeLeftShift_eq:
  fixes val :: "'a::len word"
  assumes "0 \<le> int_val s val" and "fits s TYPE('a) (int_val s val * 2 ^ unat shift)"
  shows "SafeLeftShift s val shift = Inr (word_of_int (int_val s val * 2 ^ unat shift))"
proof -
  have "int_val s (push_bit (unat shift) val) = int_val s val * 2 ^ unat shift"
    unfolding push_bit_int_val [of _ _ s] using assms(2) by (rule int_val_of_int)
  moreover have "int_val s val * 1 \<le> int_val s val * 2 ^ unat shift"
    using assms(1) by (intro mult_left_mono) simp_all
  ultimately show ?thesis
    by (simp add: SafeLeftShift_def go_less_def Let_def push_bit_int_val [of _ _ s])
qed

section \<open>Properties\<close>

text \<open>C20: for every width and signedness, addition and subtraction return the exact sum or
  difference when it fits the type and the overflow error in every other case.\<close>

theorem safe_add_sub_exact:
  "SafeAdd s x y = checked s (int_val s x + int_val s y) \<and>
   SafeSub s x y = checked s (int_val s x - int_val s y)"
  by (simp only: SafeAdd_eq SafeSub_eq)


text \<open>the two 64-bit multiplications over a 128-bit product are exact, with no exception.\<close>

theorem safe_mul64_exact:
  "SafeMulUint64 x y = checked Unsigned (uint x * uint y) \<and>
   SafeMulInt64 x y = checked Signed (sint x * sint y)"
  by (simp only: SafeMulUint64_eq SafeMulInt64_eq)

text \<open>\<^verbatim>\<open>Safe64MulDiv\<close> never panics, and computes the quotient of the full 128-bit product or the
  error that says why there is none.\<close>

theorem safe_64_mul_div_exact:
  "Safe64MulDiv x y d = Some
     (if d = 0 then Inl ErrIntegerDivisionByZero
      else if unat x * unat y div unat d < 2 ^ 64 then Inr (word_of_nat (unat x * unat y div unat d))
      else Inl ErrIntegerOverflow)"
  by (rule Safe64MulDiv_eq)

text \<open>a left shift of a non-negative number whose exact result fits returns that result.\<close>

theorem safe_left_shift_exact:
  fixes val :: "'a::len word"
  assumes "0 \<le> int_val s val" and "fits s TYPE('a) (int_val s val * 2 ^ unat shift)"
  shows "SafeLeftShift s val shift = Inr (word_of_int (int_val s val * 2 ^ unat shift))"
  using assms by (rule SafeLeftShift_eq)

theorem safe_left_shift_exact_witness:
  "0 \<le> int_val Signed (5 :: 16 word) \<and> fits Signed TYPE(16) (int_val Signed (5 :: 16 word) * 2 ^ unat (3 :: u8))
   \<and> SafeLeftShift Signed (5 :: 16 word) 3 = Inr 40"
proof -
  have h: "0 \<le> int_val Signed (5 :: 16 word)"
    "fits Signed TYPE(16) (int_val Signed (5 :: 16 word) * 2 ^ unat (3 :: u8))"
    by (simp_all add: fits_def)
  from h safe_left_shift_exact [OF h] show ?thesis by simp
qed

text \<open>The converse fails: the comparison with the operand misses overflows whose low bits are larger than
  the operand, and refuses shifts of negative numbers that fit.\<close>

lemma SafeLeftShift_misses_overflow:
  "SafeLeftShift Unsigned (96 :: u8) 2 = Inr 128 \<and> \<not> fits Unsigned TYPE(8) (int_val Unsigned (96 :: u8) * 2 ^ 2)"
  by (simp add: SafeLeftShift_def go_less_def fits_def push_bit_eq_mult)

lemma SafeLeftShift_refuses_negative:
  "SafeLeftShift Signed (-1 :: u8) 1 = Inl ErrIntegerOverflow \<and> fits Signed TYPE(8) (int_val Signed (-1 :: u8) * 2 ^ 1)"
  by (simp add: SafeLeftShift_def go_less_def fits_def push_bit_eq_mult)

lemma SafeMul_misses_overflow:
  "SafeMul Signed (-1 :: u8) (-128) = Inr (-128)
   \<and> \<not> fits Signed TYPE(8) (int_val Signed (-1 :: u8) * int_val Signed (-128 :: u8))"
  by (simp add: SafeMul_eq mul_blind_spot_def fits_def)

end
