(* ===== verification/Array_Rules.thy ===== *)
theory Array_Rules
  imports Hive_Prelude
begin

text \<open>
  The files \<^verbatim>\<open>serializer/serializable.go\<close>, \<^verbatim>\<open>error.go\<close> and \<^verbatim>\<open>consts.go\<close>: the modes of (de)serialization, the
  error values, the rules of an array and the element validators. A validator of the source is a closure
  over a variable; here it is a value that holds the variable, and a step returns the error or the validator
  after the element. An error is represented by its sentinel, without the text it is wrapped with. Slices
  handed to a validator are not nil.
\<close>

section \<open>Definitions\<close>

subsection \<open>Constants, modes and errors\<close>

definition OneByte :: nat where "OneByte = 1"
definition UInt16ByteSize :: nat where "UInt16ByteSize = 2"
definition UInt32ByteSize :: nat where "UInt32ByteSize = 4"
definition UInt64ByteSize :: nat where "UInt64ByteSize = 8"
definition UInt256ByteSize :: nat where "UInt256ByteSize = 32"
definition PayloadLengthByteSize :: nat where "PayloadLengthByteSize = UInt32ByteSize"
definition MinPayloadByteSize :: nat where "MinPayloadByteSize = UInt32ByteSize + OneByte"
definition MaxNanoTimestampInt64Seconds :: int where
  "MaxNanoTimestampInt64Seconds = (2 ^ 63 - 1) div 1000000000"

lemmas byte_sizes =
  OneByte_def UInt16ByteSize_def UInt32ByteSize_def UInt64ByteSize_def UInt256ByteSize_def
  PayloadLengthByteSize_def MinPayloadByteSize_def

datatype TypeDenotationType = TypeDenotationUint32 | TypeDenotationByte | TypeDenotationNone

datatype seri_error =
    ErrInvalidBytes
  | ErrDeserializationTypeMismatch
  | ErrUnknownArrayValidationMode
  | ErrArrayValidationMinElementsNotReached
  | ErrArrayValidationMaxElementsExceeded
  | ErrArrayValidationViolatesUniqueness
  | ErrArrayValidationViolatesTypeUniqueness
  | ErrArrayValidationOrderViolatesLexicalOrder
  | ErrArrayValidationTypesNotOccurred
  | ErrDeserializationNotEnoughData
  | ErrDeserializationInvalidBoolValue
  | ErrDeserializationLengthInvalid
  | ErrDeserializationLengthMinNotReached
  | ErrDeserializationLengthMaxExceeded
  | ErrDeserializationNotAllConsumed
  | ErrUint256NumNegative
  | ErrSliceLengthTooShort
  | ErrSliceLengthTooLong
  | ErrStringTooShort
  | ErrStringTooLong
  | ErrUint256TooBig
  | ErrUint256Nil
  | LengthOutOfRange
  | CustomError string

type_synonym mode = byte

definition DeSeriModeNoValidation :: mode where "DeSeriModeNoValidation = 0"
definition DeSeriModePerformValidation :: mode where "DeSeriModePerformValidation = 1"
definition DeSeriModePerformLexicalOrdering :: mode where "DeSeriModePerformLexicalOrdering = 2"

definition ArrayValidationModeNone :: mode where "ArrayValidationModeNone = 0"
definition ArrayValidationModeNoDuplicates :: mode where "ArrayValidationModeNoDuplicates = 1"
definition ArrayValidationModeLexicalOrdering :: mode where "ArrayValidationModeLexicalOrdering = 2"
definition ArrayValidationModeAtMostOneOfEachTypeByte :: mode where
  "ArrayValidationModeAtMostOneOfEachTypeByte = 4"
definition ArrayValidationModeAtMostOneOfEachTypeUint32 :: mode where
  "ArrayValidationModeAtMostOneOfEachTypeUint32 = 8"

lemmas mode_defs =
  DeSeriModeNoValidation_def DeSeriModePerformValidation_def DeSeriModePerformLexicalOrdering_def
  ArrayValidationModeNone_def ArrayValidationModeNoDuplicates_def ArrayValidationModeLexicalOrdering_def
  ArrayValidationModeAtMostOneOfEachTypeByte_def ArrayValidationModeAtMostOneOfEachTypeUint32_def

definition DeSeri_HasMode :: "mode \<Rightarrow> mode \<Rightarrow> bool" where
  "DeSeri_HasMode sm m \<longleftrightarrow> and sm m > 0"

definition ArrayValidation_HasMode :: "mode \<Rightarrow> mode \<Rightarrow> bool" where
  "ArrayValidation_HasMode av m \<longleftrightarrow> and av m > 0"

definition TypePrefixes_Subset :: "u32 set \<Rightarrow> u32 set \<Rightarrow> bool" where
  "TypePrefixes_Subset ps other \<longleftrightarrow> (\<forall>p\<in>ps. p \<in> other)"

definition CheckType :: "bytes \<Rightarrow> u32 \<Rightarrow> seri_error option" where
  "CheckType dat shouldType =
     (if length dat < UInt32ByteSize then Some ErrDeserializationNotEnoughData
      else let actualType = word_of_nat (le_val (take UInt32ByteSize dat)) in
        if actualType \<noteq> shouldType then Some ErrDeserializationTypeMismatch else None)"

definition CheckTypeByte :: "bytes \<Rightarrow> byte \<Rightarrow> seri_error option" where
  "CheckTypeByte dat shouldType =
     (case dat of [] \<Rightarrow> Some ErrDeserializationNotEnoughData
      | b # _ \<Rightarrow> if b \<noteq> shouldType then Some ErrDeserializationTypeMismatch else None)"

definition CheckExactByteLength :: "int \<Rightarrow> int \<Rightarrow> seri_error option" where
  "CheckExactByteLength exact len = (if len \<noteq> exact then Some ErrInvalidBytes else None)"

definition CheckMinByteLength :: "int \<Rightarrow> int \<Rightarrow> seri_error option" where
  "CheckMinByteLength mn len = (if len < mn then Some ErrDeserializationNotEnoughData else None)"

subsection \<open>Array rules\<close>

record 'o ArrayRules =
  ar_Min :: nat
  ar_Max :: nat
  MustOccur :: "u32 set"
  ReadGuard :: "u32 \<Rightarrow> seri_error + 'o"
  PostReadGuard :: "('o option \<Rightarrow> seri_error option) option"
  WriteGuard :: "('o \<Rightarrow> seri_error option) option"
  ValidationMode :: mode

definition CheckBounds :: "'o ArrayRules \<Rightarrow> nat \<Rightarrow> seri_error option" where
  "CheckBounds ar count =
     (if ar_Min ar \<noteq> 0 \<and> count < ar_Min ar then Some ErrArrayValidationMinElementsNotReached
      else if ar_Max ar \<noteq> 0 \<and> count > ar_Max ar then Some ErrArrayValidationMaxElementsExceeded
      else None)"

subsection \<open>Element validators\<close>

definition ElementUniqueValidator ::
  "(bytes \<rightharpoonup> nat) \<Rightarrow> nat \<Rightarrow> bytes \<Rightarrow> seri_error + (bytes \<rightharpoonup> nat)" where
  "ElementUniqueValidator s idx nxt =
     (case s nxt of Some j \<Rightarrow> Inl ErrArrayValidationViolatesUniqueness | None \<Rightarrow> Inr (s(nxt \<mapsto> idx)))"

definition LexicalOrderValidator ::
  "(bytes \<times> nat) option \<Rightarrow> nat \<Rightarrow> bytes \<Rightarrow> seri_error + (bytes \<times> nat) option" where
  "LexicalOrderValidator s idx nxt =
     (case s of None \<Rightarrow> Inr (Some (nxt, idx))
      | Some (prev, prevIndex) \<Rightarrow>
          if bytes_compare prev nxt > 0 then Inl ErrArrayValidationOrderViolatesLexicalOrder
          else Inr (Some (nxt, idx)))"

definition LexicalOrderWithoutDupsValidator ::
  "(bytes \<times> nat) option \<Rightarrow> nat \<Rightarrow> bytes \<Rightarrow> seri_error + (bytes \<times> nat) option" where
  "LexicalOrderWithoutDupsValidator s idx nxt =
     (case s of None \<Rightarrow> Inr (Some (nxt, idx))
      | Some (prev, prevIndex) \<Rightarrow>
          if bytes_compare prev nxt = 1 then Inl ErrArrayValidationOrderViolatesLexicalOrder
          else if bytes_compare prev nxt = 0 then Inl ErrArrayValidationViolatesUniqueness
          else Inr (Some (nxt, idx)))"

text \<open>The key a type uniqueness check looks at; an unknown denotation panics.\<close>

definition type_key :: "TypeDenotationType \<Rightarrow> bytes \<Rightarrow> (seri_error + u32) option" where
  "type_key td nxt =
     (case td of
        TypeDenotationUint32 \<Rightarrow>
          Some (if length nxt < UInt32ByteSize then Inl ErrInvalidBytes
                else Inr (word_of_nat (le_val (take UInt32ByteSize nxt))))
      | TypeDenotationByte \<Rightarrow>
          Some (case nxt of [] \<Rightarrow> Inl ErrInvalidBytes | b # _ \<Rightarrow> Inr (ucast b))
      | TypeDenotationNone \<Rightarrow> None)"

definition AtMostOneOfEachTypeValidator ::
  "TypeDenotationType \<Rightarrow> (u32 \<rightharpoonup> nat) \<Rightarrow> nat \<Rightarrow> bytes \<Rightarrow> (seri_error + (u32 \<rightharpoonup> nat)) option" where
  "AtMostOneOfEachTypeValidator td seen idx nxt =
     (case type_key td nxt of None \<Rightarrow> None
      | Some (Inl e) \<Rightarrow> Some (Inl e)
      | Some (Inr key) \<Rightarrow>
          Some (case seen key of Some prevIndex \<Rightarrow> Inl ErrArrayValidationViolatesTypeUniqueness
                | None \<Rightarrow> Inr (seen(key \<mapsto> idx))))"

datatype validator =
    VUnique "bytes \<rightharpoonup> nat"
  | VLexical "(bytes \<times> nat) option"
  | VLexicalNoDups "(bytes \<times> nat) option"
  | VAtMostOne TypeDenotationType "u32 \<rightharpoonup> nat"

fun validator_step :: "validator \<Rightarrow> nat \<Rightarrow> bytes \<Rightarrow> (seri_error + validator) option" where
  "validator_step (VUnique s) i b = Some (map_sum id VUnique (ElementUniqueValidator s i b))"
| "validator_step (VLexical s) i b = Some (map_sum id VLexical (LexicalOrderValidator s i b))"
| "validator_step (VLexicalNoDups s) i b =
     Some (map_sum id VLexicalNoDups (LexicalOrderWithoutDupsValidator s i b))"
| "validator_step (VAtMostOne td s) i b =
     map_option (map_sum id (VAtMostOne td)) (AtMostOneOfEachTypeValidator td s i b)"

text \<open>The wrapped closures in the order they are called; the empty chain is the nil function. The loop
  runs over the bits of the mode until the bit is shifted out of the byte.\<close>

definition mode_bit_validators :: "mode \<Rightarrow> byte \<Rightarrow> validator list" where
  "mode_bit_validators m i =
     (let v = and m i in
      if v = ArrayValidationModeNone then []
      else if v = ArrayValidationModeNoDuplicates then
        (if ArrayValidation_HasMode m ArrayValidationModeLexicalOrdering then [] else [VUnique Map.empty])
      else if v = ArrayValidationModeLexicalOrdering then
        (if ArrayValidation_HasMode m ArrayValidationModeNoDuplicates then [VLexicalNoDups None]
         else [VLexical None])
      else if v = ArrayValidationModeAtMostOneOfEachTypeByte then [VAtMostOne TypeDenotationByte Map.empty]
      else if v = ArrayValidationModeAtMostOneOfEachTypeUint32 then
        [VAtMostOne TypeDenotationUint32 Map.empty]
      else [])"

fun bits_left :: "nat \<Rightarrow> byte \<Rightarrow> nat" where
  "bits_left 0 i = 0"
| "bits_left (Suc n) i = (if i = 0 then 0 else Suc (bits_left n (push_bit 1 i)))"

function validation_loop :: "mode \<Rightarrow> byte \<Rightarrow> validator list \<Rightarrow> validator list" where
  "validation_loop m i acc =
     (if i = 0 then acc else validation_loop m (push_bit 1 i) (acc @ mode_bit_validators m i))"
  by pat_completeness auto
termination
proof (relation "measure (\<lambda>(m, i, acc). bits_left 8 i)", goal_cases)
  case 1
  then show ?case by simp
next
  case (2 m i acc)
  have "bits_left n (push_bit 1 j) < bits_left n j"
    if "j \<noteq> 0" "push_bit n j = 0" for n and j :: byte
    using that
  proof (induction n arbitrary: j)
    case 0
    then show ?case by simp
  next
    case (Suc n)
    have "push_bit n (push_bit 1 j) = 0" using Suc.prems(2) by (simp add: push_bit_push_bit ac_simps)
    with Suc.IH [of "push_bit 1 j"] Suc.prems(1) show ?case by (cases "push_bit 1 j = 0") auto
  qed
  moreover have "push_bit 8 i = 0" by (rule bit_word_eqI) (simp add: bit_simps)
  ultimately show ?case using 2 by simp
qed

definition ElementValidationFunc :: "'o ArrayRules \<Rightarrow> validator list" where
  "ElementValidationFunc ar = validation_loop (ValidationMode ar) 1 []"

fun run_validators :: "validator list \<Rightarrow> nat \<Rightarrow> bytes \<Rightarrow> (seri_error + validator list) option" where
  "run_validators [] i b = Some (Inr [])"
| "run_validators (v # vs) i b =
     (case validator_step v i b of None \<Rightarrow> None
      | Some (Inl e) \<Rightarrow> Some (Inl e)
      | Some (Inr v') \<Rightarrow>
          (case run_validators vs i b of None \<Rightarrow> None
           | Some (Inl e) \<Rightarrow> Some (Inl e)
           | Some (Inr vs') \<Rightarrow> Some (Inr (v' # vs'))))"

text \<open>The loop that hands the elements of an array to the chain, with their indices.\<close>

fun validate_elements :: "validator list \<Rightarrow> nat \<Rightarrow> bytes list \<Rightarrow> (seri_error + validator list) option" where
  "validate_elements vs i [] = Some (Inr vs)"
| "validate_elements vs i (b # bs) =
     (case run_validators vs i b of None \<Rightarrow> None
      | Some (Inl e) \<Rightarrow> Some (Inl e)
      | Some (Inr vs') \<Rightarrow> validate_elements vs' (Suc i) bs)"

text \<open>What the modes ask of an array, without reference to how it is checked.\<close>

definition array_valid :: "mode \<Rightarrow> bytes list \<Rightarrow> bool" where
  "array_valid m bs \<longleftrightarrow>
     (bit m 0 \<longrightarrow> distinct bs) \<and>
     (bit m 1 \<longrightarrow> sorted bs) \<and>
     (bit m 2 \<longrightarrow> [] \<notin> set bs \<and> distinct (map hd bs)) \<and>
     (bit m 3 \<longrightarrow> (\<forall>b\<in>set bs. 4 \<le> length b) \<and> distinct (map (take 4) bs))"

definition accepts :: "validator list \<Rightarrow> nat \<Rightarrow> bytes list \<Rightarrow> bool" where
  "accepts vs i bs \<longleftrightarrow> (\<exists>vs'. validate_elements vs i bs = Some (Inr vs'))"

definition typed_validator :: "validator \<Rightarrow> bool" where
  "typed_validator v \<longleftrightarrow> (\<forall>s. v \<noteq> VAtMostOne TypeDenotationNone s)"

section \<open>Lemmas\<close>

subsection \<open>One validator\<close>

lemma accepts_Nil [simp]: "accepts vs i []"
  by (simp add: accepts_def)

lemma accepts_single:
  "accepts [v] i (b # bs) \<longleftrightarrow> (\<exists>v'. validator_step v i b = Some (Inr v') \<and> accepts [v'] (Suc i) bs)"
  by (auto simp: accepts_def split: option.splits sum.splits)

lemma accepts_VUnique:
  "accepts [VUnique s] i bs \<longleftrightarrow> distinct bs \<and> set bs \<inter> dom s = {}"
proof (induction bs arbitrary: s i)
  case (Cons b bs)
  show ?case
    by (cases "s b") (auto simp: accepts_single ElementUniqueValidator_def Cons.IH simp del: fun_upd_apply)
qed simp

lemma accepts_VLexical_Some:
  "accepts [VLexical (Some (p, j))] i bs \<longleftrightarrow> sorted (p # bs)"
proof (induction bs arbitrary: p j i)
  case (Cons b bs)
  have "bytes_compare p b > 0 \<longleftrightarrow> \<not> p \<le> b" by (simp add: bytes_compare_greater_0 not_le)
  then show ?case
    by (auto simp: accepts_single LexicalOrderValidator_def Cons.IH)
qed simp

lemma accepts_VLexical: "accepts [VLexical None] i bs \<longleftrightarrow> sorted bs"
  by (cases bs) (simp_all add: accepts_single LexicalOrderValidator_def accepts_VLexical_Some)

lemma accepts_VLexicalNoDups_Some:
  "accepts [VLexicalNoDups (Some (p, j))] i bs \<longleftrightarrow> sorted_wrt (<) (p # bs)"
proof (induction bs arbitrary: p j i)
  case (Cons b bs)
  have "bytes_compare p b = 1 \<or> bytes_compare p b = 0 \<longleftrightarrow> \<not> p < b"
    by (auto simp: bytes_compare_greater bytes_compare_eq)
  then show ?case
    by (auto simp: accepts_single LexicalOrderWithoutDupsValidator_def Cons.IH)
qed simp

lemma accepts_VLexicalNoDups: "accepts [VLexicalNoDups None] i bs \<longleftrightarrow> sorted_wrt (<) bs"
  by (cases bs) (simp_all add: accepts_single LexicalOrderWithoutDupsValidator_def accepts_VLexicalNoDups_Some)

lemma accepts_VAtMostOne:
  "accepts [VAtMostOne td s] i bs \<longleftrightarrow>
     (\<forall>b\<in>set bs. \<exists>k. type_key td b = Some (Inr k) \<and> k \<notin> dom s) \<and> distinct (map (type_key td) bs)"
proof (induction bs arbitrary: s i)
  case (Cons b bs)
  consider (key) k where "type_key td b = Some (Inr k)" | (fail) "\<forall>k. type_key td b \<noteq> Some (Inr k)"
    by blast
  then show ?case
  proof cases
    case key
    show ?thesis
    proof (cases "s k")
      case None
      with key show ?thesis
        by (auto simp: accepts_single AtMostOneOfEachTypeValidator_def Cons.IH simp del: fun_upd_apply) force+
    next
      case (Some j)
      with key show ?thesis by (auto simp: accepts_single AtMostOneOfEachTypeValidator_def)
    qed
  next
    case fail
    then have "\<not> accepts [VAtMostOne td s] i (b # bs)"
      by (auto simp: accepts_single AtMostOneOfEachTypeValidator_def split: option.splits sum.splits)
    with fail show ?thesis by simp
  qed
qed simp

subsection \<open>Chains\<close>

lemma run_validators_Cons_Inr:
  "run_validators (v # vs) i b = Some (Inr ws) \<longleftrightarrow>
     (\<exists>v' vs'. ws = v' # vs' \<and> validator_step v i b = Some (Inr v') \<and> run_validators vs i b = Some (Inr vs'))"
  by (auto split: option.splits sum.splits)

lemma accepts_Cons: "accepts (v # vs) i bs \<longleftrightarrow> accepts [v] i bs \<and> accepts vs i bs"
proof (induction bs arbitrary: v vs i)
  case (Cons b bs)
  have step: "accepts ws i (b # bs) \<longleftrightarrow> (\<exists>ws'. run_validators ws i b = Some (Inr ws') \<and> accepts ws' (Suc i) bs)" for ws
    by (auto simp: accepts_def split: option.splits sum.splits)
  have "accepts (v # vs) i (b # bs) \<longleftrightarrow>
    (\<exists>v' vs'. validator_step v i b = Some (Inr v') \<and> run_validators vs i b = Some (Inr vs')
       \<and> accepts (v' # vs') (Suc i) bs)"
    unfolding step run_validators_Cons_Inr by blast
  also have "\<dots> \<longleftrightarrow> (\<exists>v' vs'. validator_step v i b = Some (Inr v') \<and> run_validators vs i b = Some (Inr vs')
       \<and> accepts [v'] (Suc i) bs \<and> accepts vs' (Suc i) bs)"
    using Cons.IH by blast
  finally show ?case
    using step [of vs] accepts_single [of v i b bs] by blast
qed simp

lemma accepts_empty [simp]: "accepts [] i bs"
  by (induction bs arbitrary: i) (simp_all add: accepts_def)

lemma accepts_append: "accepts (vs @ ws) i bs \<longleftrightarrow> accepts vs i bs \<and> accepts ws i bs"
proof (induction vs)
  case (Cons v vs)
  then show ?case using accepts_Cons [of v "vs @ ws" i bs] accepts_Cons [of v vs i bs] by simp
qed simp

subsection \<open>The chain of a mode\<close>

lemma and_power_2: "and m (2 ^ n) = (if bit m n then 2 ^ n else (0 :: 'a::len word))"
  by (rule bit_word_eqI) (auto simp: bit_simps)

lemma and_mode_bits:
  "and m 1 = (if bit m 0 then 1 else (0 :: byte))" "and m 2 = (if bit m 1 then 2 else (0 :: byte))"
  "and m 4 = (if bit m 2 then 4 else (0 :: byte))" "and m 8 = (if bit m 3 then 8 else (0 :: byte))"
  "and m 16 = (if bit m 4 then 16 else (0 :: byte))" "and m 32 = (if bit m 5 then 32 else (0 :: byte))"
  "and m 64 = (if bit m 6 then 64 else (0 :: byte))" "and m 128 = (if bit m 7 then 128 else (0 :: byte))"
  using and_power_2 [of m 0] and_power_2 [of m 1] and_power_2 [of m 2] and_power_2 [of m 3]
    and_power_2 [of m 4] and_power_2 [of m 5] and_power_2 [of m 6] and_power_2 [of m 7]
  by simp_all

lemma HasMode_bits:
  "ArrayValidation_HasMode m ArrayValidationModeNoDuplicates \<longleftrightarrow> bit m 0"
  "ArrayValidation_HasMode m ArrayValidationModeLexicalOrdering \<longleftrightarrow> bit m 1"
  "DeSeri_HasMode m DeSeriModePerformValidation \<longleftrightarrow> bit m 0"
  "DeSeri_HasMode m DeSeriModePerformLexicalOrdering \<longleftrightarrow> bit m 1"
  by (simp_all add: ArrayValidation_HasMode_def DeSeri_HasMode_def mode_defs and_mode_bits)

lemma mode_bit_validators_simps:
  "mode_bit_validators m 1 = (if bit m 0 \<and> \<not> bit m 1 then [VUnique Map.empty] else [])"
  "mode_bit_validators m 2 =
     (if bit m 1 then (if bit m 0 then [VLexicalNoDups None] else [VLexical None]) else [])"
  "mode_bit_validators m 4 = (if bit m 2 then [VAtMostOne TypeDenotationByte Map.empty] else [])"
  "mode_bit_validators m 8 = (if bit m 3 then [VAtMostOne TypeDenotationUint32 Map.empty] else [])"
  "mode_bit_validators m 16 = []" "mode_bit_validators m 32 = []"
  "mode_bit_validators m 64 = []" "mode_bit_validators m 128 = []"
  by (simp_all add: mode_bit_validators_def and_mode_bits mode_defs HasMode_bits [unfolded mode_defs])

lemma ElementValidationFunc_chain:
  "ElementValidationFunc ar =
     (let m = ValidationMode ar in
       (if bit m 0 \<and> \<not> bit m 1 then [VUnique Map.empty] else []) @
       (if bit m 1 then (if bit m 0 then [VLexicalNoDups None] else [VLexical None]) else []) @
       (if bit m 2 then [VAtMostOne TypeDenotationByte Map.empty] else []) @
       (if bit m 3 then [VAtMostOne TypeDenotationUint32 Map.empty] else []))"
proof -
  have "validation_loop m 1 [] =
    mode_bit_validators m 1 @ mode_bit_validators m 2 @ mode_bit_validators m 4 @ mode_bit_validators m 8 @
    mode_bit_validators m 16 @ mode_bit_validators m 32 @ mode_bit_validators m 64 @ mode_bit_validators m 128"
    for m by simp
  then show ?thesis unfolding ElementValidationFunc_def Let_def by (simp only: mode_bit_validators_simps append_Nil2)
qed

lemma type_key_byte_ok:
  "(\<forall>b\<in>set bs. \<exists>k. type_key TypeDenotationByte b = Some (Inr k)) \<longleftrightarrow> [] \<notin> set bs"
  by (force simp: type_key_def split: list.splits)

lemma type_key_byte_distinct:
  "[] \<notin> set bs \<Longrightarrow> distinct (map (type_key TypeDenotationByte) bs) \<longleftrightarrow> distinct (map hd bs)"
proof -
  assume "[] \<notin> set bs"
  then have "map (type_key TypeDenotationByte) bs = map (\<lambda>b. Some (Inr (ucast b))) (map hd bs)"
    by (auto simp: type_key_def split: list.splits)
  moreover have "inj (\<lambda>b :: byte. Some (Inr (ucast b :: u32) :: seri_error + u32))"
  proof (rule injI)
    fix a b :: byte
    assume "Some (Inr (ucast a :: u32) :: seri_error + u32) = Some (Inr (ucast b))"
    then have "uint (ucast a :: u32) = uint (ucast b :: u32)" by simp
    moreover have "take_bit 32 (uint c) = uint c" for c :: byte
      using uint_lt2p [of c] by (simp add: take_bit_int_eq_self_iff)
    ultimately show "a = b" by (simp add: unsigned_ucast_eq word_uint_eq_iff)
  qed
  then have "inj_on (\<lambda>b :: byte. Some (Inr (ucast b :: u32) :: seri_error + u32)) (set (map hd bs))"
    by (rule inj_on_subset) simp
  ultimately show ?thesis by (simp only: distinct_map simp_thms)
qed

lemma type_key_u32_ok:
  "(\<forall>b\<in>set bs. \<exists>k. type_key TypeDenotationUint32 b = Some (Inr k)) \<longleftrightarrow> (\<forall>b\<in>set bs. 4 \<le> length b)"
  by (auto simp: type_key_def byte_sizes)

lemma type_key_u32_distinct:
  assumes "\<forall>b\<in>set bs. 4 \<le> length b"
  shows "distinct (map (type_key TypeDenotationUint32) bs) \<longleftrightarrow> distinct (map (take 4) bs)"
proof -
  have len: "length a = 4" if "a \<in> set (map (take 4) bs)" for a using that assms by auto
  let ?f = "\<lambda>b. Some (Inr (word_of_nat (le_val b)) :: seri_error + u32)"
  have "map (type_key TypeDenotationUint32) bs = map ?f (map (take 4) bs)"
    using assms by (auto simp: type_key_def byte_sizes)
  moreover have "inj_on ?f (set (map (take 4) bs))"
  proof (rule inj_onI)
    fix a b assume ab: "a \<in> set (map (take 4) bs)" "b \<in> set (map (take 4) bs)" and "?f a = ?f b"
    then have "(word_of_nat (le_val a) :: u32) = word_of_nat (le_val b)" by simp
    moreover from ab have l: "length a = 4" "length b = 4" by (blast intro: len)+
    moreover from l have "le_val a < 2 ^ 32" "le_val b < 2 ^ 32"
      using le_val_less [of a] le_val_less [of b] by simp_all
    ultimately have "le_val a = le_val b" by (simp add: word_of_nat_eq_iff take_bit_nat_eq_self)
    with l show "a = b" using le_bytes_le_val [of a] le_bytes_le_val [of b] by simp
  qed
  ultimately show ?thesis by (simp only: distinct_map simp_thms)
qed

lemma accepts_ElementValidationFunc:
  "accepts (ElementValidationFunc ar) i bs \<longleftrightarrow> array_valid (ValidationMode ar) bs"
proof -
  have "sorted_wrt (<) bs \<longleftrightarrow> sorted bs \<and> distinct bs" by (simp add: strict_sorted_iff)
  then show ?thesis
    unfolding ElementValidationFunc_chain Let_def accepts_append array_valid_def
    using type_key_byte_distinct [of bs] type_key_u32_distinct [of bs] type_key_byte_ok [of bs] type_key_u32_ok [of bs]
    by (auto simp: accepts_VUnique accepts_VLexical accepts_VLexicalNoDups accepts_VAtMostOne)
qed


subsection \<open>No panic\<close>

lemma validator_step_total:
  "typed_validator v \<Longrightarrow> \<exists>r. validator_step v i b = Some r \<and> (\<forall>v'. r = Inr v' \<longrightarrow> typed_validator v')"
proof (cases v)
  case (VAtMostOne td s)
  moreover assume "typed_validator v"
  ultimately have "td = TypeDenotationByte \<or> td = TypeDenotationUint32"
    by (cases td) (simp_all add: typed_validator_def)
  then have "AtMostOneOfEachTypeValidator td s i b \<noteq> None"
    by (auto simp: AtMostOneOfEachTypeValidator_def type_key_def split: sum.splits)
  then obtain r where "AtMostOneOfEachTypeValidator td s i b = Some r" by blast
  with \<open>td = _ \<or> _\<close> VAtMostOne show ?thesis by (auto simp: typed_validator_def map_sum_def split: sum.splits)
qed (auto simp: typed_validator_def map_sum_def split: sum.splits)

lemma run_validators_total:
  "\<forall>v\<in>set vs. typed_validator v \<Longrightarrow>
    \<exists>r. run_validators vs i b = Some r \<and> (\<forall>vs'. r = Inr vs' \<longrightarrow> (\<forall>v\<in>set vs'. typed_validator v))"
proof (induction vs)
  case (Cons v vs)
  then obtain r where r: "validator_step v i b = Some r" "\<forall>v'. r = Inr v' \<longrightarrow> typed_validator v'"
    using validator_step_total [of v i b] by auto
  moreover obtain q where "run_validators vs i b = Some q" "\<forall>vs'. q = Inr vs' \<longrightarrow> (\<forall>v\<in>set vs'. typed_validator v)"
    using Cons by auto
  ultimately show ?case by (auto split: sum.splits)
qed simp

lemma validate_elements_total:
  "\<forall>v\<in>set vs. typed_validator v \<Longrightarrow> \<exists>r. validate_elements vs i bs = Some r"
proof (induction bs arbitrary: vs i)
  case (Cons b bs)
  then obtain r where "run_validators vs i b = Some r" "\<forall>vs'. r = Inr vs' \<longrightarrow> (\<forall>v\<in>set vs'. typed_validator v)"
    using run_validators_total [of vs i b] by auto
  with Cons.IH show ?case by (cases r) auto
qed simp

lemma typed_ElementValidationFunc: "\<forall>v\<in>set (ElementValidationFunc ar). typed_validator v"
  by (auto simp: ElementValidationFunc_chain Let_def typed_validator_def)


section \<open>Properties\<close>


end
