(* ===== verification/Byte_Serializer.thy ===== *)
theory Byte_Serializer
  imports Array_Rules
begin

text \<open>
  The \<^verbatim>\<open>Serializer\<close> of \<^verbatim>\<open>serializer/serializer.go\<close>: the buffer, the first error, and every writing method.
  A method returns the new serializer, or \<^term>\<open>None\<close> where the source panics. Writes to a
  \<^verbatim>\<open>bytes.Buffer\<close> do not fail. An \<^verbatim>\<open>ErrProducer\<close> may return nil, so it returns an option. The
  \<^verbatim>\<open>Serializable\<close> interface is implemented by the users of the package: its methods are arguments.
\<close>

section \<open>Definitions\<close>

record Serializer =
  s_buf :: bytes
  s_err :: "seri_error option"

type_synonym ErrProducer = "seri_error option \<Rightarrow> seri_error option"
type_synonym ErrProducerWithRWBytes = "bytes \<Rightarrow> seri_error option \<Rightarrow> seri_error option"

datatype SeriLengthPrefixType =
    SeriLengthPrefixTypeAsByte
  | SeriLengthPrefixTypeAsUint16
  | SeriLengthPrefixTypeAsUint32
  | SeriLengthPrefixTypeAsUint64
  | SeriLengthPrefixTypeUnknown byte

text \<open>The values \<^verbatim>\<open>WriteNum\<close> is called with: a Go number of one of the fixed-size types, floats by their
  bits, or a value \<^verbatim>\<open>binary.Write\<close> refuses.\<close>

datatype go_num =
    NBool bool
  | NInt8 u8 | NUint8 u8
  | NInt16 u16 | NUint16 u16
  | NInt32 u32 | NUint32 u32
  | NInt64 u64 | NUint64 u64
  | NFloat32 u32 | NFloat64 u64
  | NOther

fun binary_Write :: "go_num \<Rightarrow> seri_error + bytes" where
  "binary_Write (NBool b) = Inr [if b then 1 else 0]"
| "binary_Write (NInt8 w) = Inr (le_bytes 1 (unat w))"
| "binary_Write (NUint8 w) = Inr (le_bytes 1 (unat w))"
| "binary_Write (NInt16 w) = Inr (le_bytes 2 (unat w))"
| "binary_Write (NUint16 w) = Inr (le_bytes 2 (unat w))"
| "binary_Write (NInt32 w) = Inr (le_bytes 4 (unat w))"
| "binary_Write (NUint32 w) = Inr (le_bytes 4 (unat w))"
| "binary_Write (NInt64 w) = Inr (le_bytes 8 (unat w))"
| "binary_Write (NUint64 w) = Inr (le_bytes 8 (unat w))"
| "binary_Write (NFloat32 w) = Inr (le_bytes 4 (unat w))"
| "binary_Write (NFloat64 w) = Inr (le_bytes 8 (unat w))"
| "binary_Write NOther = Inl (CustomError ''binary.Write: some values are not fixed-sized'')"

definition NewSerializer :: Serializer where
  "NewSerializer = \<lparr>s_buf = [], s_err = None\<rparr>"

definition Serialize :: "Serializer \<Rightarrow> seri_error + bytes" where
  "Serialize s = (case s_err s of Some e \<Rightarrow> Inl e | None \<Rightarrow> Inr (s_buf s))"

definition Ser_AbortIf :: "Serializer \<Rightarrow> ErrProducer \<Rightarrow> Serializer" where
  "Ser_AbortIf s errProducer =
     (if s_err s \<noteq> None then s
      else case errProducer None of Some e \<Rightarrow> s\<lparr>s_err := Some e\<rparr> | None \<Rightarrow> s)"

definition Ser_WithValidation :: "Serializer \<Rightarrow> mode \<Rightarrow> ErrProducerWithRWBytes \<Rightarrow> Serializer" where
  "Ser_WithValidation s deSeriMode errProducer =
     (if s_err s \<noteq> None then s
      else if \<not> DeSeri_HasMode deSeriMode DeSeriModePerformValidation then s
      else case errProducer (s_buf s) (s_err s) of Some e \<Rightarrow> s\<lparr>s_err := Some e\<rparr> | None \<Rightarrow> s)"

text \<open>\<^verbatim>\<open>Do\<close> runs a function on the caller's variables, here \<open>w\<close>.\<close>

definition Ser_Do :: "Serializer \<Rightarrow> ('w \<Rightarrow> 'w) \<Rightarrow> 'w \<Rightarrow> Serializer \<times> 'w" where
  "Ser_Do s f w = (if s_err s \<noteq> None then (s, w) else (s, f w))"

definition Written :: "Serializer \<Rightarrow> nat" where
  "Written s = length (s_buf s)"

definition buf_Write :: "bytes \<Rightarrow> Serializer \<Rightarrow> Serializer" where
  "buf_Write bs s = s\<lparr>s_buf := s_buf s @ bs\<rparr>"

definition WriteNum :: "Serializer \<Rightarrow> go_num \<Rightarrow> ErrProducer \<Rightarrow> Serializer" where
  "WriteNum s v errProducer =
     (if s_err s \<noteq> None then s
      else case binary_Write v of
        Inl e \<Rightarrow> s\<lparr>s_err := errProducer (Some e)\<rparr>
      | Inr bs \<Rightarrow> buf_Write bs s)"

text \<open>\<^verbatim>\<open>big.Int.Bytes\<close>: the big-endian bytes of the absolute value, without leading zeros.\<close>

fun nat_le_bytes :: "nat \<Rightarrow> bytes" where
  "nat_le_bytes n = (if n = 0 then [] else word_of_nat (n mod 256) # nat_le_bytes (n div 256))"

declare nat_le_bytes.simps [simp del]

definition big_Bytes :: "int \<Rightarrow> bytes" where
  "big_Bytes n = rev (nat_le_bytes (nat \<bar>n\<bar>))"

text \<open>The loop that swaps the outermost bytes until the indices meet.\<close>

function swap_loop :: "int \<Rightarrow> int \<Rightarrow> 'a list \<Rightarrow> 'a list" where
  "swap_loop i j xs =
     (if i < j then swap_loop (i + 1) (j - 1) (xs[nat i := xs ! nat j, nat j := xs ! nat i]) else xs)"
  by pat_completeness auto
termination
  by (relation "measure (\<lambda>(i, j, xs). nat (j - i))") auto

declare swap_loop.simps [simp del]

definition WriteUint256 :: "Serializer \<Rightarrow> int option \<Rightarrow> ErrProducer \<Rightarrow> Serializer" where
  "WriteUint256 s num errProducer =
     (if s_err s \<noteq> None then s
      else case num of None \<Rightarrow> s\<lparr>s_err := errProducer (Some ErrUint256Nil)\<rparr>
      | Some n \<Rightarrow>
          if n < 0 then s\<lparr>s_err := errProducer (Some ErrUint256NumNegative)\<rparr>
          else if length (big_Bytes n) > UInt256ByteSize then s\<lparr>s_err := errProducer (Some ErrUint256TooBig)\<rparr>
          else let
            numBytes = big_Bytes n;
            numBytes = swap_loop 0 (int (length numBytes) - 1) numBytes;
            padded = numBytes @ replicate (32 - length numBytes) 0
          in buf_Write padded s)"

definition WriteBool :: "Serializer \<Rightarrow> bool \<Rightarrow> Serializer" where
  "WriteBool s v = (if s_err s \<noteq> None then s else buf_Write [if v then 1 else 0] s)"

definition WriteByte :: "Serializer \<Rightarrow> byte \<Rightarrow> Serializer" where
  "WriteByte s dat = (if s_err s \<noteq> None then s else buf_Write [dat] s)"

definition WriteBytes :: "Serializer \<Rightarrow> bytes \<Rightarrow> Serializer" where
  "WriteBytes s dat = (if s_err s \<noteq> None then s else buf_Write dat s)"

fun writeSliceLength :: "Serializer \<Rightarrow> nat \<Rightarrow> SeriLengthPrefixType \<Rightarrow> ErrProducer \<Rightarrow> Serializer option" where
  "writeSliceLength s l lenType errProducer =
     (if s_err s \<noteq> None then Some s
      else case lenType of
        SeriLengthPrefixTypeAsByte \<Rightarrow>
          Some (if l > 255 then s\<lparr>s_err := errProducer (Some LengthOutOfRange)\<rparr>
                else buf_Write [word_of_nat l] s)
      | SeriLengthPrefixTypeAsUint16 \<Rightarrow>
          Some (if l > 65535 then s\<lparr>s_err := errProducer (Some LengthOutOfRange)\<rparr>
                else buf_Write (le_bytes 2 (unat (word_of_nat l :: u16))) s)
      | SeriLengthPrefixTypeAsUint32 \<Rightarrow>
          Some (if l > 4294967295 then s\<lparr>s_err := errProducer (Some LengthOutOfRange)\<rparr>
                else buf_Write (le_bytes 4 (unat (word_of_nat l :: u32))) s)
      | _ \<Rightarrow> None)"

definition WriteVariableByteSlice ::
  "Serializer \<Rightarrow> bytes \<Rightarrow> SeriLengthPrefixType \<Rightarrow> ErrProducer \<Rightarrow> int \<Rightarrow> int \<Rightarrow> Serializer option" where
  "WriteVariableByteSlice s dat lenType errProducer minLen maxLen =
     (if s_err s \<noteq> None then Some s
      else let sliceLen = int (length dat) in
        if maxLen > 0 \<and> sliceLen > maxLen then Some (s\<lparr>s_err := errProducer (Some ErrSliceLengthTooLong)\<rparr>)
        else if minLen > 0 \<and> sliceLen < minLen then Some (s\<lparr>s_err := errProducer (Some ErrSliceLengthTooShort)\<rparr>)
        else do {
          s \<leftarrow> writeSliceLength s (length dat) lenType errProducer;
          if s_err s \<noteq> None then Some s else Some (buf_Write dat s)
        })"

definition WriteString ::
  "Serializer \<Rightarrow> bytes \<Rightarrow> SeriLengthPrefixType \<Rightarrow> ErrProducer \<Rightarrow> int \<Rightarrow> int \<Rightarrow> Serializer option" where
  "WriteString s str lenType errProducer minLen maxLen =
     (if s_err s \<noteq> None then Some s
      else let strLen = int (length str) in
        if maxLen > 0 \<and> strLen > maxLen then Some (s\<lparr>s_err := errProducer (Some ErrStringTooLong)\<rparr>)
        else if minLen > 0 \<and> strLen < minLen then Some (s\<lparr>s_err := errProducer (Some ErrStringTooShort)\<rparr>)
        else do {
          s \<leftarrow> writeSliceLength s (length str) lenType errProducer;
          if s_err s \<noteq> None then Some s else Some (buf_Write str s)
        })"

text \<open>The loop over the elements: each is validated, if there are validators, and then written.\<close>

fun write_elements :: "validator list \<Rightarrow> nat \<Rightarrow> bytes list \<Rightarrow> ErrProducer \<Rightarrow> Serializer \<Rightarrow> Serializer option" where
  "write_elements vs i [] errProducer s = Some s"
| "write_elements vs i (ele # els) errProducer s =
     (case run_validators vs i ele of None \<Rightarrow> None
      | Some (Inl e) \<Rightarrow> Some (s\<lparr>s_err := errProducer (Some e)\<rparr>)
      | Some (Inr vs') \<Rightarrow> write_elements vs' (Suc i) els errProducer (buf_Write ele s))"

text \<open>The slice is sorted in place, so the caller's slice is returned too.\<close>

definition WriteSliceOfByteSlices ::
  "Serializer \<Rightarrow> bytes list \<Rightarrow> mode \<Rightarrow> SeriLengthPrefixType \<Rightarrow> 'o ArrayRules \<Rightarrow> ErrProducer
     \<Rightarrow> (Serializer \<times> bytes list) option" where
  "WriteSliceOfByteSlices s dat deSeriMode lenType sliceRules errProducer =
     (if s_err s \<noteq> None then Some (s, dat)
      else let validate = DeSeri_HasMode deSeriMode DeSeriModePerformValidation in
        case (if validate then CheckBounds sliceRules (length dat) else None) of
          Some e \<Rightarrow> Some (s\<lparr>s_err := errProducer (Some e)\<rparr>, dat)
        | None \<Rightarrow> do {
            let eleValFunc = (if validate then ElementValidationFunc sliceRules else []);
            s \<leftarrow> writeSliceLength s (length dat) lenType errProducer;
            if s_err s \<noteq> None then Some (s, dat)
            else do {
              let dat = (if DeSeri_HasMode deSeriMode DeSeriModePerformLexicalOrdering \<and>
                            ArrayValidation_HasMode (ValidationMode sliceRules) ArrayValidationModeLexicalOrdering
                         then sort dat else dat);
              s \<leftarrow> write_elements eleValFunc 0 dat errProducer s;
              Some (s, dat)
            }
          })"

text \<open>\<open>ser\<close> is the method \<^verbatim>\<open>Serialize\<close> of the written object.\<close>

type_synonym ('c, 'o) ser_method = "mode \<Rightarrow> 'c \<Rightarrow> 'o \<Rightarrow> seri_error + bytes"

fun serialize_objects ::
  "('c, 'o) ser_method \<Rightarrow> mode \<Rightarrow> 'c \<Rightarrow> ('o \<Rightarrow> seri_error option) option \<Rightarrow> 'o list \<Rightarrow> seri_error + bytes list" where
  "serialize_objects ser m ctx guard [] = Inr []"
| "serialize_objects ser m ctx guard (seri # seris) =
     (case (if DeSeri_HasMode m DeSeriModePerformValidation
            then (case guard of None \<Rightarrow> None | Some g \<Rightarrow> g seri) else None) of
        Some e \<Rightarrow> Inl e
      | None \<Rightarrow>
          (case ser m ctx seri of Inl e \<Rightarrow> Inl e
           | Inr b \<Rightarrow> (case serialize_objects ser m ctx guard seris of Inl e \<Rightarrow> Inl e | Inr bs \<Rightarrow> Inr (b # bs))))"

definition WriteSliceOfObjects ::
  "('c, 'o) ser_method \<Rightarrow> Serializer \<Rightarrow> 'o list \<Rightarrow> mode \<Rightarrow> 'c \<Rightarrow> SeriLengthPrefixType \<Rightarrow> 'o ArrayRules
     \<Rightarrow> ErrProducer \<Rightarrow> Serializer option" where
  "WriteSliceOfObjects ser s seris deSeriMode deSeriCtx lenType arrayRules errProducer =
     (if s_err s \<noteq> None then Some s
      else case serialize_objects ser deSeriMode deSeriCtx (WriteGuard arrayRules) seris of
        Inl e \<Rightarrow> Some (s\<lparr>s_err := errProducer (Some e)\<rparr>)
      | Inr dat \<Rightarrow> map_option fst (WriteSliceOfByteSlices s dat deSeriMode lenType arrayRules errProducer))"

text \<open>The guard of \<^verbatim>\<open>WriteObject\<close> is called without a check for nil.\<close>

definition WriteObject ::
  "('c, 'o) ser_method \<Rightarrow> Serializer \<Rightarrow> 'o \<Rightarrow> mode \<Rightarrow> 'c \<Rightarrow> ('o \<Rightarrow> seri_error option) option \<Rightarrow> ErrProducer
     \<Rightarrow> Serializer option" where
  "WriteObject ser s seri deSeriMode deSeriCtx guard errProducer =
     (if s_err s \<noteq> None then Some s
      else do {
        guardErr \<leftarrow> (if DeSeri_HasMode deSeriMode DeSeriModePerformValidation
                     then (case guard of None \<Rightarrow> None | Some g \<Rightarrow> Some (g seri)) else Some None);
        case guardErr of
          Some e \<Rightarrow> Some (s\<lparr>s_err := errProducer (Some e)\<rparr>)
        | None \<Rightarrow>
            Some (case ser deSeriMode deSeriCtx seri of
                Inl e \<Rightarrow> s\<lparr>s_err := errProducer (Some e)\<rparr>
              | Inr seriBytes \<Rightarrow> buf_Write seriBytes s)
      })"

text \<open>A time by its Unix seconds and the nanoseconds within the second. \<^verbatim>\<open>UnixNano\<close> wraps around at 64 bits.\<close>

record go_time =
  unix_sec :: int
  nsec :: int

definition UnixNano :: "go_time \<Rightarrow> int" where
  "UnixNano t = sint (word_of_int (unix_sec t * 1000000000 + nsec t) :: u64)"

definition TimeToUint64 :: "go_time \<Rightarrow> u64" where
  "TimeToUint64 value =
     (let unixSeconds = unix_sec value; unixNano = UnixNano value;
          unixNano = (if unixSeconds > MaxNanoTimestampInt64Seconds then 2 ^ 63 - 1
                      else if unixSeconds < 0 \<or> unixNano < 0 then 0
                      else unixNano)
      in word_of_int unixNano)"

definition WriteTime :: "Serializer \<Rightarrow> go_time \<Rightarrow> Serializer" where
  "WriteTime s timeToWrite =
     (if s_err s \<noteq> None then s else buf_Write (le_bytes 8 (unat (TimeToUint64 timeToWrite))) s)"

definition writePayloadLength :: "Serializer \<Rightarrow> nat \<Rightarrow> Serializer" where
  "writePayloadLength s len = buf_Write (le_bytes 4 (unat (word_of_nat len :: u32))) s"

definition WritePayloadLength :: "Serializer \<Rightarrow> nat \<Rightarrow> Serializer" where
  "WritePayloadLength s len = (if s_err s \<noteq> None then s else writePayloadLength s len)"

definition WritePayload ::
  "('c, 'o) ser_method \<Rightarrow> Serializer \<Rightarrow> 'o option \<Rightarrow> mode \<Rightarrow> 'c \<Rightarrow> ('o \<Rightarrow> seri_error option) option \<Rightarrow> ErrProducer
     \<Rightarrow> Serializer" where
  "WritePayload ser s payload deSeriMode deSeriCtx guard errProducer =
     (if s_err s \<noteq> None then s
      else case payload of
        None \<Rightarrow> writePayloadLength s 0
      | Some p \<Rightarrow>
          (case (case guard of None \<Rightarrow> None | Some g \<Rightarrow> g p) of
             Some e \<Rightarrow> s\<lparr>s_err := errProducer (Some e)\<rparr>
           | None \<Rightarrow>
               (case ser deSeriMode deSeriCtx p of
                  Inl e \<Rightarrow> s\<lparr>s_err := errProducer (Some e)\<rparr>
                | Inr payloadBytes \<Rightarrow> buf_Write payloadBytes (writePayloadLength s (length payloadBytes)))))"

end
