(* ===== verification/Byte_Deserializer.thy ===== *)
theory Byte_Deserializer
  imports Byte_Serializer
begin

text \<open>
  The \<^verbatim>\<open>Deserializer\<close> of \<^verbatim>\<open>serializer/serializer.go\<close>. A method that reads into a destination takes the
  value the destination holds before and returns the one it holds after. A result is \<^term>\<open>None\<close> where the
  source panics: a slice expression out of range, a negative length, an unknown type. The methods of
  \<^verbatim>\<open>Serializable\<close> are arguments.
\<close>

section \<open>Definitions\<close>

record Deserializer =
  d_src :: bytes
  d_offset :: int
  d_err :: "seri_error option"

type_synonym ErrProducerWithLeftOver = "int \<Rightarrow> seri_error option \<Rightarrow> seri_error option"

definition NewDeserializer :: "bytes \<Rightarrow> Deserializer" where
  "NewDeserializer src = \<lparr>d_src = src, d_offset = 0, d_err = None\<rparr>"

definition RemainingBytes :: "Deserializer \<Rightarrow> bytes option" where
  "RemainingBytes d = slice_from (d_src d) (d_offset d)"

definition advance :: "int \<Rightarrow> Deserializer \<Rightarrow> Deserializer" where
  "advance n d = d\<lparr>d_offset := d_offset d + n\<rparr>"

definition fail :: "ErrProducer \<Rightarrow> seri_error \<Rightarrow> Deserializer \<Rightarrow> Deserializer" where
  "fail errProducer e d = d\<lparr>d_err := errProducer (Some e)\<rparr>"

text \<open>The next \<open>n\<close> bytes, \<^verbatim>\<open>d.src[d.offset : d.offset+n]\<close>.\<close>

definition window :: "Deserializer \<Rightarrow> int \<Rightarrow> bytes option" where
  "window d n = slice_range (d_src d) (d_offset d) (d_offset d + n)"

definition Skip :: "Deserializer \<Rightarrow> int \<Rightarrow> ErrProducer \<Rightarrow> Deserializer option" where
  "Skip d skip errProducer =
     (if d_err d \<noteq> None then Some d
      else do {
        left \<leftarrow> RemainingBytes d;
        if int (length left) < skip then Some (fail errProducer ErrDeserializationNotEnoughData d)
        else Some (advance skip d)
      })"

definition ReadBool :: "Deserializer \<Rightarrow> bool \<Rightarrow> ErrProducer \<Rightarrow> (Deserializer \<times> bool) option" where
  "ReadBool d dest errProducer =
     (if d_err d \<noteq> None then Some (d, dest)
      else do {
        left \<leftarrow> RemainingBytes d;
        if length left = 0 then Some (fail errProducer ErrDeserializationNotEnoughData d, dest)
        else do {
          w \<leftarrow> window d 1;
          b \<leftarrow> slice_index w 0;
          if b = 0 then Some (advance (int OneByte) d, False)
          else if b = 1 then Some (advance (int OneByte) d, True)
          else Some (fail errProducer ErrDeserializationInvalidBoolValue d, dest)
        }
      })"

definition ReadByte :: "Deserializer \<Rightarrow> byte \<Rightarrow> ErrProducer \<Rightarrow> (Deserializer \<times> byte) option" where
  "ReadByte d dest errProducer =
     (if d_err d \<noteq> None then Some (d, dest)
      else do {
        left \<leftarrow> RemainingBytes d;
        if length left = 0 then Some (fail errProducer ErrDeserializationNotEnoughData d, dest)
        else do {
          w \<leftarrow> window d 1;
          b \<leftarrow> slice_index w 0;
          Some (advance (int OneByte) d, b)
        }
      })"

definition ReadUint256 :: "Deserializer \<Rightarrow> int \<Rightarrow> ErrProducer \<Rightarrow> (Deserializer \<times> int) option" where
  "ReadUint256 d dest errProducer =
     (if d_err d \<noteq> None then Some (d, dest)
      else do {
        left \<leftarrow> RemainingBytes d;
        if length left < UInt256ByteSize then Some (fail errProducer ErrDeserializationNotEnoughData d, dest)
        else do {
          w \<leftarrow> window d (int UInt256ByteSize);
          let source = go_copy (replicate UInt256ByteSize 0) w;
          let d = advance (int UInt256ByteSize) d;
          let source = swap_loop 0 (int (length source) - 1) source;
          Some (d, int (be_val source))
        }
      })"

text \<open>The type of the destination of \<^verbatim>\<open>ReadNum\<close>.\<close>

datatype num_type =
    TBool | TInt8 | TUint8 | TInt16 | TUint16 | TInt32 | TUint32 | TInt64 | TUint64 | TFloat32 | TFloat64 | TOther

fun numSize :: "num_type \<Rightarrow> nat option" where
  "numSize TBool = Some 1"
| "numSize TInt8 = Some 1"
| "numSize TUint8 = Some 1"
| "numSize TInt16 = Some 2"
| "numSize TUint16 = Some 2"
| "numSize TInt32 = Some 4"
| "numSize TUint32 = Some 4"
| "numSize TInt64 = Some 8"
| "numSize TUint64 = Some 8"
| "numSize TFloat32 = Some 4"
| "numSize TFloat64 = Some 8"
| "numSize TOther = None"

fun decode_num :: "num_type \<Rightarrow> bytes \<Rightarrow> go_num option" where
  "decode_num TInt8 dat = Some (NInt8 (word_of_nat (le_val dat)))"
| "decode_num TUint8 dat = Some (NUint8 (word_of_nat (le_val dat)))"
| "decode_num TInt16 dat = Some (NInt16 (word_of_nat (le_val dat)))"
| "decode_num TUint16 dat = Some (NUint16 (word_of_nat (le_val dat)))"
| "decode_num TInt32 dat = Some (NInt32 (word_of_nat (le_val dat)))"
| "decode_num TUint32 dat = Some (NUint32 (word_of_nat (le_val dat)))"
| "decode_num TInt64 dat = Some (NInt64 (word_of_nat (le_val dat)))"
| "decode_num TUint64 dat = Some (NUint64 (word_of_nat (le_val dat)))"
| "decode_num TFloat32 dat = Some (NFloat32 (word_of_nat (le_val dat)))"
| "decode_num TFloat64 dat = Some (NFloat64 (word_of_nat (le_val dat)))"
| "decode_num _ dat = None"

definition ReadNum :: "Deserializer \<Rightarrow> num_type \<Rightarrow> go_num \<Rightarrow> ErrProducer \<Rightarrow> (Deserializer \<times> go_num) option" where
  "ReadNum d ty dest errProducer =
     (if d_err d \<noteq> None then Some (d, dest)
      else do {
        left \<leftarrow> RemainingBytes d;
        dataSize \<leftarrow> numSize ty;
        if length left < dataSize then Some (fail errProducer ErrDeserializationNotEnoughData d, dest)
        else do {
          dat \<leftarrow> window d (int dataSize);
          x \<leftarrow> decode_num ty dat;
          Some (advance (int dataSize) d, x)
        }
      })"

definition ReadBytes :: "Deserializer \<Rightarrow> bytes \<Rightarrow> int \<Rightarrow> ErrProducer \<Rightarrow> (Deserializer \<times> bytes) option" where
  "ReadBytes d dst numBytes errProducer =
     (if d_err d \<noteq> None then Some (d, dst)
      else do {
        left \<leftarrow> RemainingBytes d;
        if int (length left) < numBytes then Some (fail errProducer ErrDeserializationNotEnoughData d, dst)
        else do {
          dest \<leftarrow> go_make 0 numBytes;
          w \<leftarrow> window d numBytes;
          Some (advance numBytes d, go_copy dest w)
        }
      })"

definition ReadBytesInPlace :: "Deserializer \<Rightarrow> bytes \<Rightarrow> ErrProducer \<Rightarrow> (Deserializer \<times> bytes) option" where
  "ReadBytesInPlace d dst errProducer =
     (if d_err d \<noteq> None then Some (d, dst)
      else do {
        let numBytes = int (length dst);
        left \<leftarrow> RemainingBytes d;
        if int (length left) < numBytes then Some (fail errProducer ErrDeserializationNotEnoughData d, dst)
        else do {
          w \<leftarrow> window d numBytes;
          Some (advance numBytes d, go_copy dst w)
        }
      })"

text \<open>The length prefix: the deserializer, the length and the error, which the producer may turn into nil.\<close>

definition readSliceLength ::
  "Deserializer \<Rightarrow> SeriLengthPrefixType \<Rightarrow> ErrProducer \<Rightarrow> (Deserializer \<times> nat \<times> seri_error option) option" where
  "readSliceLength d lenType errProducer = do {
     left \<leftarrow> RemainingBytes d;
     size \<leftarrow> (case lenType of
         SeriLengthPrefixTypeAsByte \<Rightarrow> Some OneByte
       | SeriLengthPrefixTypeAsUint16 \<Rightarrow> Some UInt16ByteSize
       | SeriLengthPrefixTypeAsUint32 \<Rightarrow> Some UInt32ByteSize
       | _ \<Rightarrow> None);
     if length left < size then Some (d, 0, errProducer (Some ErrDeserializationNotEnoughData))
     else do {
       w \<leftarrow> window d (int size);
       Some (advance (int size) d, le_val w, None)
     }
   }"

text \<open>The bounds of the denoted length set the error, and reading goes on.\<close>

definition checkDenotedLength :: "Deserializer \<Rightarrow> nat \<Rightarrow> ErrProducer \<Rightarrow> int \<Rightarrow> int \<Rightarrow> Deserializer" where
  "checkDenotedLength d len errProducer minLen maxLen =
     (if maxLen > 0 \<and> int len > maxLen then fail errProducer ErrDeserializationLengthMaxExceeded d
      else if minLen > 0 \<and> int len < minLen then fail errProducer ErrDeserializationLengthMinNotReached d
      else d)"

definition ReadVariableByteSlice ::
  "Deserializer \<Rightarrow> bytes \<Rightarrow> SeriLengthPrefixType \<Rightarrow> ErrProducer \<Rightarrow> int \<Rightarrow> int \<Rightarrow> (Deserializer \<times> bytes) option" where
  "ReadVariableByteSlice d dst lenType errProducer minLen maxLen =
     (if d_err d \<noteq> None then Some (d, dst)
      else do {
        (d, sliceLength, err) \<leftarrow> readSliceLength d lenType errProducer;
        if err \<noteq> None then Some (d\<lparr>d_err := err\<rparr>, dst)
        else do {
          let d = checkDenotedLength d sliceLength errProducer minLen maxLen;
          let dest = replicate sliceLength 0;
          if sliceLength = 0 then Some (d, dest)
          else do {
            left \<leftarrow> RemainingBytes d;
            if length left < sliceLength then Some (fail errProducer ErrDeserializationNotEnoughData d, dst)
            else do {
              w \<leftarrow> window d (int sliceLength);
              Some (advance (int sliceLength) d, go_copy dest w)
            }
          }
        }
      })"

definition ReadString ::
  "Deserializer \<Rightarrow> bytes \<Rightarrow> SeriLengthPrefixType \<Rightarrow> ErrProducer \<Rightarrow> int \<Rightarrow> int \<Rightarrow> (Deserializer \<times> bytes) option" where
  "ReadString d s lenType errProducer minLen maxLen =
     (if d_err d \<noteq> None then Some (d, s)
      else do {
        (d, strLen, err) \<leftarrow> readSliceLength d lenType errProducer;
        if err \<noteq> None then Some (d\<lparr>d_err := err\<rparr>, s)
        else do {
          let d = checkDenotedLength d strLen errProducer minLen maxLen;
          left \<leftarrow> RemainingBytes d;
          if length left < strLen then Some (fail errProducer ErrDeserializationNotEnoughData d, s)
          else do {
            w \<leftarrow> window d (int strLen);
            Some (advance (int strLen) d, w)
          }
        }
      })"

definition time_Unix :: "int \<Rightarrow> go_time" where
  "time_Unix n = \<lparr>unix_sec = n div 1000000000, nsec = n mod 1000000000\<rparr>"

definition ReadTime :: "Deserializer \<Rightarrow> go_time \<Rightarrow> ErrProducer \<Rightarrow> (Deserializer \<times> go_time) option" where
  "ReadTime d dest errProducer =
     (if d_err d \<noteq> None then Some (d, dest)
      else do {
        left \<leftarrow> RemainingBytes d;
        if length left < UInt64ByteSize then Some (fail errProducer ErrDeserializationNotEnoughData d, dest)
        else do {
          w \<leftarrow> window d (int UInt64ByteSize);
          let nanoseconds = (word_of_nat (le_val w) :: u64);
          let nanoseconds =
            (if int (unat nanoseconds div 1000000000) > MaxNanoTimestampInt64Seconds then 2 ^ 63 - 1 else nanoseconds);
          Some (advance (int UInt64ByteSize) d, time_Unix (sint nanoseconds))
        }
      })"

definition GetObjectType :: "Deserializer \<Rightarrow> TypeDenotationType \<Rightarrow> (seri_error + u32) option" where
  "GetObjectType d typeDen = do {
     left \<leftarrow> RemainingBytes d;
     case typeDen of
       TypeDenotationUint32 \<Rightarrow>
         Some (if length left < UInt32ByteSize then Inl ErrDeserializationNotEnoughData
               else Inr (word_of_nat (le_val (take 4 left))))
     | TypeDenotationByte \<Rightarrow>
         Some (case left of [] \<Rightarrow> Inl ErrDeserializationNotEnoughData | b # _ \<Rightarrow> Inr (ucast b))
     | TypeDenotationNone \<Rightarrow> Some (Inr 0)
   }"

text \<open>\<open>deser\<close> is the method \<^verbatim>\<open>Deserialize\<close>: the filled object and the number of bytes it consumed.\<close>

type_synonym ('c, 'o) deser_method = "mode \<Rightarrow> 'c \<Rightarrow> 'o \<Rightarrow> bytes \<Rightarrow> seri_error + ('o \<times> int)"

definition readObject ::
  "('c, 'o) deser_method \<Rightarrow> Deserializer \<Rightarrow> 'o option \<Rightarrow> mode \<Rightarrow> 'c \<Rightarrow> TypeDenotationType
     \<Rightarrow> (u32 \<Rightarrow> seri_error + 'o) \<Rightarrow> ErrProducer \<Rightarrow> (Deserializer \<times> u32 \<times> 'o option) option" where
  "readObject deser d target deSeriMode deSeriCtx typeDen serSel errProducer =
     (if d_err d \<noteq> None then Some (d, 0, target)
      else do {
        r \<leftarrow> GetObjectType d typeDen;
        case r of Inl e \<Rightarrow> Some (fail errProducer e d, 0, target)
        | Inr ty \<Rightarrow>
            (case serSel ty of Inl e \<Rightarrow> Some (fail errProducer e d, 0, target)
             | Inr seri \<Rightarrow> do {
                 left \<leftarrow> RemainingBytes d;
                 case deser deSeriMode deSeriCtx seri left of
                   Inl e \<Rightarrow> Some (fail errProducer e d, 0, target)
                 | Inr (seri', bytesConsumed) \<Rightarrow> Some (advance bytesConsumed d, ty, Some seri')
               })
      })"

definition ReadObject ::
  "('c, 'o) deser_method \<Rightarrow> Deserializer \<Rightarrow> 'o option \<Rightarrow> mode \<Rightarrow> 'c \<Rightarrow> TypeDenotationType
     \<Rightarrow> (u32 \<Rightarrow> seri_error + 'o) \<Rightarrow> ErrProducer \<Rightarrow> (Deserializer \<times> 'o option) option" where
  "ReadObject deser d target deSeriMode deSeriCtx typeDen serSel errProducer =
     map_option (\<lambda>(d, ty, target). (d, target))
       (readObject deser d target deSeriMode deSeriCtx typeDen serSel errProducer)"

definition Done :: "Deserializer \<Rightarrow> int \<times> seri_error option" where
  "Done d = (d_offset d, d_err d)"

text \<open>\<open>item\<close> is the \<^verbatim>\<open>DeserializeFunc\<close> closure: it maps its variables and the bytes to its variables after the
  call and the error or the number of bytes read.\<close>

type_synonym 'st DeserializeFunc = "'st \<Rightarrow> bytes \<Rightarrow> ('st \<times> (seri_error + int)) option"

fun sequence_loop ::
  "'st DeserializeFunc \<Rightarrow> ErrProducer \<Rightarrow> nat \<Rightarrow> nat \<Rightarrow> validator list \<Rightarrow> 'st \<Rightarrow> Deserializer
     \<Rightarrow> ('st \<times> Deserializer) option" where
  "sequence_loop item errProducer 0 i vs st d = Some (st, d)"
| "sequence_loop item errProducer (Suc n) i vs st d = do {
     srcBefore \<leftarrow> RemainingBytes d;
     (st, r) \<leftarrow> item st srcBefore;
     case r of Inl e \<Rightarrow> Some (st, fail errProducer e d)
     | Inr bytesRead \<Rightarrow> do {
         let d = advance bytesRead d;
         case vs of [] \<Rightarrow> sequence_loop item errProducer n (Suc i) vs st d
         | _ \<Rightarrow> do {
             ele \<leftarrow> slice_range srcBefore 0 bytesRead;
             v \<leftarrow> run_validators vs i ele;
             case v of Inl e \<Rightarrow> Some (st, fail errProducer e d)
             | Inr vs' \<Rightarrow> sequence_loop item errProducer n (Suc i) vs' st d
           }
       }
   }"

definition ReadSequenceOfObjects ::
  "'st DeserializeFunc \<Rightarrow> Deserializer \<Rightarrow> 'st \<Rightarrow> mode \<Rightarrow> SeriLengthPrefixType \<Rightarrow> 'o ArrayRules \<Rightarrow> ErrProducer
     \<Rightarrow> ('st \<times> Deserializer) option" where
  "ReadSequenceOfObjects item d st deSeriMode lenType arrayRules errProducer =
     (if d_err d \<noteq> None then Some (st, d)
      else do {
        (d, sliceLength, err) \<leftarrow> readSliceLength d lenType errProducer;
        if err \<noteq> None then Some (st, d\<lparr>d_err := err\<rparr>)
        else let validate = DeSeri_HasMode deSeriMode DeSeriModePerformValidation in
          case (if validate then CheckBounds arrayRules sliceLength else None) of
            Some e \<Rightarrow> Some (st, fail errProducer e d)
          | None \<Rightarrow>
              if sliceLength = 0 then Some (st, d)
              else sequence_loop item errProducer sliceLength 0
                     (if validate then ElementValidationFunc arrayRules else []) st d
      })"

text \<open>The closure of \<^verbatim>\<open>ReadSliceOfObjects\<close> collects the objects and the types it has seen;
  an object is nil when the error producer turned an error of the object into nil.\<close>

definition deserializeItem ::
  "('c, 'o) deser_method \<Rightarrow> mode \<Rightarrow> 'c \<Rightarrow> TypeDenotationType \<Rightarrow> 'o ArrayRules \<Rightarrow> ErrProducer
     \<Rightarrow> ('o option list \<times> u32 set) DeserializeFunc" where
  "deserializeItem deser deSeriMode deSeriCtx typeDen arrayRules errProducer st b = do {
     let (seris, seenTypes) = st;
     (subDeseri, ty, seri) \<leftarrow>
       readObject deser (NewDeserializer b) None deSeriMode deSeriCtx typeDen (ReadGuard arrayRules) errProducer;
     let (bytesRead, err) = Done subDeseri;
     case err of Some e \<Rightarrow> Some (st, Inl e)
     | None \<Rightarrow>
         if DeSeri_HasMode deSeriMode DeSeriModePerformValidation then
           (let seenTypes = insert ty seenTypes in
            case (case PostReadGuard arrayRules of None \<Rightarrow> None | Some g \<Rightarrow> g seri) of
              Some e \<Rightarrow> Some ((seris, seenTypes), Inl e)
            | None \<Rightarrow> Some ((seris @ [seri], seenTypes), Inr bytesRead))
         else Some ((seris @ [seri], seenTypes), Inr bytesRead)
   }"

definition ReadSliceOfObjects ::
  "('c, 'o) deser_method \<Rightarrow> Deserializer \<Rightarrow> 'o option list option \<Rightarrow> mode \<Rightarrow> 'c \<Rightarrow> SeriLengthPrefixType
     \<Rightarrow> TypeDenotationType \<Rightarrow> 'o ArrayRules \<Rightarrow> ErrProducer \<Rightarrow> (Deserializer \<times> 'o option list option) option" where
  "ReadSliceOfObjects deser d target deSeriMode deSeriCtx lenType typeDen arrayRules errProducer =
     (if d_err d \<noteq> None then Some (d, target)
      else do {
        ((seris, seenTypes), d) \<leftarrow>
          ReadSequenceOfObjects (deserializeItem deser deSeriMode deSeriCtx typeDen arrayRules errProducer)
            d ([], {}) deSeriMode lenType arrayRules errProducer;
        if d_err d \<noteq> None then Some (d, target)
        else if DeSeri_HasMode deSeriMode DeSeriModePerformValidation \<and>
                \<not> TypePrefixes_Subset (MustOccur arrayRules) seenTypes
        then Some (fail errProducer ErrArrayValidationTypesNotOccurred d, target)
        else if seris = [] then Some (d, target)
        else Some (d, Some seris)
      })"

definition ReadPayloadLength :: "Deserializer \<Rightarrow> (Deserializer \<times> (seri_error + u32)) option" where
  "ReadPayloadLength d = do {
     left \<leftarrow> RemainingBytes d;
     if length left < PayloadLengthByteSize then Some (d, Inl ErrDeserializationNotEnoughData)
     else Some (advance (int PayloadLengthByteSize) d, Inr (word_of_nat (le_val (take 4 left))))
   }"

definition ReadPayload ::
  "('c, 'o) deser_method \<Rightarrow> Deserializer \<Rightarrow> 'o option \<Rightarrow> mode \<Rightarrow> 'c \<Rightarrow> (u32 \<Rightarrow> seri_error + 'o) \<Rightarrow> ErrProducer
     \<Rightarrow> (Deserializer \<times> 'o option) option" where
  "ReadPayload deser d target deSeriMode deSeriCtx sel errProducer =
     (if d_err d \<noteq> None then Some (d, target)
      else do {
        (d, r) \<leftarrow> ReadPayloadLength d;
        case r of Inl e \<Rightarrow> Some (fail errProducer e d, target)
        | Inr payloadLength \<Rightarrow>
            if payloadLength = 0 then Some (d, target)
            else do {
              left \<leftarrow> RemainingBytes d;
              if length left < MinPayloadByteSize then Some (fail errProducer ErrDeserializationNotEnoughData d, target)
              else if length left < unat payloadLength then Some (fail errProducer ErrDeserializationNotEnoughData d, target)
              else case sel (word_of_nat (le_val (take 4 left))) of
                Inl e \<Rightarrow> Some (fail errProducer e d, target)
              | Inr payload \<Rightarrow>
                  (case deser deSeriMode deSeriCtx payload left of
                     Inl e \<Rightarrow> Some (fail errProducer e d, target)
                   | Inr (payload, payloadBytesConsumed) \<Rightarrow>
                       if payloadBytesConsumed \<noteq> int (unat payloadLength)
                       then Some (fail errProducer ErrInvalidBytes d, target)
                       else Some (advance payloadBytesConsumed d, Some payload))
            }
      })"

definition Des_AbortIf :: "Deserializer \<Rightarrow> ErrProducer \<Rightarrow> Deserializer" where
  "Des_AbortIf d errProducer =
     (if d_err d \<noteq> None then d
      else case errProducer None of Some e \<Rightarrow> d\<lparr>d_err := Some e\<rparr> | None \<Rightarrow> d)"

definition Des_WithValidation :: "Deserializer \<Rightarrow> mode \<Rightarrow> ErrProducerWithRWBytes \<Rightarrow> Deserializer option" where
  "Des_WithValidation d deSeriMode errProducer =
     (if d_err d \<noteq> None then Some d
      else if \<not> DeSeri_HasMode deSeriMode DeSeriModePerformValidation then Some d
      else do {
        read \<leftarrow> slice_range (d_src d) 0 (d_offset d);
        case errProducer read (d_err d) of Some e \<Rightarrow> Some (d\<lparr>d_err := Some e\<rparr>) | None \<Rightarrow> Some d
      })"

definition CheckTypePrefix :: "Deserializer \<Rightarrow> u32 \<Rightarrow> TypeDenotationType \<Rightarrow> ErrProducer \<Rightarrow> Deserializer option" where
  "CheckTypePrefix d prefix prefixType errProducer =
     (if d_err d \<noteq> None then Some d
      else do {
        (err, toSkip) \<leftarrow> (case prefixType of
            TypeDenotationUint32 \<Rightarrow> do {
              left \<leftarrow> RemainingBytes d;
              Some (CheckType left prefix, UInt32ByteSize)
            }
          | TypeDenotationByte \<Rightarrow> do {
              left \<leftarrow> RemainingBytes d;
              Some (CheckTypeByte left (ucast prefix), OneByte)
            }
          | TypeDenotationNone \<Rightarrow> None);
        case err of Some e \<Rightarrow> Some (fail errProducer e d)
        | None \<Rightarrow> Skip d (int toSkip) id
      })"

definition Des_Do :: "Deserializer \<Rightarrow> ('w \<Rightarrow> 'w) \<Rightarrow> 'w \<Rightarrow> Deserializer \<times> 'w" where
  "Des_Do d f w = (if d_err d \<noteq> None then (d, w) else (d, f w))"

definition ConsumedAll :: "Deserializer \<Rightarrow> ErrProducerWithLeftOver \<Rightarrow> Deserializer option" where
  "ConsumedAll d errProducer =
     (if d_err d \<noteq> None then Some d
      else if int (length (d_src d)) \<noteq> d_offset d then do {
        left \<leftarrow> RemainingBytes d;
        Some (d\<lparr>d_err := errProducer (int (length left)) (Some ErrDeserializationNotAllConsumed)\<rparr>)
      }
      else Some d)"

end
