(* ===== verification/Seri_Codec.thy ===== *)
theory Seri_Codec
  imports Byte_Deserializer
begin

text \<open>
  The contract between the \<^verbatim>\<open>Serializer\<close> and the \<^verbatim>\<open>Deserializer\<close>. The locale \<open>seri_codec\<close> states it for one
  pair of a writing and a reading method; its lemmas chain any number of values. The pairs of the source
  are collected in one type of fields, on which the locale is interpreted, so that a whole message of fields
  of mixed types makes the round trip. Arrays of objects follow.
\<close>

section \<open>Definitions\<close>

text \<open>The deserializer has no error and stands before the bytes \<open>bs\<close>, having read \<open>pre\<close>.\<close>

definition standing :: "Deserializer \<Rightarrow> bytes \<Rightarrow> bytes \<Rightarrow> bool" where
  "standing d pre bs \<longleftrightarrow> d_err d = None \<and> d_src d = pre @ bs \<and> d_offset d = int (length pre)"

text \<open>Method chains: \<^verbatim>\<open>s.WriteA(...).WriteB(...)\<close> and \<^verbatim>\<open>d.ReadA(...).ReadB(...)\<close>.\<close>

fun write_chain :: "(Serializer \<Rightarrow> 'v \<Rightarrow> Serializer option) \<Rightarrow> 'v list \<Rightarrow> Serializer \<Rightarrow> Serializer option" where
  "write_chain wr [] s = Some s"
| "write_chain wr (v # vs) s = do { s \<leftarrow> wr s v; write_chain wr vs s }"

fun read_chain ::
  "('sh \<Rightarrow> Deserializer \<Rightarrow> (Deserializer \<times> 'v) option) \<Rightarrow> 'sh list \<Rightarrow> Deserializer \<Rightarrow> (Deserializer \<times> 'v list) option" where
  "read_chain rd [] d = Some (d, [])"
| "read_chain rd (sh # shs) d = do {
     (d, v) \<leftarrow> rd sh d;
     (d, vs) \<leftarrow> read_chain rd shs d;
     Some (d, v # vs)
   }"

datatype field =
    FBool bool
  | FByte byte
  | FNum go_num
  | FUint256 int
  | FBytes bytes
  | FVariable SeriLengthPrefixType int int bytes
  | FString SeriLengthPrefixType int int bytes
  | FTime go_time

datatype field_shape =
    ShBool
  | ShByte
  | ShNum num_type
  | ShUint256
  | ShBytes nat
  | ShVariable SeriLengthPrefixType int int
  | ShString SeriLengthPrefixType int int
  | ShTime

fun num_type_of :: "go_num \<Rightarrow> num_type" where
  "num_type_of (NBool b) = TBool"
| "num_type_of (NInt8 w) = TInt8"
| "num_type_of (NUint8 w) = TUint8"
| "num_type_of (NInt16 w) = TInt16"
| "num_type_of (NUint16 w) = TUint16"
| "num_type_of (NInt32 w) = TInt32"
| "num_type_of (NUint32 w) = TUint32"
| "num_type_of (NInt64 w) = TInt64"
| "num_type_of (NUint64 w) = TUint64"
| "num_type_of (NFloat32 w) = TFloat32"
| "num_type_of (NFloat64 w) = TFloat64"
| "num_type_of NOther = TOther"

fun shape_of :: "field \<Rightarrow> field_shape" where
  "shape_of (FBool b) = ShBool"
| "shape_of (FByte b) = ShByte"
| "shape_of (FNum n) = ShNum (num_type_of n)"
| "shape_of (FUint256 n) = ShUint256"
| "shape_of (FBytes bs) = ShBytes (length bs)"
| "shape_of (FVariable lt mn mx bs) = ShVariable lt mn mx"
| "shape_of (FString lt mn mx bs) = ShString lt mn mx"
| "shape_of (FTime t) = ShTime"

fun write_field :: "ErrProducer \<Rightarrow> Serializer \<Rightarrow> field \<Rightarrow> Serializer option" where
  "write_field ep s (FBool b) = Some (WriteBool s b)"
| "write_field ep s (FByte b) = Some (WriteByte s b)"
| "write_field ep s (FNum n) = Some (WriteNum s n ep)"
| "write_field ep s (FUint256 n) = Some (WriteUint256 s (Some n) ep)"
| "write_field ep s (FBytes bs) = Some (WriteBytes s bs)"
| "write_field ep s (FVariable lt mn mx bs) = WriteVariableByteSlice s bs lt ep mn mx"
| "write_field ep s (FString lt mn mx bs) = WriteString s bs lt ep mn mx"
| "write_field ep s (FTime t) = Some (WriteTime s t)"

fun read_field :: "ErrProducer \<Rightarrow> field_shape \<Rightarrow> Deserializer \<Rightarrow> (Deserializer \<times> field) option" where
  "read_field ep ShBool d = map_option (map_prod id FBool) (ReadBool d False ep)"
| "read_field ep ShByte d = map_option (map_prod id FByte) (ReadByte d 0 ep)"
| "read_field ep (ShNum ty) d = map_option (map_prod id FNum) (ReadNum d ty NOther ep)"
| "read_field ep ShUint256 d = map_option (map_prod id FUint256) (ReadUint256 d 0 ep)"
| "read_field ep (ShBytes n) d = map_option (map_prod id FBytes) (ReadBytes d [] (int n) ep)"
| "read_field ep (ShVariable lt mn mx) d =
     map_option (map_prod id (FVariable lt mn mx)) (ReadVariableByteSlice d [] lt ep mn mx)"
| "read_field ep (ShString lt mn mx) d =
     map_option (map_prod id (FString lt mn mx)) (ReadString d [] lt ep mn mx)"
| "read_field ep ShTime d =
     map_option (map_prod id FTime) (ReadTime d \<lparr>unix_sec = 0, nsec = 0\<rparr> ep)"

text \<open>The bytes of a field, and the fields that can be written and read back.\<close>

fun prefix_size :: "SeriLengthPrefixType \<Rightarrow> nat" where
  "prefix_size SeriLengthPrefixTypeAsByte = 1"
| "prefix_size SeriLengthPrefixTypeAsUint16 = 2"
| "prefix_size SeriLengthPrefixTypeAsUint32 = 4"
| "prefix_size _ = 0"

definition length_fits :: "SeriLengthPrefixType \<Rightarrow> nat \<Rightarrow> bool" where
  "length_fits lt n \<longleftrightarrow> prefix_size lt \<noteq> 0 \<and> n < 256 ^ prefix_size lt"

definition within :: "int \<Rightarrow> int \<Rightarrow> nat \<Rightarrow> bool" where
  "within mn mx n \<longleftrightarrow> \<not> (mx > 0 \<and> int n > mx) \<and> \<not> (mn > 0 \<and> int n < mn)"

definition nanos :: "go_time \<Rightarrow> int" where
  "nanos t = unix_sec t * 1000000000 + nsec t"

definition time_ok :: "go_time \<Rightarrow> bool" where
  "time_ok t \<longleftrightarrow> 0 \<le> unix_sec t \<and> 0 \<le> nsec t \<and> nsec t < 1000000000 \<and> nanos t < 2 ^ 63"

fun enc_num :: "go_num \<Rightarrow> bytes" where
  "enc_num n = (case binary_Write n of Inr bs \<Rightarrow> bs | Inl e \<Rightarrow> [])"

fun enc_field :: "field \<Rightarrow> bytes" where
  "enc_field (FBool b) = [if b then 1 else 0]"
| "enc_field (FByte b) = [b]"
| "enc_field (FNum n) = enc_num n"
| "enc_field (FUint256 n) = le_bytes 32 (nat n)"
| "enc_field (FBytes bs) = bs"
| "enc_field (FVariable lt mn mx bs) = le_bytes (prefix_size lt) (length bs) @ bs"
| "enc_field (FString lt mn mx bs) = le_bytes (prefix_size lt) (length bs) @ bs"
| "enc_field (FTime t) = le_bytes 8 (nat (nanos t))"

fun num_ok :: "go_num \<Rightarrow> bool" where
  "num_ok (NBool b) \<longleftrightarrow> False"
| "num_ok NOther \<longleftrightarrow> False"
| "num_ok _ \<longleftrightarrow> True"

fun field_ok :: "field \<Rightarrow> bool" where
  "field_ok (FNum n) \<longleftrightarrow> num_ok n"
| "field_ok (FUint256 n) \<longleftrightarrow> 0 \<le> n \<and> n < 2 ^ 256"
| "field_ok (FVariable lt mn mx bs) \<longleftrightarrow> length_fits lt (length bs) \<and> within mn mx (length bs)"
| "field_ok (FString lt mn mx bs) \<longleftrightarrow> length_fits lt (length bs) \<and> within mn mx (length bs)"
| "field_ok (FTime t) \<longleftrightarrow> time_ok t"
| "field_ok _ \<longleftrightarrow> True"

text \<open>The error a field is refused with by the serializer, whose length prefix type is supported.\<close>

definition prefix_error :: "seri_error \<Rightarrow> seri_error \<Rightarrow> SeriLengthPrefixType \<Rightarrow> int \<Rightarrow> int \<Rightarrow> nat \<Rightarrow> seri_error option" where
  "prefix_error long short lt mn mx n =
     (if mx > 0 \<and> int n > mx then Some long
      else if mn > 0 \<and> int n < mn then Some short
      else if \<not> length_fits lt n then Some LengthOutOfRange else None)"

fun write_error :: "field \<Rightarrow> seri_error option" where
  "write_error (FNum n) = (case binary_Write n of Inl e \<Rightarrow> Some e | Inr bs \<Rightarrow> None)"
| "write_error (FUint256 n) =
     (if n < 0 then Some ErrUint256NumNegative else if n \<ge> 2 ^ 256 then Some ErrUint256TooBig else None)"
| "write_error (FVariable lt mn mx bs) = prefix_error ErrSliceLengthTooLong ErrSliceLengthTooShort lt mn mx (length bs)"
| "write_error (FString lt mn mx bs) = prefix_error ErrStringTooLong ErrStringTooShort lt mn mx (length bs)"
| "write_error _ = None"

fun first_error :: "field list \<Rightarrow> seri_error option" where
  "first_error [] = None"
| "first_error (v # vs) = (case write_error v of Some e \<Rightarrow> Some e | None \<Rightarrow> first_error vs)"

definition in_range :: "Deserializer \<Rightarrow> bool" where
  "in_range d \<longleftrightarrow> 0 \<le> d_offset d \<and> d_offset d \<le> int (length (d_src d))"

fun readable :: "field_shape \<Rightarrow> bool" where
  "readable (ShNum ty) \<longleftrightarrow> ty \<noteq> TBool \<and> ty \<noteq> TOther"
| "readable (ShVariable lt mn mx) \<longleftrightarrow> prefix_size lt \<noteq> 0"
| "readable (ShString lt mn mx) \<longleftrightarrow> prefix_size lt \<noteq> 0"
| "readable _ \<longleftrightarrow> True"

text \<open>What a call may do to a deserializer without error that stands before \<open>bs\<close>: it fails, or it takes the
  encoding of the value off \<open>bs\<close>. Times are not canonical: every one of the 64-bit numbers is accepted.\<close>

definition reads :: "field_shape \<Rightarrow> Deserializer \<Rightarrow> bytes \<Rightarrow> Deserializer \<times> field \<Rightarrow> bool" where
  "reads sh d bs r = (case r of (d', v) \<Rightarrow>
     d_src d' = d_src d \<and> in_range d' \<and>
     (d_err d' = None \<longrightarrow> sh \<noteq> ShTime \<longrightarrow>
        shape_of v = sh \<and> field_ok v \<and> d' = advance (int (length (enc_field v))) d \<and>
        (\<exists>rest. bs = enc_field v @ rest)))"

section \<open>The contract\<close>

locale seri_codec =
  fixes wr :: "Serializer \<Rightarrow> 'v \<Rightarrow> Serializer option"
    and rd :: "'sh \<Rightarrow> Deserializer \<Rightarrow> (Deserializer \<times> 'v) option"
    and enc :: "'v \<Rightarrow> bytes"
    and ok :: "'v \<Rightarrow> bool"
    and shape :: "'v \<Rightarrow> 'sh"
  assumes write_ok: "s_err s = None \<Longrightarrow> ok v \<Longrightarrow> wr s v = Some (buf_Write (enc v) s)"
    and write_sticky: "s_err s \<noteq> None \<Longrightarrow> wr s v = Some s"
    and read_ok: "standing d pre (enc v @ rest) \<Longrightarrow> ok v \<Longrightarrow>
      rd (shape v) d = Some (advance (int (length (enc v))) d, v)"
begin

lemma write_chain_ok:
  "s_err s = None \<Longrightarrow> \<forall>v\<in>set vs. ok v \<Longrightarrow>
    write_chain wr vs s = Some (buf_Write (concat (map enc vs)) s)"
proof (induction vs arbitrary: s)
  case (Cons v vs)
  then have "wr s v = Some (buf_Write (enc v) s)" by (simp add: write_ok)
  with Cons.prems Cons.IH [of "buf_Write (enc v) s"] show ?case by (simp add: buf_Write_def)
qed (simp add: buf_Write_def)

lemma write_chain_sticky:
  "s_err s \<noteq> None \<Longrightarrow> write_chain wr vs s = Some s"
  by (induction vs) (auto simp: write_sticky)

lemma read_chain_ok:
  "standing d pre (concat (map enc vs) @ rest) \<Longrightarrow> \<forall>v\<in>set vs. ok v \<Longrightarrow>
    read_chain rd (map shape vs) d = Some (advance (int (length (concat (map enc vs)))) d, vs)"
proof (induction vs arbitrary: d pre)
  case (Cons v vs)
  then have "rd (shape v) d = Some (advance (int (length (enc v))) d, v)"
    by (intro read_ok [of d pre v "concat (map enc vs) @ rest"]) simp_all
  moreover have "standing (advance (int (length (enc v))) d) (pre @ enc v) (concat (map enc vs) @ rest)"
    using Cons.prems(1) by (simp add: standing_def advance_def)
  ultimately show ?case using Cons.IH Cons.prems(2) by (simp add: advance_def)
qed (simp add: advance_def)

end

section \<open>Methods\<close>

subsection \<open>Reading at a position\<close>

lemma standing_NewDeserializer: "standing (NewDeserializer bs) [] bs"
  by (simp add: standing_def NewDeserializer_def)

lemma standing_err: "standing d pre bs \<Longrightarrow> d_err d = None"
  by (simp add: standing_def)

lemma standing_RemainingBytes: "standing d pre bs \<Longrightarrow> RemainingBytes d = Some bs"
  by (simp add: standing_def RemainingBytes_def)

lemma standing_window:
  "standing d pre bs \<Longrightarrow> n \<le> length bs \<Longrightarrow> window d (int n) = Some (take n bs)"
  unfolding window_def standing_def using slice_range_nat [of "length pre" n "pre @ bs"] by simp

lemma standing_advance:
  "standing d pre bs \<Longrightarrow> n \<le> length bs \<Longrightarrow> standing (advance (int n) d) (pre @ take n bs) (drop n bs)"
  by (simp add: standing_def advance_def)

lemma standing_advance_append:
  "standing d pre (bs @ rest) \<Longrightarrow> standing (advance (int (length bs)) d) (pre @ bs) rest"
  using standing_advance [of d pre "bs @ rest" "length bs"] by simp

lemmas standing_simps = standing_err standing_RemainingBytes standing_window

lemma advance_advance: "advance m (advance n d) = advance (n + m) d"
  by (simp add: advance_def)

lemma slice_index_0 [simp]: "slice_index (b # bs) 0 = Some b"
  by (simp add: slice_index_def)

subsection \<open>Numbers\<close>

lemma word_of_le_val:
  assumes "LENGTH('a::len) = 8 * k"
  shows "word_of_nat (le_val (le_bytes k (unat (w :: 'a word)))) = w"
proof -
  have "unat w < 2 ^ LENGTH('a)" by (rule unsigned_less)
  also have "(2::nat) ^ LENGTH('a) = 256 ^ k" by (simp add: assms power_mult)
  finally show ?thesis by (simp add: le_val_le_bytes)
qed

lemma decode_num_enc:
  assumes "num_ok n"
  shows "\<exists>k. numSize (num_type_of n) = Some k \<and> length (enc_num n) = k
             \<and> decode_num (num_type_of n) (enc_num n) = Some n"
  using assms by (cases n) (simp_all add: word_of_le_val del: le_bytes.simps le_val.simps)

lemma WriteNum_ok: "s_err s = None \<Longrightarrow> num_ok n \<Longrightarrow> WriteNum s n ep = buf_Write (enc_num n) s"
  by (cases n) (simp_all add: WriteNum_def)

lemma ReadNum_ok:
  assumes d: "standing d pre (enc_num n @ rest)" and "num_ok n"
  shows "ReadNum d (num_type_of n) dest ep = Some (advance (int (length (enc_num n))) d, n)"
proof -
  obtain k where k: "numSize (num_type_of n) = Some k" "length (enc_num n) = k"
    "decode_num (num_type_of n) (enc_num n) = Some n"
    using decode_num_enc [OF assms(2)] by blast
  have "window d (int k) = Some (enc_num n)" using standing_window [OF d, of k] k(2) by simp
  with k d show ?thesis by (simp add: ReadNum_def standing_simps [OF d] del: enc_num.simps)
qed

subsection \<open>Unsigned 256-bit numbers\<close>

lemma le_val_nat_le_bytes: "le_val (nat_le_bytes n) = n"
proof (induction n rule: nat_le_bytes.induct)
  case (1 n)
  have "unat (word_of_nat (n mod 256) :: byte) = n mod 256" by (simp add: unat_of_nat)
  with 1 show ?case by (subst nat_le_bytes.simps) simp
qed

lemma length_nat_le_bytes: "length (nat_le_bytes n) \<le> k \<longleftrightarrow> n < 256 ^ k"
proof (induction k arbitrary: n)
  case 0
  then show ?case by (subst nat_le_bytes.simps) simp
next
  case (Suc k)
  show ?case
  proof (cases "n = 0")
    case True
    then show ?thesis by (subst nat_le_bytes.simps) simp
  next
    case False
    then have "length (nat_le_bytes n) = Suc (length (nat_le_bytes (n div 256)))"
      by (subst nat_le_bytes.simps) simp
    then have "length (nat_le_bytes n) \<le> Suc k \<longleftrightarrow> n div 256 < 256 ^ k" by (simp add: Suc.IH)
    also have "\<dots> \<longleftrightarrow> n < 256 ^ Suc k" by (simp add: div_less_iff_less_mult mult.commute)
    finally show ?thesis .
  qed
qed

lemma swap_loop_step:
  "swap_loop (int (length pre)) (int (length pre + length mid) + 1) (pre @ x # mid @ y # post) =
   swap_loop (int (length pre) + 1) (int (length pre + length mid)) (pre @ y # mid @ x # post)"
proof -
  let ?xs = "pre @ x # mid @ y # post"
  have "nat (int (length pre + length mid) + 1) = length pre + Suc (length mid)" by simp
  then have "?xs[nat (int (length pre)) := ?xs ! nat (int (length pre + length mid) + 1),
        nat (int (length pre + length mid) + 1) := ?xs ! nat (int (length pre))] = pre @ y # mid @ x # post"
    by (simp add: list_update_append nth_append)
  then show ?thesis by (subst swap_loop.simps) simp
qed

lemma swap_loop_inner:
  "swap_loop (int (length pre)) (int (length pre + length xs) - 1) (pre @ xs @ post) = pre @ rev xs @ post"
proof (induction "length xs" arbitrary: pre xs post rule: less_induct)
  case less
  show ?case
  proof (cases "length xs < 2")
    case True
    then have "rev xs = xs" by (cases xs) simp_all
    with True show ?thesis by (subst swap_loop.simps) simp
  next
    case False
    then obtain x ys where "xs = x # ys" "ys \<noteq> []" by (cases xs) auto
    then obtain mid y where xs: "xs = x # mid @ [y]" by (metis append_butlast_last_id)
    have "swap_loop (int (length (pre @ [y]))) (int (length (pre @ [y]) + length mid) - 1)
            ((pre @ [y]) @ mid @ x # post) = (pre @ [y]) @ rev mid @ x # post"
      by (rule less.hyps) (simp add: xs)
    then show ?thesis using swap_loop_step [of pre mid x y post] by (simp add: xs algebra_simps)
  qed
qed

lemma swap_loop_rev: "swap_loop 0 (int (length xs) - 1) xs = rev xs"
  using swap_loop_inner [of "[]" xs "[]"] by simp

lemma padded_le_bytes:
  assumes "n < 256 ^ k"
  shows "nat_le_bytes n @ replicate (k - length (nat_le_bytes n)) 0 = le_bytes k n"
proof -
  let ?bs = "nat_le_bytes n @ replicate (k - length (nat_le_bytes n)) 0"
  have "length ?bs = k" using length_nat_le_bytes [of n k] assms by simp
  then have "le_bytes k (le_val ?bs) = ?bs" using le_bytes_le_val [of ?bs] by simp
  then show ?thesis by (simp add: le_val_append le_val_replicate_0 le_val_nat_le_bytes)
qed

lemma WriteUint256_ok:
  assumes "s_err s = None" and n: "0 \<le> n" "n < 2 ^ 256"
  shows "WriteUint256 s (Some n) ep = buf_Write (le_bytes 32 (nat n)) s"
proof -
  have "nat n < nat (2 ^ 256)" using n by (subst nat_less_eq_zless) simp_all
  also have "nat (2 ^ 256) = 256 ^ 32" by simp
  finally have small: "nat n < 256 ^ 32" .
  let ?bs = "big_Bytes n"
  have bs: "rev ?bs = nat_le_bytes (nat n)" "length ?bs = length (nat_le_bytes (nat n))"
    using n by (simp_all add: big_Bytes_def)
  have "length ?bs \<le> 32" using small length_nat_le_bytes [of "nat n" 32] bs(2) by simp
  then show ?thesis
    using assms bs padded_le_bytes [OF small]
    by (simp add: WriteUint256_def swap_loop_rev byte_sizes Let_def)
qed

lemma ReadUint256_ok:
  assumes d: "standing d pre (le_bytes 32 (nat n) @ rest)" and n: "0 \<le> n" "n < 2 ^ 256"
  shows "ReadUint256 d dest ep = Some (advance 32 d, n)"
proof -
  have "nat n < nat (2 ^ 256)" using n by (subst nat_less_eq_zless) simp_all
  also have "nat (2 ^ 256) = 256 ^ 32" by simp
  finally have small: "nat n mod 256 ^ 32 = nat n" by (rule mod_less)
  have w: "window d 32 = Some (le_bytes 32 (nat n))"
    using standing_window [OF d, of 32] by (simp add: length_le_bytes)
  have "go_copy (replicate 32 0) (le_bytes 32 (nat n)) = le_bytes 32 (nat n)"
    by (rule go_copy_same) (simp add: length_le_bytes)
  with w small n show ?thesis
    by (simp add: ReadUint256_def standing_simps [OF d] byte_sizes swap_loop_rev Let_def length_le_bytes
        be_val_def le_val_le_bytes)
qed

subsection \<open>Byte slices and their length prefix\<close>

lemma ReadBytes_ok:
  assumes d: "standing d pre (bs @ rest)"
  shows "ReadBytes d dst (int (length bs)) ep = Some (advance (int (length bs)) d, bs)"
  using standing_window [OF d, of "length bs"] by (simp add: ReadBytes_def standing_simps [OF d] go_make_def)

lemma writeSliceLength_ok:
  assumes "s_err s = None" and "length_fits lt n"
  shows "writeSliceLength s n lt ep = Some (buf_Write (le_bytes (prefix_size lt) n) s)"
  using assms by (cases lt) (simp_all add: length_fits_def unat_of_nat)

lemma readSliceLength_ok:
  assumes d: "standing d pre (le_bytes (prefix_size lt) n @ rest)" and "length_fits lt n"
  shows "readSliceLength d lt ep = Some (advance (int (prefix_size lt)) d, n, None)"
proof -
  have w: "window d (int (prefix_size lt)) = Some (le_bytes (prefix_size lt) n)"
    using standing_window [OF d, of "prefix_size lt"] by (simp add: length_le_bytes)
  have n: "le_val (le_bytes (prefix_size lt) n) = n"
    using assms(2) by (simp add: le_val_le_bytes length_fits_def)
  from assms(2) have "prefix_size lt \<noteq> 0" by (simp add: length_fits_def)
  with w n show ?thesis
    by (cases lt) (simp_all add: readSliceLength_def standing_simps [OF d] byte_sizes length_0_conv [symmetric]
        length_le_bytes del: le_bytes.simps le_val.simps length_0_conv)
qed

lemma checkDenotedLength_within: "within mn mx n \<Longrightarrow> checkDenotedLength d n ep mn mx = d"
  by (auto simp: within_def checkDenotedLength_def)

lemma WriteVariable_ok:
  assumes "s_err s = None" and "length_fits lt (length bs)" and "within mn mx (length bs)"
  shows "WriteVariableByteSlice s bs lt ep mn mx = Some (buf_Write (le_bytes (prefix_size lt) (length bs) @ bs) s)"
    and "WriteString s bs lt ep mn mx = Some (buf_Write (le_bytes (prefix_size lt) (length bs) @ bs) s)"
  using assms writeSliceLength_ok [OF assms(1,2)]
  by (auto simp: WriteVariableByteSlice_def WriteString_def within_def buf_Write_def Let_def simp del: writeSliceLength.simps)

lemma ReadVariable_ok:
  assumes d: "standing d pre ((le_bytes (prefix_size lt) (length bs) @ bs) @ rest)"
    and ok: "length_fits lt (length bs)" "within mn mx (length bs)"
  shows "ReadVariableByteSlice d dst lt ep mn mx = Some (advance (int (prefix_size lt + length bs)) d, bs)"
    and "ReadString d dst lt ep mn mx = Some (advance (int (prefix_size lt + length bs)) d, bs)"
proof -
  let ?d = "advance (int (prefix_size lt)) d"
  have d0: "standing d pre (le_bytes (prefix_size lt) (length bs) @ bs @ rest)" using d by simp
  have d': "standing ?d (pre @ le_bytes (prefix_size lt) (length bs)) (bs @ rest)"
    using standing_advance_append [OF d0] by (simp add: length_le_bytes)
  note r = readSliceLength_ok [OF d0 ok(1)] checkDenotedLength_within [OF ok(2)]
    standing_err [OF d] standing_simps [OF d'] standing_window [OF d', of "length bs"]
  show "ReadVariableByteSlice d dst lt ep mn mx = Some (advance (int (prefix_size lt + length bs)) d, bs)"
    by (simp add: ReadVariableByteSlice_def r advance_advance Let_def)
  show "ReadString d dst lt ep mn mx = Some (advance (int (prefix_size lt + length bs)) d, bs)"
    by (simp add: ReadString_def r advance_advance Let_def)
qed

subsection \<open>Times\<close>

lemma time_Unix_nanos: "0 \<le> nsec t \<Longrightarrow> nsec t < 1000000000 \<Longrightarrow> time_Unix (nanos t) = t"
  by (cases t) (simp add: time_Unix_def nanos_def)

lemma nanos_range:
  assumes "time_ok t"
  shows "0 \<le> nanos t" and "nanos t < 2 ^ 63" and "unix_sec t \<le> MaxNanoTimestampInt64Seconds"
  using assms by (simp_all add: time_ok_def nanos_def MaxNanoTimestampInt64Seconds_def)

lemma TimeToUint64_ok:
  assumes "time_ok t"
  shows "TimeToUint64 t = word_of_int (nanos t)"
proof -
  note n = nanos_range [OF assms]
  have "UnixNano t = sint (word_of_int (nanos t) :: u64)" by (simp only: UnixNano_def nanos_def)
  also have "\<dots> = nanos t" using n by (simp add: signed_of_int signed_take_bit_int_eq_self)
  finally show ?thesis using n assms by (simp add: TimeToUint64_def time_ok_def)
qed

lemma WriteTime_ok:
  assumes "s_err s = None" and "time_ok t"
  shows "WriteTime s t = buf_Write (le_bytes 8 (nat (nanos t))) s"
proof -
  have "unat (word_of_int (nanos t) :: u64) = nat (nanos t)"
    using nanos_range [OF assms(2)] by (simp add: unsigned_of_int take_bit_int_eq_self)
  then show ?thesis using assms by (simp add: WriteTime_def TimeToUint64_ok)
qed

lemma ReadTime_ok:
  assumes d: "standing d pre (le_bytes 8 (nat (nanos t)) @ rest)" and "time_ok t"
  shows "ReadTime d dest ep = Some (advance 8 d, t)"
proof -
  note n = nanos_range [OF assms(2)]
  let ?w = "word_of_nat (nat (nanos t)) :: u64"
  have "nat (nanos t) < 2 ^ 64" using n by simp
  then have "le_val (le_bytes 8 (nat (nanos t))) = nat (nanos t)" "unat ?w = nat (nanos t)"
    by (simp_all add: le_val_le_bytes unat_of_nat)
  moreover have "sint ?w = nanos t" using n by (simp add: signed_of_int signed_take_bit_int_eq_self)
  moreover have "int (nat (nanos t) div 1000000000) \<le> MaxNanoTimestampInt64Seconds"
    using n by (simp add: MaxNanoTimestampInt64Seconds_def zdiv_int)
  moreover have "window d 8 = Some (le_bytes 8 (nat (nanos t)))"
    using standing_window [OF d, of 8] by (simp add: length_le_bytes)
  moreover have "time_Unix (nanos t) = t" using assms(2) by (simp add: time_ok_def time_Unix_nanos)
  ultimately show ?thesis
    by (simp add: ReadTime_def standing_simps [OF d] byte_sizes length_le_bytes Let_def del: le_bytes.simps)
qed

section \<open>The round trip\<close>

lemmas write_ok_rules = WriteNum_ok WriteUint256_ok WriteVariable_ok WriteTime_ok
lemmas read_ok_rules = ReadNum_ok ReadUint256_ok ReadBytes_ok ReadVariable_ok ReadTime_ok

lemma write_field_ok:
  "s_err s = None \<Longrightarrow> field_ok v \<Longrightarrow> write_field ep s v = Some (buf_Write (enc_field v) s)"
  by (cases v) (simp_all add: write_ok_rules WriteBool_def WriteByte_def WriteBytes_def del: enc_num.simps)

lemma write_field_sticky: "s_err s \<noteq> None \<Longrightarrow> write_field ep s v = Some s"
  by (cases v) (simp_all add: WriteNum_def WriteUint256_def WriteVariableByteSlice_def WriteString_def WriteTime_def
      WriteBool_def WriteByte_def WriteBytes_def)

lemma read_field_ok:
  assumes d: "standing d pre (enc_field v @ rest)" and "field_ok v"
  shows "read_field ep (shape_of v) d = Some (advance (int (length (enc_field v))) d, v)"
proof (cases v)
  case (FBool b)
  then show ?thesis using d standing_window [of d pre "enc_field v @ rest" 1]
    by (simp add: ReadBool_def standing_simps byte_sizes)
next
  case (FByte b)
  then show ?thesis using d standing_window [of d pre "enc_field v @ rest" 1]
    by (simp add: ReadByte_def standing_simps byte_sizes)
qed (use assms in \<open>simp_all add: read_ok_rules length_le_bytes del: enc_num.simps\<close>)

interpretation field: seri_codec "write_field ep" "read_field ep" enc_field field_ok shape_of
  by unfold_locales (simp_all add: write_field_ok write_field_sticky read_field_ok)

text \<open>C8: Whatever fields are written in a chain to a new serializer, of any supported types and in any order,
  \<^verbatim>\<open>Serialize\<close> returns the concatenation of their encodings; reading the same shapes in the same order from these
  bytes gives exactly the fields back, without a panic and without an error, and \<^verbatim>\<open>ConsumedAll\<close> and \<^verbatim>\<open>Done\<close>
  report that every byte was consumed.\<close>

theorem message_round_trip:
  assumes "\<forall>v\<in>set vs. field_ok v"
  shows "map_option Serialize (write_chain (write_field ep) vs NewSerializer) = Some (Inr (concat (map enc_field vs)))
    \<and> (\<exists>d. read_chain (read_field ep') (map shape_of vs) (NewDeserializer (concat (map enc_field vs))) = Some (d, vs)
           \<and> ConsumedAll d epl = Some d \<and> Done d = (int (length (concat (map enc_field vs))), None))"
proof -
  let ?bs = "concat (map enc_field vs)"
  let ?d = "advance (int (length ?bs)) (NewDeserializer ?bs)"
  have "map_option Serialize (write_chain (write_field ep) vs NewSerializer) = Some (Inr ?bs)"
    using field.write_chain_ok [OF _ assms, of NewSerializer ep]
    by (simp add: NewSerializer_def Serialize_def buf_Write_def)
  moreover have "read_chain (read_field ep') (map shape_of vs) (NewDeserializer ?bs) = Some (?d, vs)"
    by (rule field.read_chain_ok [where pre = "[]" and rest = "[]"]) (simp_all add: standing_NewDeserializer assms)
  moreover have "ConsumedAll ?d epl = Some ?d \<and> Done ?d = (int (length ?bs), None)"
    by (simp add: ConsumedAll_def Done_def advance_def NewDeserializer_def)
  ultimately show ?thesis by blast
qed

theorem message_round_trip_witness:
  "map_option Serialize (write_chain (write_field id)
       [FBool True, FNum (NUint16 513), FString SeriLengthPrefixTypeAsByte 1 4 [104, 105]] NewSerializer)
     = Some (Inr [1, 1, 2, 2, 104, 105])
   \<and> (\<exists>d. read_chain (read_field id) [ShBool, ShNum TUint16, ShString SeriLengthPrefixTypeAsByte 1 4]
         (NewDeserializer [1, 1, 2, 2, 104, 105])
         = Some (d, [FBool True, FNum (NUint16 513), FString SeriLengthPrefixTypeAsByte 1 4 [104, 105]])
       \<and> ConsumedAll d (\<lambda>_. id) = Some d \<and> Done d = (6, None))"
proof -
  let ?vs = "[FBool True, FNum (NUint16 513), FString SeriLengthPrefixTypeAsByte 1 4 [104, 105]]"
  have "\<forall>v\<in>set ?vs. field_ok v" by code_simp
  moreover have "concat (map enc_field ?vs) = [1, 1, 2, 2, 104, 105]" by code_simp
  moreover have "map shape_of ?vs = [ShBool, ShNum TUint16, ShString SeriLengthPrefixTypeAsByte 1 4]" by simp
  moreover have "int (length [1, 1, 2, 2, 104, 105 :: byte]) = 6" by simp
  ultimately show ?thesis using message_round_trip [of ?vs id id "\<lambda>_. id"] by metis
qed

section \<open>Arbitrary input\<close>

lemma standing_in_range: "standing d pre bs \<Longrightarrow> in_range d"
  by (simp add: standing_def in_range_def)

lemma standing_length: "standing d pre bs \<Longrightarrow> d_src d = pre @ bs \<and> d_offset d = int (length pre)"
  by (simp add: standing_def)

lemma in_range_advance: "standing d pre bs \<Longrightarrow> n \<le> length bs \<Longrightarrow> in_range (advance (int n) d)"
  by (simp add: standing_def in_range_def advance_def)

lemma advance_simps [simp]: "d_src (advance n d) = d_src d" "d_err (advance n d) = d_err d"
  by (simp_all add: advance_def)

lemma advance_0 [simp]: "advance 0 d = d"
  by (simp add: advance_def)

lemma fail_simps [simp]: "d_src (fail ep e d) = d_src d" "d_err (fail ep e d) = ep (Some e)"
  "in_range (fail ep e d) = in_range d"
  by (simp_all add: fail_def in_range_def)

lemma reads_fail: "standing d pre bs \<Longrightarrow> reads sh d bs (fail (\<lambda>e. Some (f e)) e d, v)"
  by (simp add: reads_def standing_in_range)

lemma reads_ok:
  "standing d pre bs \<Longrightarrow> n \<le> length bs \<Longrightarrow> shape_of v = sh \<Longrightarrow> field_ok v \<Longrightarrow> enc_field v = take n bs \<Longrightarrow>
    reads sh d bs (advance (int n) d, v)"
  by (auto simp: reads_def in_range_advance intro!: exI [of _ "drop n bs"])

lemma le_bytes_word:
  assumes "LENGTH('a::len) = 8 * k" and "length dat = k"
  shows "le_bytes k (unat (word_of_nat (le_val dat) :: 'a word)) = dat"
proof -
  have "le_val dat < 2 ^ LENGTH('a)" using le_val_less [of dat] by (simp add: assms power_mult)
  then show ?thesis using assms(2) le_bytes_le_val [of dat] by (simp add: unat_of_nat)
qed

lemma enc_decode_num:
  assumes "numSize ty = Some k" and "ty \<noteq> TBool" and "length dat = k"
  shows "\<exists>n. decode_num ty dat = Some n \<and> num_type_of n = ty \<and> num_ok n \<and> enc_num n = dat"
  using assms by (cases ty) (simp_all add: le_bytes_word del: le_bytes.simps)

lemma reads_num:
  assumes d: "standing d pre bs" and "readable (ShNum ty)"
  shows "\<exists>r. read_field (\<lambda>e. Some (f e)) (ShNum ty) d = Some r \<and> reads (ShNum ty) d bs r"
proof -
  obtain k where k: "numSize ty = Some k" using assms(2) by (cases ty) simp_all
  show ?thesis
  proof (cases "length bs < k")
    case True
    then show ?thesis by (simp add: ReadNum_def standing_simps [OF d] k reads_fail [OF d])
  next
    case False
    then have w: "window d (int k) = Some (take k bs)" "length (take k bs) = k"
      using standing_window [OF d, of k] by simp_all
    then obtain n where n: "decode_num ty (take k bs) = Some n" "num_type_of n = ty" "num_ok n" "enc_num n = take k bs"
      using enc_decode_num [OF k _ w(2)] assms(2) by auto
    have "reads (ShNum ty) d bs (advance (int k) d, FNum n)"
      using False n by (intro reads_ok [OF d]) simp_all
    with False show ?thesis by (simp add: ReadNum_def standing_simps [OF d] k w n)
  qed
qed

lemma reads_uint256:
  assumes d: "standing d pre bs"
  shows "\<exists>r. read_field (\<lambda>e. Some (f e)) ShUint256 d = Some r \<and> reads ShUint256 d bs r"
proof (cases "length bs < 32")
  case True
  then show ?thesis by (simp add: ReadUint256_def standing_simps [OF d] byte_sizes reads_fail [OF d])
next
  case False
  let ?w = "take 32 bs"
  have w: "window d 32 = Some ?w" "length ?w = 32" using False standing_window [OF d, of 32] by simp_all
  have "le_val ?w < 256 ^ 32" using le_val_less [of ?w] unfolding w(2) .
  then have "int (le_val ?w) < int (256 ^ 32)" by (simp only: of_nat_less_iff)
  moreover have "le_bytes 32 (le_val ?w) = ?w" using le_bytes_le_val [of ?w] unfolding w(2) .
  ultimately have "reads ShUint256 d bs (advance (int 32) d, FUint256 (int (le_val ?w)))"
    using False by (intro reads_ok [OF d]) simp_all
  moreover have "go_copy (replicate 32 0) ?w = ?w" by (rule go_copy_same) (use w in simp)
  ultimately show ?thesis using False w
    by (simp add: ReadUint256_def standing_simps [OF d] byte_sizes swap_loop_rev be_val_def Let_def)
qed

lemma readSliceLength_eq:
  assumes d: "standing d pre bs" and lt: "prefix_size lt \<noteq> 0"
  shows "readSliceLength d lt ep =
    Some (if length bs < prefix_size lt then (d, 0, ep (Some ErrDeserializationNotEnoughData))
          else (advance (int (prefix_size lt)) d, le_val (take (prefix_size lt) bs), None))"
proof -
  have "(case lt of SeriLengthPrefixTypeAsByte \<Rightarrow> Some OneByte | SeriLengthPrefixTypeAsUint16 \<Rightarrow> Some UInt16ByteSize
       | SeriLengthPrefixTypeAsUint32 \<Rightarrow> Some UInt32ByteSize | _ \<Rightarrow> None) = Some (prefix_size lt)"
    using lt by (cases lt) (simp_all add: byte_sizes)
  then show ?thesis by (simp add: readSliceLength_def standing_err [OF d] standing_RemainingBytes [OF d] standing_window [OF d])
qed

lemma checkDenotedLength_cases:
  "checkDenotedLength d n ep mn mx = (if within mn mx n then d else
     fail ep (if mx > 0 \<and> int n > mx then ErrDeserializationLengthMaxExceeded
              else ErrDeserializationLengthMinNotReached) d)"
  by (auto simp: checkDenotedLength_def within_def)

lemma checkDenotedLength_position:
  "RemainingBytes (checkDenotedLength d n ep mn mx) = RemainingBytes d"
  "window (checkDenotedLength d n ep mn mx) k = window d k"
  "d_src (checkDenotedLength d n ep mn mx) = d_src d"
  "in_range (checkDenotedLength d n ep mn mx) = in_range d"
  "in_range (advance k (checkDenotedLength d n ep mn mx)) = in_range (advance k d)"
  by (simp_all add: checkDenotedLength_cases RemainingBytes_def window_def fail_def in_range_def advance_def)

lemma checkDenotedLength_err:
  "d_err (checkDenotedLength d n (\<lambda>e. Some (f e)) mn mx) = None \<Longrightarrow> within mn mx n"
  by (simp add: checkDenotedLength_cases split: if_splits)

lemma ReadVariable_eq:
  fixes ep mn mx
  assumes d: "standing d pre bs" and lt: "prefix_size lt \<noteq> 0" and len: "prefix_size lt \<le> length bs"
  defines "n \<equiv> le_val (take (prefix_size lt) bs)"
  defines "d1 \<equiv> checkDenotedLength (advance (int (prefix_size lt)) d) n ep mn mx"
  shows "ReadVariableByteSlice d dst lt ep mn mx =
      Some (if length bs - prefix_size lt < n then (fail ep ErrDeserializationNotEnoughData d1, dst)
            else (advance (int n) d1, take n (drop (prefix_size lt) bs)))"
    and "ReadString d dst lt ep mn mx = ReadVariableByteSlice d dst lt ep mn mx"
proof -
  have d': "standing (advance (int (prefix_size lt)) d) (pre @ take (prefix_size lt) bs) (drop (prefix_size lt) bs)"
    by (rule standing_advance [OF d len])
  have r: "readSliceLength d lt ep = Some (advance (int (prefix_size lt)) d, n, None)"
    using len by (simp add: readSliceLength_eq [OF d lt] n_def)
  note p = checkDenotedLength_position standing_RemainingBytes [OF d'] standing_window [OF d']
  show "ReadVariableByteSlice d dst lt ep mn mx =
      Some (if length bs - prefix_size lt < n then (fail ep ErrDeserializationNotEnoughData d1, dst)
            else (advance (int n) d1, take n (drop (prefix_size lt) bs)))"
    by (simp add: ReadVariableByteSlice_def standing_err [OF d] r p d1_def Let_def)
  then show "ReadString d dst lt ep mn mx = ReadVariableByteSlice d dst lt ep mn mx"
    by (simp add: ReadString_def standing_err [OF d] r p d1_def Let_def)
qed

lemma reads_variable:
  assumes d: "standing d pre bs" and lt: "prefix_size lt \<noteq> 0"
    and K: "(K, sh) = (FVariable lt mn mx, ShVariable lt mn mx) \<or> (K, sh) = (FString lt mn mx, ShString lt mn mx)"
  shows "\<exists>r. map_option (map_prod id K) (ReadVariableByteSlice d dst lt (\<lambda>e. Some (f e)) mn mx) = Some r \<and> reads sh d bs r"
proof (cases "length bs < prefix_size lt")
  case True
  then show ?thesis using standing_in_range [OF d]
    by (simp add: ReadVariableByteSlice_def standing_err [OF d] readSliceLength_eq [OF d lt] reads_def in_range_def)
next
  case False
  let ?p = "prefix_size lt" and ?n = "le_val (take (prefix_size lt) bs)"
  have len: "?p \<le> length bs" and small: "?n < 256 ^ ?p" using False le_val_less [of "take ?p bs"] by simp_all
  have enc: "le_bytes ?p ?n = take ?p bs" using len le_bytes_le_val [of "take ?p bs"] by simp
  note r = ReadVariable_eq(1) [OF d lt len, where dst = dst and ep = "\<lambda>e. Some (f e)" and mn = mn and mx = mx]
  note p = checkDenotedLength_position
  consider "length bs - ?p < ?n" | "?n \<le> length bs - ?p" "\<not> within mn mx ?n" | "?n \<le> length bs - ?p" "within mn mx ?n"
    by linarith
  then show ?thesis
  proof cases
    case 1
    then show ?thesis using in_range_advance [OF d len] by (simp add: r p reads_def)
  next
    case 2
    then have "in_range (advance (int ?n) (advance (int ?p) d))"
      using in_range_advance [OF d, of "?p + ?n"] len by (simp add: advance_advance)
    with 2 show ?thesis by (auto simp: r p reads_def dest: checkDenotedLength_err)
  next
    case 3
    let ?v = "K (take ?n (drop ?p bs))"
    have "reads sh d bs (advance (int (?p + ?n)) d, ?v)"
      using 3 K len small enc lt by (intro reads_ok [OF d]) (auto simp: length_fits_def take_add)
    with 3 show ?thesis by (simp add: r checkDenotedLength_within advance_advance)
  qed
qed

lemma ReadString_eq:
  assumes d: "standing d pre bs" and lt: "prefix_size lt \<noteq> 0"
  shows "ReadString d dst lt ep mn mx = ReadVariableByteSlice d dst lt ep mn mx"
proof (cases "length bs < prefix_size lt")
  case True
  then show ?thesis
    by (simp add: ReadString_def ReadVariableByteSlice_def standing_err [OF d] readSliceLength_eq [OF d lt] 
        checkDenotedLength_position standing_RemainingBytes [OF d] standing_window [OF d, of 0, simplified] Let_def)
next
  case False
  with ReadVariable_eq(2) [OF d lt] show ?thesis by simp
qed

lemma reads_field:
  assumes d: "standing d pre bs" and "readable sh"
  shows "\<exists>r. read_field (\<lambda>e. Some (f e)) sh d = Some r \<and> reads sh d bs r"
proof (cases sh)
  case ShBool
  show ?thesis
  proof (cases bs)
    case (Cons b bs')
    consider "b = 0" | "b = 1" | "b \<noteq> 0" "b \<noteq> 1" by blast
    then show ?thesis
      using Cons standing_window [OF d, of 1] reads_ok [OF d, of 1 "FBool (b = 1)"]
      by cases (simp_all add: ShBool ReadBool_def standing_simps [OF d] byte_sizes reads_fail [OF d, unfolded Cons])
  next
    case Nil
    then show ?thesis by (simp add: ShBool ReadBool_def standing_simps [OF d] reads_fail [OF d, unfolded Nil])
  qed
next
  case ShByte
  show ?thesis
  proof (cases bs)
    case Nil
    then show ?thesis by (simp add: ShByte ReadByte_def standing_simps [OF d] reads_fail [OF d, unfolded Nil])
  next
    case (Cons b bs')
    then show ?thesis using standing_window [OF d, of 1] reads_ok [OF d, of 1 "FByte b"]
      by (simp add: ShByte ReadByte_def standing_simps [OF d] byte_sizes)
  qed
next
  case (ShBytes n)
  then show ?thesis using reads_ok [OF d, of n]
    by (simp add: ReadBytes_def standing_simps [OF d] go_make_def reads_fail [OF d])
next
  case ShTime
  then show ?thesis using in_range_advance [OF d, of 8] standing_window [OF d, of 8] standing_in_range [OF d]
    by (simp add: ReadTime_def standing_simps [OF d] byte_sizes reads_fail [OF d] reads_def Let_def)
next
  case (ShVariable lt mn mx)
  then show ?thesis using assms reads_variable [OF d, of lt] by simp
next
  case (ShString lt mn mx)
  then show ?thesis using assms reads_variable [OF d, of lt "FString lt mn mx"] by (simp add: ReadString_eq [OF d])
qed (use assms reads_num reads_uint256 in \<open>simp_all del: read_field.simps\<close>)

lemma read_field_sticky: "d_err d \<noteq> None \<Longrightarrow> \<exists>v. read_field ep sh d = Some (d, v)"
  by (cases sh) (simp_all add: ReadBool_def ReadByte_def ReadNum_def ReadUint256_def ReadBytes_def
      ReadVariableByteSlice_def ReadString_def ReadTime_def)

lemma in_range_standing:
  "in_range d \<Longrightarrow> d_err d = None \<Longrightarrow> standing d (take (nat (d_offset d)) (d_src d)) (drop (nat (d_offset d)) (d_src d))"
  by (auto simp: in_range_def standing_def min_def nat_le_iff)

text \<open>The reader on arbitrary bytes: it returns, keeps its position in range, and what a canonical shape accepts is
  the encoding of the value.\<close>

locale seri_reader = seri_codec wr rd enc ok shape
  for wr :: "Serializer \<Rightarrow> 'v \<Rightarrow> Serializer option"
    and rd :: "'sh \<Rightarrow> Deserializer \<Rightarrow> (Deserializer \<times> 'v) option"
    and enc :: "'v \<Rightarrow> bytes"
    and ok :: "'v \<Rightarrow> bool"
    and shape :: "'v \<Rightarrow> 'sh" +
  fixes supported :: "'sh \<Rightarrow> bool"
    and canonical :: "'sh \<Rightarrow> bool"
  assumes read_any: "standing d pre bs \<Longrightarrow> supported sh \<Longrightarrow>
      \<exists>d' v. rd sh d = Some (d', v) \<and> d_src d' = d_src d \<and> in_range d' \<and>
        (d_err d' = None \<longrightarrow> canonical sh \<longrightarrow>
           shape v = sh \<and> ok v \<and> d' = advance (int (length (enc v))) d \<and> (\<exists>rest. bs = enc v @ rest))"
    and read_sticky: "d_err d \<noteq> None \<Longrightarrow> \<exists>v. rd sh d = Some (d, v)"
begin

lemma read_chain_sticky: "d_err d \<noteq> None \<Longrightarrow> \<exists>vs. read_chain rd shs d = Some (d, vs)"
proof (induction shs)
  case (Cons sh shs)
  then obtain v vs where "rd sh d = Some (d, v)" "read_chain rd shs d = Some (d, vs)"
    using read_sticky [of d sh] by blast
  then show ?case by simp
qed simp

lemma read_chain_any:
  "standing d pre bs \<Longrightarrow> \<forall>sh\<in>set shs. supported sh \<Longrightarrow>
    \<exists>d' vs. read_chain rd shs d = Some (d', vs) \<and> d_src d' = d_src d \<and> in_range d' \<and>
      (d_err d' = None \<longrightarrow> (\<forall>sh\<in>set shs. canonical sh) \<longrightarrow>
         map shape vs = shs \<and> (\<forall>v\<in>set vs. ok v) \<and> d' = advance (int (length (concat (map enc vs)))) d \<and>
         (\<exists>rest. bs = concat (map enc vs) @ rest))"
proof (induction shs arbitrary: d pre bs)
  case Nil
  then show ?case by (simp add: standing_in_range)
next
  case (Cons sh shs)
  obtain d1 v where v: "rd sh d = Some (d1, v)" "d_src d1 = d_src d" "in_range d1"
    "d_err d1 = None \<longrightarrow> canonical sh \<longrightarrow>
       shape v = sh \<and> ok v \<and> d1 = advance (int (length (enc v))) d \<and> (\<exists>rest. bs = enc v @ rest)"
    using read_any [OF Cons.prems(1), of sh] Cons.prems(2) by auto
  show ?case
  proof (cases "d_err d1 = None")
    case False
    then obtain vs where "read_chain rd shs d1 = Some (d1, vs)" using read_chain_sticky by blast
    with False v show ?thesis by auto
  next
    case True
    note st = in_range_standing [OF v(3) True]
    obtain d2 vs where vs: "read_chain rd shs d1 = Some (d2, vs)" "d_src d2 = d_src d1" "in_range d2"
      "d_err d2 = None \<longrightarrow> (\<forall>sh\<in>set shs. canonical sh) \<longrightarrow>
         map shape vs = shs \<and> (\<forall>v\<in>set vs. ok v) \<and> d2 = advance (int (length (concat (map enc vs)))) d1 \<and>
         (\<exists>rest. drop (nat (d_offset d1)) (d_src d1) = concat (map enc vs) @ rest)"
      using Cons.IH [OF st] Cons.prems(2) by auto
    have "\<exists>rest'. bs = enc v @ concat (map enc vs) @ rest'"
      if "bs = enc v @ rest" "d1 = advance (int (length (enc v))) d"
        "drop (nat (d_offset d1)) (d_src d1) = concat (map enc vs) @ rest'" for rest rest'
      using that Cons.prems(1) by (simp add: standing_def advance_def nat_add_distrib)
    with v vs True show ?thesis by (fastforce simp: advance_advance)
  qed
qed

lemma read_chain_accepts:
  assumes "\<forall>sh\<in>set shs. supported sh" and "\<forall>sh\<in>set shs. canonical sh"
  shows "\<exists>d vs. read_chain rd shs (NewDeserializer bs) = Some (d, vs) \<and> in_range d \<and>
    (\<forall>ws. d_err d = None \<and> d_offset d = int (length bs) \<and> vs = ws \<longleftrightarrow>
       map shape ws = shs \<and> (\<forall>w\<in>set ws. ok w) \<and> bs = concat (map enc ws))"
proof -
  obtain d vs where r: "read_chain rd shs (NewDeserializer bs) = Some (d, vs)" "in_range d"
    "d_err d = None \<longrightarrow> map shape vs = shs \<and> (\<forall>v\<in>set vs. ok v) \<and>
       d = advance (int (length (concat (map enc vs)))) (NewDeserializer bs) \<and> (\<exists>rest. bs = concat (map enc vs) @ rest)"
    using read_chain_any [OF standing_NewDeserializer assms(1), of bs] assms(2) by auto
  have "d_err d = None \<and> d_offset d = int (length bs) \<and> vs = ws"
    if "map shape ws = shs" "\<forall>w\<in>set ws. ok w" "bs = concat (map enc ws)" for ws
    using read_chain_ok [of "NewDeserializer bs" "[]" ws "[]"] standing_NewDeserializer [of bs] that r(1)
    by (auto simp: NewDeserializer_def advance_def)
  moreover have "map shape vs = shs \<and> (\<forall>v\<in>set vs. ok v) \<and> bs = concat (map enc vs)"
    if "d_err d = None" "d_offset d = int (length bs)"
    using that r(3) by (auto simp: NewDeserializer_def advance_def)
  ultimately have "d_err d = None \<and> d_offset d = int (length bs) \<and> vs = ws \<longleftrightarrow>
       map shape ws = shs \<and> (\<forall>w\<in>set ws. ok w) \<and> bs = concat (map enc ws)" for ws by metis
  with r(1,2) show ?thesis by blast
qed

end

interpretation message: seri_reader "write_field ep" "read_field (\<lambda>e. Some (f e))" enc_field field_ok shape_of
  readable "\<lambda>sh. sh \<noteq> ShTime"
proof unfold_locales
  fix d pre bs sh
  assume "standing d pre bs" "readable sh"
  then show "\<exists>d' v. read_field (\<lambda>e. Some (f e)) sh d = Some (d', v) \<and> d_src d' = d_src d \<and> in_range d' \<and>
        (d_err d' = None \<longrightarrow> sh \<noteq> ShTime \<longrightarrow> shape_of v = sh \<and> field_ok v \<and>
           d' = advance (int (length (enc_field v))) d \<and> (\<exists>rest. bs = enc_field v @ rest))"
    using reads_field [of d pre bs sh f] by (auto simp: reads_def)
qed (simp_all add: field.write_ok field.write_sticky field.read_ok read_field_sticky)

text \<open>C18: For any bytes and any sequence of supported shapes without times, reading returns without a panic and the
  offset stays within the source. All bytes are consumed without an error exactly for the bytes that are
  the encoding of fields of these shapes, and the values read are then these fields: no second byte string
  is accepted for the same fields.\<close>

theorem message_accepted_iff:
  assumes "\<forall>sh\<in>set shs. readable sh" and "\<forall>sh\<in>set shs. sh \<noteq> ShTime"
  shows "\<exists>d vs. read_chain (read_field (\<lambda>e. Some (f e))) shs (NewDeserializer bs) = Some (d, vs) \<and> in_range d \<and>
    (\<forall>ws. d_err d = None \<and> d_offset d = int (length bs) \<and> vs = ws \<longleftrightarrow>
       map shape_of ws = shs \<and> (\<forall>w\<in>set ws. field_ok w) \<and> bs = concat (map enc_field ws))"
  by (rule message.read_chain_accepts [OF assms])

theorem message_accepted_iff_witness:
  "\<exists>d vs. read_chain (read_field (\<lambda>e. Some ErrInvalidBytes)) [ShBool, ShVariable SeriLengthPrefixTypeAsByte 0 0]
       (NewDeserializer [1, 2, 7, 9]) = Some (d, vs) \<and> d_err d = None \<and> d_offset d = int (length [1, 2, 7, 9 :: byte])
     \<and> vs = [FBool True, FVariable SeriLengthPrefixTypeAsByte 0 0 [7, 9]]"
proof -
  let ?shs = "[ShBool, ShVariable SeriLengthPrefixTypeAsByte 0 0]" and ?bs = "[1, 2, 7, 9 :: byte]"
  let ?ws = "[FBool True, FVariable SeriLengthPrefixTypeAsByte 0 0 [7, 9]]"
  have "\<forall>sh\<in>set ?shs. readable sh" "\<forall>sh\<in>set ?shs. sh \<noteq> ShTime" by simp_all
  from message_accepted_iff [OF this, of "\<lambda>e. ErrInvalidBytes" ?bs] obtain d vs where
    r: "read_chain (read_field (\<lambda>e. Some ErrInvalidBytes)) ?shs (NewDeserializer ?bs) = Some (d, vs)"
    and ws: "\<And>ws. d_err d = None \<and> d_offset d = int (length ?bs) \<and> vs = ws \<longleftrightarrow>
       map shape_of ws = ?shs \<and> (\<forall>w\<in>set ws. field_ok w) \<and> ?bs = concat (map enc_field ws)" by blast
  have "\<forall>w\<in>set ?ws. field_ok w" by code_simp
  moreover have "?bs = concat (map enc_field ?ws)" by code_simp
  ultimately have "map shape_of ?ws = ?shs \<and> (\<forall>w\<in>set ?ws. field_ok w) \<and> ?bs = concat (map enc_field ?ws)"
    unfolding list.map shape_of.simps by blast
  then have "d_err d = None \<and> d_offset d = int (length ?bs) \<and> vs = ?ws" by (rule iffD2 [OF ws])
  with r show ?thesis by blast
qed

section \<open>Refused fields\<close>

lemma writeSliceLength_eq:
  assumes "s_err s = None" and "prefix_size lt \<noteq> 0"
  shows "writeSliceLength s n lt ep =
    Some (if length_fits lt n then buf_Write (le_bytes (prefix_size lt) n) s
          else s\<lparr>s_err := ep (Some LengthOutOfRange)\<rparr>)"
proof (cases "length_fits lt n")
  case False
  then show ?thesis using assms by (cases lt) (auto simp: length_fits_def)
qed (simp add: writeSliceLength_ok [OF assms(1)] del: writeSliceLength.simps)

lemma WriteUint256_refuses:
  assumes "s_err s = None"
  shows "n < 0 \<Longrightarrow> WriteUint256 s (Some n) ep = s\<lparr>s_err := ep (Some ErrUint256NumNegative)\<rparr>"
    and "n \<ge> 2 ^ 256 \<Longrightarrow> WriteUint256 s (Some n) ep = s\<lparr>s_err := ep (Some ErrUint256TooBig)\<rparr>"
proof -
  assume n: "n \<ge> 2 ^ 256"
  then have "256 ^ 32 \<le> nat n" by (simp add: le_nat_iff)
  then have "\<not> length (big_Bytes n) \<le> 32"
    using n length_nat_le_bytes [of "nat n" 32] by (simp add: big_Bytes_def)
  with assms n show "WriteUint256 s (Some n) ep = s\<lparr>s_err := ep (Some ErrUint256TooBig)\<rparr>"
    by (simp add: WriteUint256_def byte_sizes)
qed (use assms in \<open>simp add: WriteUint256_def\<close>)

lemma write_field_eq:
  assumes "s_err s = None" and "readable (shape_of v) \<or> (\<exists>n. v = FNum n)"
  shows "\<exists>s'. write_field (\<lambda>e. Some (f e)) s v = Some s' \<and>
    s_err s' = map_option (\<lambda>e. f (Some e)) (write_error v)"
proof (cases v)
  case (FUint256 n)
  then show ?thesis
    using assms WriteUint256_refuses [of s n] WriteUint256_ok [of s n]
    by (cases "n < 0"; cases "n < 2 ^ 256") (simp_all add: buf_Write_def)
next
  case (FNum n)
  then show ?thesis using assms by (cases n) (simp_all add: WriteNum_def buf_Write_def)
next
  case (FVariable lt mn mx bs)
  then show ?thesis using assms
    by (simp add: WriteVariableByteSlice_def writeSliceLength_eq prefix_error_def Let_def buf_Write_def
        del: writeSliceLength.simps)
next
  case (FString lt mn mx bs)
  then show ?thesis using assms
    by (simp add: WriteString_def writeSliceLength_eq prefix_error_def Let_def buf_Write_def
        del: writeSliceLength.simps)
qed (use assms in \<open>simp_all add: WriteBool_def WriteByte_def WriteBytes_def WriteTime_def buf_Write_def\<close>)

lemma write_chain_err:
  assumes "s_err s = None" and "\<forall>v\<in>set vs. readable (shape_of v)"
  shows "\<exists>s'. write_chain (write_field (\<lambda>e. Some (f e))) vs s = Some s' \<and>
    s_err s' = map_option (\<lambda>e. f (Some e)) (first_error vs)"
  using assms
proof (induction vs arbitrary: s)
  case (Cons v vs)
  then obtain s' where s': "write_field (\<lambda>e. Some (f e)) s v = Some s'" "s_err s' = map_option (\<lambda>e. f (Some e)) (write_error v)"
    using write_field_eq [of s v f] by auto
  then show ?case
    using Cons field.write_chain_sticky [of s' "\<lambda>e. Some (f e)" vs] by (cases "write_error v") simp_all
qed simp

lemma TimeToUint64_last_second_wraps:
  "TimeToUint64 \<lparr>unix_sec = 9223372036, nsec = 854775808\<rparr> = 0"
  by code_simp

lemma ReadTime_above_max_is_negative:
  "map_option snd (ReadTime (NewDeserializer [0, 0, 0, 0, 0, 0, 0, 128]) \<lparr>unix_sec = 0, nsec = 0\<rparr> id) =
     Some \<lparr>unix_sec = - 9223372037, nsec = 145224192\<rparr>"
  by (simp add: ReadTime_def standing_simps [OF standing_NewDeserializer] standing_err byte_sizes Let_def
      MaxNanoTimestampInt64Seconds_def time_Unix_def NewDeserializer_def RemainingBytes_def window_def slice_from_def
      slice_range_def)

text \<open>C22: Writing any fields in a chain never panics for the supported shapes, and the first field that is out of
  its bounds decides: \<^verbatim>\<open>Serialize\<close> returns the error producer's error for it, and bytes only if every
  field is within its bounds.\<close>

theorem serialize_first_error:
  assumes "\<forall>v\<in>set vs. readable (shape_of v)"
  shows "\<exists>s. write_chain (write_field (\<lambda>e. Some (f e))) vs NewSerializer = Some s \<and>
    Serialize s = (case first_error vs of Some e \<Rightarrow> Inl (f (Some e)) | None \<Rightarrow> Inr (s_buf s))"
proof -
  obtain s where "write_chain (write_field (\<lambda>e. Some (f e))) vs NewSerializer = Some s"
    "s_err s = map_option (\<lambda>e. f (Some e)) (first_error vs)"
    using write_chain_err [OF _ assms, of NewSerializer f] by (auto simp: NewSerializer_def)
  then show ?thesis by (intro exI [of _ s]) (simp add: Serialize_def split: option.split)
qed

theorem serialize_first_error_witness:
  "\<exists>s. write_chain (write_field (\<lambda>e. Some (the e)))
       [FBool True, FUint256 (- 1), FString SeriLengthPrefixTypeAsByte 0 1 [1, 2]] NewSerializer = Some s \<and>
    Serialize s = Inl ErrUint256NumNegative"
proof -
  let ?vs = "[FBool True, FUint256 (- 1), FString SeriLengthPrefixTypeAsByte 0 1 [1, 2]]"
  have "\<forall>v\<in>set ?vs. readable (shape_of v)" by simp
  moreover have "first_error ?vs = Some ErrUint256NumNegative" by simp
  ultimately show ?thesis
    using serialize_first_error [of ?vs the] by (simp only: option.case option.sel)
qed

end
