(* ===== verification/Seri_Objects.thy ===== *)
theory Seri_Objects
  imports Seri_Codec "HOL-Library.Multiset"
begin

text \<open>
  Arrays of objects and payloads: \<^verbatim>\<open>WriteSliceOfObjects\<close> against \<^verbatim>\<open>ReadSliceOfObjects\<close> and \<^verbatim>\<open>WritePayload\<close>
  against \<^verbatim>\<open>ReadPayload\<close>. The methods of the objects are arguments; what the round trip needs of them is
  the hypothesis \<open>object_codes\<close> or \<open>payload_codes\<close>.
\<close>

section \<open>Definitions\<close>

text \<open>An array element: the object, the type in front of its encoding, and the encoding.\<close>

record 'o item =
  it_object :: 'o
  it_type :: u32
  it_bytes :: bytes

fun guard_passes :: "('x \<Rightarrow> seri_error option) option \<Rightarrow> 'x \<Rightarrow> bool" where
  "guard_passes None x \<longleftrightarrow> True"
| "guard_passes (Some g) x \<longleftrightarrow> g x = None"

text \<open>What an implementation of \<^verbatim>\<open>Serializable\<close> promises for one object: \<^verbatim>\<open>Serialize\<close> gives the encoding, and
  \<^verbatim>\<open>Deserialize\<close> fills a new object of the type with it and consumes exactly the encoding, whatever follows.\<close>

definition object_codes ::
  "('c, 'o) ser_method \<Rightarrow> ('c, 'o) deser_method \<Rightarrow> mode \<Rightarrow> 'c \<Rightarrow> TypeDenotationType \<Rightarrow> 'o ArrayRules \<Rightarrow> 'o item \<Rightarrow> bool" where
  "object_codes ser deser m ctx td ar it \<longleftrightarrow>
     ser m ctx (it_object it) = Inr (it_bytes it) \<and>
     (\<exists>new. ReadGuard ar (it_type it) = Inr new \<and>
       (\<forall>rest. GetObjectType (NewDeserializer (it_bytes it @ rest)) td = Some (Inr (it_type it)) \<and>
          deser m ctx new (it_bytes it @ rest) = Inr (it_object it, int (length (it_bytes it)))))"

definition object_allowed :: "'o ArrayRules \<Rightarrow> 'o item \<Rightarrow> bool" where
  "object_allowed ar it \<longleftrightarrow>
     guard_passes (WriteGuard ar) (it_object it) \<and> guard_passes (PostReadGuard ar) (Some (it_object it))"

definition written_order :: "mode \<Rightarrow> 'o ArrayRules \<Rightarrow> 'o item list \<Rightarrow> 'o item list" where
  "written_order m ar its =
     (if DeSeri_HasMode m DeSeriModePerformLexicalOrdering \<and>
         ArrayValidation_HasMode (ValidationMode ar) ArrayValidationModeLexicalOrdering
      then sort_key it_bytes its else its)"

definition array_allowed :: "'o ArrayRules \<Rightarrow> 'o item list \<Rightarrow> bool" where
  "array_allowed ar its \<longleftrightarrow>
     CheckBounds ar (length its) = None \<and> array_valid (ValidationMode ar) (map it_bytes its) \<and>
     MustOccur ar \<subseteq> it_type ` set its \<and> (\<forall>it\<in>set its. object_allowed ar it)"

text \<open>The same promise for a payload, which carries its type in its first four bytes; nil is written as length 0.\<close>

definition payload_codes ::
  "('c, 'o) ser_method \<Rightarrow> ('c, 'o) deser_method \<Rightarrow> mode \<Rightarrow> 'c \<Rightarrow> (u32 \<Rightarrow> seri_error + 'o) \<Rightarrow> 'o \<Rightarrow> bytes \<Rightarrow> bool" where
  "payload_codes ser deser m ctx sel p b \<longleftrightarrow>
     ser m ctx p = Inr b \<and> MinPayloadByteSize \<le> length b \<and> length b < 2 ^ 32 \<and>
     (\<exists>new. sel (word_of_nat (le_val (take 4 b))) = Inr new \<and>
        (\<forall>rest. deser m ctx new (b @ rest) = Inr (p, int (length b))))"

definition payload_bytes :: "bytes option \<Rightarrow> bytes" where
  "payload_bytes pb = (case pb of None \<Rightarrow> le_bytes 4 0 | Some b \<Rightarrow> le_bytes 4 (length b) @ b)"

text \<open>An implementation of the interface: a type byte and a value byte.\<close>

definition tagged_Serialize :: "(unit, byte \<times> byte) ser_method" where
  "tagged_Serialize m ctx o' = Inr [fst o', snd o']"

definition tagged_Deserialize :: "(unit, byte \<times> byte) deser_method" where
  "tagged_Deserialize m ctx o' bs =
     (case bs of t # v # _ \<Rightarrow> Inr ((t, v), 2) | _ \<Rightarrow> Inl ErrDeserializationNotEnoughData)"

definition tagged_rules :: "(byte \<times> byte) ArrayRules" where
  "tagged_rules = \<lparr>ar_Min = 1, ar_Max = 4, MustOccur = {1}, ReadGuard = \<lambda>ty. Inr (ucast ty, 0),
     PostReadGuard = None, WriteGuard = None,
     ValidationMode = or ArrayValidationModeNoDuplicates ArrayValidationModeLexicalOrdering\<rparr>"

text \<open>A payload of five bytes.\<close>

definition five_Serialize :: "(unit, bytes) ser_method" where
  "five_Serialize m ctx p = Inr p"

definition five_Deserialize :: "(unit, bytes) deser_method" where
  "five_Deserialize m ctx p bs =
     (if length bs < 5 then Inl ErrDeserializationNotEnoughData else Inr (take 5 bs, 5))"

section \<open>Lemmas\<close>

lemma serialize_objects_ok:
  "\<forall>it\<in>set its. object_codes ser deser m ctx td ar it \<Longrightarrow>
    DeSeri_HasMode m DeSeriModePerformValidation \<longrightarrow> (\<forall>it\<in>set its. object_allowed ar it) \<Longrightarrow>
    serialize_objects ser m ctx (WriteGuard ar) (map it_object its) = Inr (map it_bytes its)"
  by (induction its) (auto simp: object_codes_def object_allowed_def split: option.split)

lemma write_elements_ok:
  "accepts vs i bs \<Longrightarrow> write_elements vs i bs ep s = Some (buf_Write (concat bs) s)"
proof (induction bs arbitrary: vs i s)
  case (Cons b bs)
  then show ?case by (auto simp: accepts_def buf_Write_def split: option.splits sum.splits)
qed (simp add: buf_Write_def)

lemma sort_written_order: "map it_bytes (sort_key it_bytes its) = sort (map it_bytes its)"
  by (rule properties_for_sort [symmetric]) simp_all

lemma length_written_order [simp]: "length (written_order m ar its) = length its"
  and set_written_order [simp]: "set (written_order m ar its) = set its"
  by (simp_all add: written_order_def)

lemma WriteSliceOfObjects_ok:
  assumes codes: "\<forall>it\<in>set its. object_codes ser deser m ctx td ar it"
    and fits: "length_fits lt (length its)"
    and valid: "DeSeri_HasMode m DeSeriModePerformValidation \<longrightarrow> array_allowed ar (written_order m ar its)"
    and s: "s_err s = None"
  shows "WriteSliceOfObjects ser s (map it_object its) m ctx lt ar ep =
    Some (buf_Write (le_bytes (prefix_size lt) (length its) @ concat (map it_bytes (written_order m ar its))) s)"
proof -
  let ?V = "DeSeri_HasMode m DeSeriModePerformValidation"
  let ?vs = "if ?V then ElementValidationFunc ar else []"
  have ser: "serialize_objects ser m ctx (WriteGuard ar) (map it_object its) = Inr (map it_bytes its)"
    using codes valid by (intro serialize_objects_ok [where deser = deser and td = td]) (auto simp: array_allowed_def)
  have "accepts ?vs 0 (map it_bytes (written_order m ar its))"
    using valid by (simp add: accepts_ElementValidationFunc array_allowed_def)
  note w = write_elements_ok [OF this]
  have b: "(if ?V then CheckBounds ar (length its) else None) = None"
    using valid by (simp add: array_allowed_def)
  have srt: "(if DeSeri_HasMode m DeSeriModePerformLexicalOrdering \<and>
         ArrayValidation_HasMode (ValidationMode ar) ArrayValidationModeLexicalOrdering
      then sort (map it_bytes its) else map it_bytes its) = map it_bytes (written_order m ar its)"
    by (simp add: written_order_def sort_written_order)
  show ?thesis
    by (simp only: WriteSliceOfObjects_def WriteSliceOfByteSlices_def s ser b srt w Let_def length_map
        writeSliceLength_ok [OF s fits] if_False simp_thms sum.case option.case) (simp add: buf_Write_def s)
qed

lemma deserializeItem_ok:
  assumes "object_codes ser deser m ctx td ar it"
    and "DeSeri_HasMode m DeSeriModePerformValidation \<longrightarrow> object_allowed ar it"
  shows "deserializeItem deser m ctx td ar ep (os, seen) (it_bytes it @ rest) =
    Some ((os @ [Some (it_object it)],
           if DeSeri_HasMode m DeSeriModePerformValidation then insert (it_type it) seen else seen),
          Inr (int (length (it_bytes it))))"
proof -
  obtain new where new: "ReadGuard ar (it_type it) = Inr new"
    "GetObjectType (NewDeserializer (it_bytes it @ rest)) td = Some (Inr (it_type it))"
    "deser m ctx new (it_bytes it @ rest) = Inr (it_object it, int (length (it_bytes it)))"
    using assms(1) unfolding object_codes_def by blast
  have "RemainingBytes (NewDeserializer (it_bytes it @ rest)) = Some (it_bytes it @ rest)"
    by (simp add: standing_RemainingBytes [OF standing_NewDeserializer])
  with new have "readObject deser (NewDeserializer (it_bytes it @ rest)) None m ctx td (ReadGuard ar) ep =
      Some (advance (int (length (it_bytes it))) (NewDeserializer (it_bytes it @ rest)), it_type it, Some (it_object it))"
    by (simp add: readObject_def NewDeserializer_def)
  with assms(2) show ?thesis
    by (cases "PostReadGuard ar")
       (simp_all add: deserializeItem_def Done_def advance_def NewDeserializer_def object_allowed_def)
qed

lemma sequence_loop_ok:
  "standing d pre (concat (map it_bytes its) @ rest) \<Longrightarrow>
    \<forall>it\<in>set its. object_codes ser deser m ctx td ar it \<Longrightarrow>
    DeSeri_HasMode m DeSeriModePerformValidation \<longrightarrow> (\<forall>it\<in>set its. object_allowed ar it) \<Longrightarrow>
    accepts vs i (map it_bytes its) \<Longrightarrow>
    sequence_loop (deserializeItem deser m ctx td ar ep) ep (length its) i vs (os, seen) d =
      Some ((os @ map (Some \<circ> it_object) its,
             if DeSeri_HasMode m DeSeriModePerformValidation then seen \<union> it_type ` set its else seen),
            advance (int (length (concat (map it_bytes its)))) d)"
proof (induction its arbitrary: d pre i vs os seen)
  case (Cons it its)
  let ?b = "it_bytes it" and ?rest = "concat (map it_bytes its) @ rest"
  have st: "standing d pre (?b @ ?rest)" using Cons.prems(1) by simp
  have item: "deserializeItem deser m ctx td ar ep (os, seen) (?b @ ?rest) =
    Some ((os @ [Some (it_object it)],
           if DeSeri_HasMode m DeSeriModePerformValidation then insert (it_type it) seen else seen),
          Inr (int (length ?b)))"
    using Cons.prems(2,3) by (intro deserializeItem_ok [of ser]) simp_all
  obtain vs' where vs': "run_validators vs i ?b = Some (Inr vs')" "accepts vs' (Suc i) (map it_bytes its)"
    using Cons.prems(4) by (auto simp: accepts_def split: option.splits sum.splits)
  have "slice_range (?b @ ?rest) 0 (int (length ?b)) = Some ?b"
    using slice_range_nat [of 0 "length ?b" "?b @ ?rest"] by simp
  with vs' have step: "sequence_loop (deserializeItem deser m ctx td ar ep) ep (length (it # its)) i vs (os, seen) d =
      sequence_loop (deserializeItem deser m ctx td ar ep) ep (length its) (Suc i) vs'
        (os @ [Some (it_object it)],
           if DeSeri_HasMode m DeSeriModePerformValidation then insert (it_type it) seen else seen)
        (advance (int (length ?b)) d)"
    using item by (cases vs) (simp_all add: standing_RemainingBytes [OF st])
  note IH = Cons.IH [OF standing_advance_append [OF st] _ _ vs'(2)]
  show ?case unfolding step using Cons.prems(2,3) by (subst IH) (auto simp: advance_advance)
qed simp

text \<open>The result of reading an array: nil stays when there are no elements.\<close>

lemma ReadSliceOfObjects_ok:
  assumes codes: "\<forall>it\<in>set its. object_codes ser deser m ctx td ar it"
    and fits: "length_fits lt (length its)"
    and valid: "DeSeri_HasMode m DeSeriModePerformValidation \<longrightarrow> array_allowed ar its"
    and d: "standing d pre (le_bytes (prefix_size lt) (length its) @ concat (map it_bytes its) @ rest)"
  shows "ReadSliceOfObjects deser d None m ctx lt td ar ep =
    Some (advance (int (prefix_size lt + length (concat (map it_bytes its)))) d,
          if its = [] then None else Some (map (Some \<circ> it_object) its))"
proof -
  let ?V = "DeSeri_HasMode m DeSeriModePerformValidation"
  let ?vs = "if ?V then ElementValidationFunc ar else []" and ?d = "advance (int (prefix_size lt)) d"
  have acc: "accepts ?vs 0 (map it_bytes its)"
    using valid by (simp add: accepts_ElementValidationFunc array_allowed_def)
  have st: "standing ?d (pre @ le_bytes (prefix_size lt) (length its)) (concat (map it_bytes its) @ rest)"
    using standing_advance_append [OF d] by (simp add: length_le_bytes)
  have b: "(if ?V then CheckBounds ar (length its) else None) = None"
    using valid by (simp add: array_allowed_def)
  have "ReadSequenceOfObjects (deserializeItem deser m ctx td ar ep) d ([], {}) m lt ar ep =
    Some (([] @ map (Some \<circ> it_object) its, if ?V then {} \<union> it_type ` set its else {}),
          advance (int (length (concat (map it_bytes its)))) ?d)"
    using sequence_loop_ok [OF st codes _ acc, of ep "[]" "{}"] valid
    by (simp add: ReadSequenceOfObjects_def standing_err [OF d] readSliceLength_ok [OF d fits] b Let_def array_allowed_def)
  then show ?thesis using valid
    by (auto simp: ReadSliceOfObjects_def standing_err [OF d] TypePrefixes_Subset_def array_allowed_def advance_advance)
qed

lemma WritePayload_ok:
  assumes "s_err s = None" and "payload_codes ser deser m ctx sel p b" and "guard_passes guard p"
  shows "WritePayload ser s (Some p) m ctx guard ep = buf_Write (payload_bytes (Some b)) s"
proof -
  have "unat (word_of_nat (length b) :: u32) = length b"
    using assms(2) by (simp add: payload_codes_def unat_of_nat)
  with assms show ?thesis
    by (cases guard) (simp_all add: WritePayload_def payload_codes_def payload_bytes_def writePayloadLength_def buf_Write_def)
qed

lemma ReadPayloadLength_ok:
  assumes d: "standing d pre (le_bytes 4 n @ rest)" and "n < 2 ^ 32"
  shows "ReadPayloadLength d = Some (advance 4 d, Inr (word_of_nat n))"
proof -
  have "le_val (le_bytes 4 n) = n" using assms(2) by (simp add: le_val_le_bytes)
  moreover have "take 4 (le_bytes 4 n @ rest) = le_bytes 4 n" by (simp add: length_le_bytes)
  ultimately show ?thesis
    by (simp add: ReadPayloadLength_def standing_RemainingBytes [OF d] byte_sizes length_le_bytes)
qed

lemma ReadPayload_ok:
  assumes d: "standing d pre (payload_bytes (Some b) @ rest)" and p: "payload_codes ser deser m ctx sel p b"
  shows "ReadPayload deser d target m ctx sel ep = Some (advance (int (length (payload_bytes (Some b)))) d, Some p)"
proof -
  let ?n = "word_of_nat (length b) :: u32"
  from p obtain new where b: "MinPayloadByteSize \<le> length b" "length b < 2 ^ 32"
    "sel (word_of_nat (le_val (take 4 b))) = Inr new" "deser m ctx new (b @ rest) = Inr (p, int (length b))"
    unfolding payload_codes_def by blast
  have d0: "standing d pre (le_bytes 4 (length b) @ b @ rest)" using d by (simp add: payload_bytes_def)
  have d1: "standing (advance 4 d) (pre @ le_bytes 4 (length b)) (b @ rest)"
    using standing_advance_append [OF d0] by (simp add: length_le_bytes)
  have n: "unat ?n = length b" "?n \<noteq> 0" using b(1,2) by (auto simp: unat_of_nat byte_sizes word_unat_eq_iff)
  have "4 - length b = 0" using b(1) by (simp add: byte_sizes)
  with b n show ?thesis
    by (simp add: ReadPayload_def standing_err [OF d] ReadPayloadLength_ok [OF d0] standing_RemainingBytes [OF d1]
        payload_bytes_def length_le_bytes advance_advance)
qed

lemma ReadPayload_nil:
  assumes d: "standing d pre (payload_bytes None @ rest)"
  shows "ReadPayload deser d target m ctx sel ep = Some (advance (int (length (payload_bytes None))) d, target)"
proof -
  have d0: "standing d pre (le_bytes 4 0 @ rest)" using d by (simp add: payload_bytes_def)
  show ?thesis
    using ReadPayloadLength_ok [OF d0]
    by (simp add: ReadPayload_def standing_err [OF d] payload_bytes_def length_le_bytes)
qed

section \<open>Properties\<close>

text \<open>C17: Objects whose methods keep the promise of \<^verbatim>\<open>Serializable\<close>, in an array that satisfies its rules, are
  written without an error: the length prefix and the encodings, in lexical order when the mode and the rules
  ask for it. Reading the array back gives the same objects in the written order, consumes
  exactly these bytes and reports no error; without elements the target stays nil.\<close>

theorem objects_round_trip:
  assumes codes: "\<forall>it\<in>set its. object_codes ser deser m ctx td ar it"
    and fits: "length_fits lt (length its)"
    and valid: "DeSeri_HasMode m DeSeriModePerformValidation \<longrightarrow> array_allowed ar (written_order m ar its)"
  shows "\<exists>s d. WriteSliceOfObjects ser NewSerializer (map it_object its) m ctx lt ar ep = Some s
      \<and> Serialize s = Inr (le_bytes (prefix_size lt) (length its) @ concat (map it_bytes (written_order m ar its)))
      \<and> ReadSliceOfObjects deser (NewDeserializer (s_buf s)) None m ctx lt td ar ep'
        = Some (d, if its = [] then None else Some (map (Some \<circ> it_object) (written_order m ar its)))
      \<and> Done d = (int (length (s_buf s)), None)"
proof -
  let ?ord = "written_order m ar its"
  let ?bs = "le_bytes (prefix_size lt) (length its) @ concat (map it_bytes ?ord)"
  let ?s = "buf_Write ?bs NewSerializer"
  have "WriteSliceOfObjects ser NewSerializer (map it_object its) m ctx lt ar ep = Some ?s"
    by (rule WriteSliceOfObjects_ok [OF assms]) (simp add: NewSerializer_def)
  moreover have s: "s_buf ?s = ?bs" "Serialize ?s = Inr ?bs"
    by (simp_all add: buf_Write_def NewSerializer_def Serialize_def)
  moreover have "ReadSliceOfObjects deser (NewDeserializer ?bs) None m ctx lt td ar ep' =
      Some (advance (int (length ?bs)) (NewDeserializer ?bs),
            if ?ord = [] then None else Some (map (Some \<circ> it_object) ?ord))"
    using ReadSliceOfObjects_ok [of ?ord ser deser m ctx td ar lt "NewDeserializer ?bs" "[]" "[]" ep']
      standing_NewDeserializer [of ?bs] codes fits valid by (simp add: length_le_bytes)
  moreover have "?ord = [] \<longleftrightarrow> its = []" using length_written_order [of m ar its] by (metis length_0_conv)
  ultimately show ?thesis
    by (intro exI [of _ ?s] exI [of _ "advance (int (length ?bs)) (NewDeserializer ?bs)"])
       (simp add: Done_def advance_def NewDeserializer_def)
qed

theorem objects_round_trip_witness:
  "\<exists>s d. WriteSliceOfObjects tagged_Serialize NewSerializer [(2, 7), (1, 9)]
        (or DeSeriModePerformValidation DeSeriModePerformLexicalOrdering) () SeriLengthPrefixTypeAsByte tagged_rules id = Some s
      \<and> Serialize s = Inr [2, 1, 9, 2, 7]
      \<and> ReadSliceOfObjects tagged_Deserialize (NewDeserializer (s_buf s)) None
          (or DeSeriModePerformValidation DeSeriModePerformLexicalOrdering) () SeriLengthPrefixTypeAsByte
          TypeDenotationByte tagged_rules id = Some (d, Some [Some (1, 9), Some (2, 7)])
      \<and> Done d = (int (length (s_buf s)), None)"
proof -
  let ?its = "[\<lparr>it_object = (2, 7), it_type = 2, it_bytes = [2, 7]\<rparr>,
    \<lparr>it_object = (1, 9), it_type = 1, it_bytes = [1, 9]\<rparr>] :: (byte \<times> byte) item list"
  let ?m = "or DeSeriModePerformValidation DeSeriModePerformLexicalOrdering"
  have "\<forall>it\<in>set ?its. object_codes tagged_Serialize tagged_Deserialize ?m () TypeDenotationByte tagged_rules it"
    by (simp add: object_codes_def tagged_Serialize_def tagged_Deserialize_def tagged_rules_def GetObjectType_def
        standing_RemainingBytes [OF standing_NewDeserializer])
  moreover have "length_fits SeriLengthPrefixTypeAsByte (length ?its)" by (simp add: length_fits_def)
  moreover have ord: "written_order ?m tagged_rules ?its = rev ?its" by code_simp
  moreover have "array_allowed tagged_rules (rev ?its)" by code_simp
  ultimately show ?thesis
    using objects_round_trip [of ?its tagged_Serialize tagged_Deserialize ?m "()" TypeDenotationByte tagged_rules
        SeriLengthPrefixTypeAsByte id id] by simp
qed

text \<open>A payload whose methods keep the promise of \<^verbatim>\<open>Serializable\<close>, or a nil payload, is written as its
  32-bit length followed by its encoding, and reading it back from these bytes, whatever follows them,
  gives the payload (the target stays as it is for nil) and moves the offset by exactly these bytes.\<close>

theorem payload_round_trip:
  assumes "s_err s = None" and "standing d pre (payload_bytes (map_option snd pb) @ rest)"
    and "\<forall>(p, b) \<in> set_option pb. payload_codes ser deser m ctx sel p b \<and> guard_passes guard p"
  shows "WritePayload ser s (map_option fst pb) m ctx guard ep = buf_Write (payload_bytes (map_option snd pb)) s
    \<and> ReadPayload deser d None m ctx sel ep'
      = Some (advance (int (length (payload_bytes (map_option snd pb)))) d, map_option fst pb)"
proof (cases pb)
  case None
  with assms show ?thesis
    using ReadPayload_nil [of d pre rest deser None m ctx sel ep']
    by (simp add: WritePayload_def payload_bytes_def writePayloadLength_def)
next
  case (Some x)
  with assms show ?thesis
    using WritePayload_ok ReadPayload_ok by (cases x) fastforce
qed

theorem payload_round_trip_witness:
  "WritePayload five_Serialize NewSerializer (Some [1, 0, 0, 0, 9]) 0 () None id
     = buf_Write (payload_bytes (Some [1, 0, 0, 0, 9])) NewSerializer
   \<and> ReadPayload five_Deserialize (NewDeserializer (payload_bytes (Some [1, 0, 0, 0, 9]) @ [4, 4])) None 0 ()
        (\<lambda>ty. if ty = 1 then Inr [] else Inl ErrInvalidBytes) id
     = Some (advance (int (length (payload_bytes (Some [1, 0, 0, 0, 9]))))
          (NewDeserializer (payload_bytes (Some [1, 0, 0, 0, 9]) @ [4, 4])), Some [1, 0, 0, 0, 9])"
proof -
  let ?b = "[1, 0, 0, 0, 9] :: bytes"
  have "payload_codes five_Serialize five_Deserialize 0 () (\<lambda>ty. if ty = 1 then Inr [] else Inl ErrInvalidBytes) ?b ?b"
    by (simp add: payload_codes_def five_Serialize_def five_Deserialize_def byte_sizes)
  then show ?thesis
    using payload_round_trip [of NewSerializer "NewDeserializer (payload_bytes (Some ?b) @ [4, 4])" "[]" "Some (?b, ?b)" "[4, 4]"
        five_Serialize five_Deserialize 0 "()" "\<lambda>ty. if ty = 1 then Inr [] else Inl ErrInvalidBytes" None id id]
      standing_NewDeserializer by (simp add: NewSerializer_def)
qed

end
