(* ===== verification/Refinement.thy ===== *)
theory Refinement
  imports Hive_Prelude
begin

text \<open>
  Histories of a component. A component is a step function that takes its state and an operation, and
  returns its new state and the result of the operation, or \<^term>\<open>None\<close> where the source panics or blocks.
  Its specification is a total step function on an abstract state. The locale \<open>data_refinement\<close> is the
  contract between the two; its lemmas lift the contract from one operation to every sequence of operations.
\<close>

section \<open>Definitions\<close>

fun run_ops :: "('s \<Rightarrow> 'o \<Rightarrow> ('s \<times> 'r) option) \<Rightarrow> 's \<Rightarrow> 'o list \<Rightarrow> ('s \<times> 'r list) option" where
  "run_ops step s [] = Some (s, [])"
| "run_ops step s (op # ops) = do {
     (s, r) \<leftarrow> step s op;
     (s, rs) \<leftarrow> run_ops step s ops;
     Some (s, r # rs)
   }"

fun run_spec :: "('a \<Rightarrow> 'o \<Rightarrow> 'a \<times> 'r) \<Rightarrow> 'a \<Rightarrow> 'o list \<Rightarrow> 'a \<times> 'r list" where
  "run_spec step a [] = (a, [])"
| "run_spec step a (op # ops) =
     (let (a, r) = step a op; (a, rs) = run_spec step a ops in (a, r # rs))"

text \<open>A specification that leaves choices open: the abstract steps that it allows.\<close>

inductive allowed_run :: "('a \<Rightarrow> 'o \<Rightarrow> 'a \<Rightarrow> 'r \<Rightarrow> bool) \<Rightarrow> 'a \<Rightarrow> 'o list \<Rightarrow> 'r list \<Rightarrow> 'a \<Rightarrow> bool"
  for allows :: "'a \<Rightarrow> 'o \<Rightarrow> 'a \<Rightarrow> 'r \<Rightarrow> bool" where
  allowed_nil: "allowed_run allows a [] [] a"
| allowed_cons: "allows a op a1 r \<Longrightarrow> allowed_run allows a1 ops rs a2 \<Longrightarrow> allowed_run allows a (op # ops) (r # rs) a2"

inductive_cases allowed_nilE: "allowed_run allows a [] rs a'"
inductive_cases allowed_consE: "allowed_run allows a (op # ops) rs a'"

section \<open>Lemmas\<close>

lemma run_ops_cong: "(\<And>op s. op \<in> set ops \<Longrightarrow> f s op = g s op) \<Longrightarrow> run_ops f s ops = run_ops g s ops"
proof (induction ops arbitrary: s)
  case (Cons op ops)
  then have "f s op = g s op" and "run_ops f s' ops = run_ops g s' ops" for s' by simp_all
  then show ?case by simp
qed simp

lemma run_spec_cong: "(\<And>op s. op \<in> set ops \<Longrightarrow> f s op = g s op) \<Longrightarrow> run_spec f s ops = run_spec g s ops"
  by (induction ops arbitrary: s) (auto simp: case_prod_beta)

section \<open>The contract\<close>

text \<open>A state represents an abstract state through a relation, and every operation keeps it.\<close>

locale data_simulation =
  fixes cstep :: "'s \<Rightarrow> 'o \<Rightarrow> ('s \<times> 'r) option"
    and astep :: "'a \<Rightarrow> 'o \<Rightarrow> 'a \<times> 'r"
    and rel :: "'s \<Rightarrow> 'a \<Rightarrow> bool"
  assumes step_simulates: "rel s a \<Longrightarrow> \<exists>s'. cstep s op = Some (s', snd (astep a op)) \<and> rel s' (fst (astep a op))"
begin

lemma run_simulates:
  "rel s a \<Longrightarrow> \<exists>s'. run_ops cstep s ops = Some (s', snd (run_spec astep a ops)) \<and> rel s' (fst (run_spec astep a ops))"
proof (induction ops arbitrary: s a)
  case (Cons op ops)
  obtain s1 where s1: "cstep s op = Some (s1, snd (astep a op))" "rel s1 (fst (astep a op))"
    using step_simulates [OF Cons.prems] by blast
  from Cons.IH [OF s1(2)] obtain s2 where
    "run_ops cstep s1 ops = Some (s2, snd (run_spec astep (fst (astep a op)) ops))"
    "rel s2 (fst (run_spec astep (fst (astep a op)) ops))" by blast
  with s1 show ?case by (simp add: case_prod_beta Let_def)
qed simp

lemma run_total: "rel s a \<Longrightarrow> run_ops cstep s ops \<noteq> None"
  using run_simulates [of s a ops] by auto

end

text \<open>The common case: the abstract state is a function of the state, for the states that satisfy an invariant.\<close>

locale data_refinement =
  fixes cstep :: "'s \<Rightarrow> 'o \<Rightarrow> ('s \<times> 'r) option"
    and astep :: "'a \<Rightarrow> 'o \<Rightarrow> 'a \<times> 'r"
    and abs :: "'s \<Rightarrow> 'a"
    and inv :: "'s \<Rightarrow> bool"
  assumes step_refines: "inv s \<Longrightarrow>
    \<exists>s'. cstep s op = Some (s', snd (astep (abs s) op)) \<and> inv s' \<and> abs s' = fst (astep (abs s) op)"

sublocale data_refinement \<subseteq> sim: data_simulation cstep astep "\<lambda>s a. inv s \<and> abs s = a"
  using step_refines by unfold_locales blast

context data_refinement
begin

lemma run_refines:
  "inv s \<Longrightarrow> \<exists>s'. run_ops cstep s ops = Some (s', snd (run_spec astep (abs s) ops)) \<and> inv s' \<and>
     abs s' = fst (run_spec astep (abs s) ops)"
  using sim.run_simulates [of s "abs s" ops] by blast

end

text \<open>The same contract for a specification that leaves choices open.\<close>

locale nondet_simulation =
  fixes cstep :: "'s \<Rightarrow> 'o \<Rightarrow> ('s \<times> 'r) option"
    and allows :: "'a \<Rightarrow> 'o \<Rightarrow> 'a \<Rightarrow> 'r \<Rightarrow> bool"
    and rel :: "'s \<Rightarrow> 'a \<Rightarrow> bool"
  assumes step_allowed: "rel s a \<Longrightarrow> \<exists>s' r a'. cstep s op = Some (s', r) \<and> allows a op a' r \<and> rel s' a'"
begin

lemma run_allowed: "rel s a \<Longrightarrow> \<exists>s' rs a'. run_ops cstep s ops = Some (s', rs) \<and> allowed_run allows a ops rs a' \<and> rel s' a'"
proof (induction ops arbitrary: s a)
  case Nil
  then show ?case using allowed_nil [of allows a] by auto
next
  case (Cons op ops)
  obtain s1 r a1 where s1: "cstep s op = Some (s1, r)" "allows a op a1 r" "rel s1 a1"
    using step_allowed [OF Cons.prems] by blast
  from Cons.IH [OF s1(3)] obtain s2 rs a2 where
    "run_ops cstep s1 ops = Some (s2, rs)" "allowed_run allows a1 ops rs a2" "rel s2 a2" by blast
  then show ?case using s1 allowed_cons [of allows a op a1 r ops rs a2] by auto
qed

end

sublocale data_simulation \<subseteq> allowing: nondet_simulation cstep "\<lambda>a op a' r. (a', r) = astep a op" rel
  using step_simulates by unfold_locales (metis prod.collapse)

end
