(* ===== verification/Ring_Queues.thy ===== *)
theory Ring_Queues
  imports Refinement
begin

text \<open>
  The bounded queue of \<^verbatim>\<open>ds/queue/queue.go\<close> and the ring buffer of \<^verbatim>\<open>ds/ringbuffer/ringbuffer.go\<close>, both over a
  Go slice that is addressed modulo the capacity. Every exported method holds the mutex for its whole
  body, so it is one step. The zero value of the element type is the argument \<open>zero\<close>.
\<close>

section \<open>Definitions\<close>

subsection \<open>Queue\<close>

record 'a Queue =
  ringBuffer :: "'a list"
  q_read :: nat
  q_write :: nat
  q_capacity :: nat
  q_size :: nat

definition Queue_New :: "'a \<Rightarrow> int \<Rightarrow> 'a Queue option" where
  "Queue_New zero cap = do {
     buf \<leftarrow> go_make zero cap;
     Some \<lparr>ringBuffer = buf, q_read = 0, q_write = 0, q_capacity = nat cap, q_size = 0\<rparr>
   }"

definition Queue_Size :: "'a Queue \<Rightarrow> nat" where
  "Queue_Size q = q_size q"

definition Queue_Capacity :: "'a Queue \<Rightarrow> nat" where
  "Queue_Capacity q = q_capacity q"

definition Queue_poll :: "'a \<Rightarrow> 'a Queue \<Rightarrow> ('a Queue \<times> 'a \<times> bool) option" where
  "Queue_poll zero q =
     (if q_size q = 0 then Some (q, zero, False)
      else do {
        element \<leftarrow> slice_index (ringBuffer q) (int (q_read q));
        buf \<leftarrow> slice_store (ringBuffer q) (int (q_read q)) zero;
        Some (q\<lparr>ringBuffer := buf, q_read := (q_read q + 1) mod q_capacity q, q_size := q_size q - 1\<rparr>, element, True)
      })"

text \<open>The three statements \<^verbatim>\<open>Offer\<close> and \<^verbatim>\<open>ForceOffer\<close> share.\<close>

definition Queue_put :: "'a \<Rightarrow> 'a Queue \<Rightarrow> 'a Queue option" where
  "Queue_put element q = do {
     buf \<leftarrow> slice_store (ringBuffer q) (int (q_write q)) element;
     Some (q\<lparr>ringBuffer := buf, q_write := (q_write q + 1) mod q_capacity q, q_size := q_size q + 1\<rparr>)
   }"

definition Queue_ForceOffer :: "'a \<Rightarrow> 'a Queue \<Rightarrow> 'a \<Rightarrow> ('a Queue \<times> 'a \<times> bool) option" where
  "Queue_ForceOffer zero q element = do {
     (q, removedElement, wasRemoved) \<leftarrow>
       (if q_size q = q_capacity q then Queue_poll zero q else Some (q, zero, False));
     q \<leftarrow> Queue_put element q;
     Some (q, removedElement, wasRemoved)
   }"

definition Queue_Offer :: "'a Queue \<Rightarrow> 'a \<Rightarrow> ('a Queue \<times> bool) option" where
  "Queue_Offer q element =
     (if q_size q = q_capacity q then Some (q, False)
      else do { q \<leftarrow> Queue_put element q; Some (q, True) })"

definition Queue_Poll :: "'a \<Rightarrow> 'a Queue \<Rightarrow> ('a Queue \<times> 'a \<times> bool) option" where
  "Queue_Poll zero q = Queue_poll zero q"

text \<open>The elements of the queue, oldest first, and its invariant: the write index follows them, and the slots
  outside of them hold the zero value, so that a polled element is not kept alive.\<close>

definition queue_elements :: "'a Queue \<Rightarrow> 'a list" where
  "queue_elements q = map (\<lambda>i. ringBuffer q ! ((q_read q + i) mod q_capacity q)) [0..<q_size q]"

definition queue_inv :: "'a \<Rightarrow> 'a Queue \<Rightarrow> bool" where
  "queue_inv zero q \<longleftrightarrow>
     length (ringBuffer q) = q_capacity q \<and> 0 < q_capacity q \<and> q_size q \<le> q_capacity q \<and>
     q_read q < q_capacity q \<and> q_write q = (q_read q + q_size q) mod q_capacity q \<and>
     (\<forall>i. q_size q \<le> i \<and> i < q_capacity q \<longrightarrow> ringBuffer q ! ((q_read q + i) mod q_capacity q) = zero)"

subsection \<open>Specification of a bounded queue\<close>

datatype 'a queue_op = OpOffer 'a | OpForceOffer 'a | OpPoll | OpSize | OpCapacity

datatype 'a queue_result = Accepted bool | Removed 'a bool | Number nat

fun queue_step :: "'a \<Rightarrow> 'a Queue \<Rightarrow> 'a queue_op \<Rightarrow> ('a Queue \<times> 'a queue_result) option" where
  "queue_step zero q (OpOffer e) = map_option (\<lambda>(q, ok). (q, Accepted ok)) (Queue_Offer q e)"
| "queue_step zero q (OpForceOffer e) = map_option (\<lambda>(q, x, ok). (q, Removed x ok)) (Queue_ForceOffer zero q e)"
| "queue_step zero q OpPoll = map_option (\<lambda>(q, x, ok). (q, Removed x ok)) (Queue_Poll zero q)"
| "queue_step zero q OpSize = Some (q, Number (Queue_Size q))"
| "queue_step zero q OpCapacity = Some (q, Number (Queue_Capacity q))"

text \<open>The abstract state is the capacity and the elements, oldest first.\<close>

fun fifo_step :: "'a \<Rightarrow> nat \<times> 'a list \<Rightarrow> 'a queue_op \<Rightarrow> (nat \<times> 'a list) \<times> 'a queue_result" where
  "fifo_step zero (cap, xs) (OpOffer e) =
     (if length xs = cap then ((cap, xs), Accepted False) else ((cap, xs @ [e]), Accepted True))"
| "fifo_step zero (cap, xs) (OpForceOffer e) =
     (if length xs = cap then ((cap, tl xs @ [e]), Removed (hd xs) True) else ((cap, xs @ [e]), Removed zero False))"
| "fifo_step zero (cap, xs) OpPoll =
     (if xs = [] then ((cap, xs), Removed zero False) else ((cap, tl xs), Removed (hd xs) True))"
| "fifo_step zero (cap, xs) OpSize = ((cap, xs), Number (length xs))"
| "fifo_step zero (cap, xs) OpCapacity = ((cap, xs), Number cap)"

definition queue_abs :: "'a Queue \<Rightarrow> nat \<times> 'a list" where
  "queue_abs q = (q_capacity q, queue_elements q)"

text \<open>The elements that entered and the elements that left, in the order of the operations.\<close>

fun entered :: "'a queue_op \<Rightarrow> 'a queue_result \<Rightarrow> 'a list" where
  "entered (OpOffer e) r = (if r = Accepted True then [e] else [])"
| "entered (OpForceOffer e) r = [e]"
| "entered _ r = []"

fun left_queue :: "'a queue_result \<Rightarrow> 'a list" where
  "left_queue (Removed x True) = [x]"
| "left_queue _ = []"

subsection \<open>Ring buffer\<close>

record 'a RingBuffer =
  rb_buffer :: "'a list"
  rb_pos :: nat
  rb_capacity :: nat
  rb_size :: nat

definition NewRingBuffer :: "'a \<Rightarrow> int \<Rightarrow> 'a RingBuffer option" where
  "NewRingBuffer zero cap = do {
     buf \<leftarrow> go_make zero cap;
     Some \<lparr>rb_buffer = buf, rb_pos = 0, rb_capacity = nat cap, rb_size = 0\<rparr>
   }"

definition RingBuffer_Add :: "'a RingBuffer \<Rightarrow> 'a \<Rightarrow> ('a RingBuffer \<times> bool) option" where
  "RingBuffer_Add r element = do {
     buf \<leftarrow> slice_store (rb_buffer r) (int (rb_pos r)) element;
     Some (r\<lparr>rb_buffer := buf, rb_pos := (rb_pos r + 1) mod rb_capacity r,
             rb_size := (if rb_size r < rb_capacity r then rb_size r + 1 else rb_size r)\<rparr>, True)
   }"

text \<open>The loop walks backwards from the position of the newest element and wraps at the start.\<close>

fun RingBuffer_collect :: "'a RingBuffer \<Rightarrow> int \<Rightarrow> nat \<Rightarrow> 'a list option" where
  "RingBuffer_collect r i 0 = Some []"
| "RingBuffer_collect r i (Suc n) = do {
     x \<leftarrow> slice_index (rb_buffer r) i;
     let i = i - 1;
     let i = (if i < 0 then int (rb_capacity r) - 1 else i);
     xs \<leftarrow> RingBuffer_collect r i n;
     Some (x # xs)
   }"

definition RingBuffer_ToSlice :: "'a RingBuffer \<Rightarrow> 'a list option" where
  "RingBuffer_ToSlice r =
     (let i = int (rb_pos r) - 1;
          i = (if i < 0 then int (rb_capacity r) - 1 else i)
      in RingBuffer_collect r i (rb_size r))"

text \<open>The buffer holds the newest of the elements added so far, \<open>hist\<close> with the newest first.\<close>

definition ring_holds :: "'a RingBuffer \<Rightarrow> 'a list \<Rightarrow> bool" where
  "ring_holds r hist \<longleftrightarrow>
     length (rb_buffer r) = rb_capacity r \<and> 0 < rb_capacity r \<and> rb_size r = min (length hist) (rb_capacity r) \<and>
     rb_pos r = length hist mod rb_capacity r \<and>
     (\<forall>j < rb_size r. rb_buffer r ! ((length hist - Suc j) mod rb_capacity r) = hist ! j)"

section \<open>Lemmas\<close>

subsection \<open>Indices of the ring\<close>

lemma mod_add_eq_iff:
  assumes "i < n" "j < n"
  shows "(r + i) mod n = (r + j) mod n \<longleftrightarrow> i = (j :: nat)"
proof -
  have "a = b" if "a \<le> b" "b < n" "(r + a) mod n = (r + b) mod n" for a b :: nat
  proof -
    have "n dvd (r + b) - (r + a)" using that mod_eq_dvd_iff_nat [of "r + a" "r + b" n] by simp
    then have "n dvd b - a" by simp
    with that show ?thesis by (meson dvd_imp_le le_antisym less_le_trans not_le zero_less_diff diff_le_self)
  qed
  then show ?thesis using assms by (metis linear)
qed

lemma ring_index: "queue_inv zero q \<Longrightarrow> i mod q_capacity q < length (ringBuffer q)"
  by (simp add: queue_inv_def)

lemma queue_nth:
  "i < q_size q \<Longrightarrow> queue_elements q ! i = ringBuffer q ! ((q_read q + i) mod q_capacity q)"
  by (simp add: queue_elements_def)

lemma length_queue_elements [simp]: "length (queue_elements q) = q_size q"
  by (simp add: queue_elements_def)

lemma Queue_put_ok:
  assumes inv: "queue_inv zero q" and room: "q_size q < q_capacity q"
  shows "\<exists>q'. Queue_put e q = Some q' \<and> queue_inv zero q' \<and> q_capacity q' = q_capacity q \<and>
    queue_elements q' = queue_elements q @ [e]"
proof -
  let ?w = "(q_read q + q_size q) mod q_capacity q"
  let ?q = "q\<lparr>ringBuffer := (ringBuffer q)[?w := e], q_write := (?w + 1) mod q_capacity q, q_size := q_size q + 1\<rparr>"
  have w: "q_write q = ?w" and len: "length (ringBuffer q) = q_capacity q" using inv by (simp_all add: queue_inv_def)
  have put: "Queue_put e q = Some ?q" using room by (simp add: Queue_put_def w len)
  have other: "?w \<noteq> (q_read q + i) mod q_capacity q" if "i < q_capacity q" "i \<noteq> q_size q" for i
    using that room by (simp add: mod_add_eq_iff)
  have "queue_inv zero ?q"
    using inv room other by (auto simp: queue_inv_def mod_Suc_eq Suc_le_eq)
  moreover have "queue_elements ?q = queue_elements q @ [e]"
    using room other len by (simp add: queue_elements_def)
  ultimately show ?thesis using put by fastforce
qed

lemma Queue_poll_ok:
  assumes inv: "queue_inv zero q" and some: "queue_elements q = e # es"
  shows "\<exists>q'. Queue_poll zero q = Some (q', e, True) \<and> queue_inv zero q' \<and> q_capacity q' = q_capacity q \<and>
    queue_elements q' = es"
proof -
  let ?q = "q\<lparr>ringBuffer := (ringBuffer q)[q_read q := zero], q_read := (q_read q + 1) mod q_capacity q,
      q_size := q_size q - 1\<rparr>"
  from inv have len: "length (ringBuffer q) = q_capacity q" and r: "q_read q < q_capacity q"
    and s: "q_size q \<le> q_capacity q" by (simp_all add: queue_inv_def)
  have size: "q_size q = Suc (length es)" using some length_queue_elements [of q] by simp
  have nth: "ringBuffer q ! ((q_read q + i) mod q_capacity q) = (e # es) ! i" if "i < q_size q" for i
    using queue_nth [OF that] some by simp
  have e: "ringBuffer q ! q_read q = e" using nth [of 0] size r by simp
  have poll: "Queue_poll zero q = Some (?q, e, True)" using size r e by (simp add: Queue_poll_def len)
  have other: "(q_read q + i) mod q_capacity q \<noteq> q_read q" if "0 < i" "i < q_capacity q" for i
    using that r mod_add_eq_iff [of i "q_capacity q" 0 "q_read q"] by simp
  have "queue_elements ?q = es"
  proof (rule nth_equalityI)
    show "length (queue_elements ?q) = length es" using size by simp
    fix i assume "i < length (queue_elements ?q)"
    with size s other [of "Suc i"] nth [of "Suc i"] show "queue_elements ?q ! i = es ! i"
      by (simp add: queue_nth mod_simps)
  qed
  moreover have "queue_inv zero ?q"
  proof -
    have "(ringBuffer q)[q_read q := zero] ! ((q_read q + Suc i) mod q_capacity q) = zero"
      if "q_size q \<le> Suc i" "i < q_capacity q" for i
    proof (cases "Suc i = q_capacity q")
      case True
      then show ?thesis using r len by simp
    next
      case False
      with that have "ringBuffer q ! ((q_read q + Suc i) mod q_capacity q) = zero"
        using inv unfolding queue_inv_def by (meson Suc_lessI)
      with False that other [of "Suc i"] show ?thesis by simp
    qed
    with inv size show ?thesis by (simp add: queue_inv_def mod_simps)
  qed
  ultimately show ?thesis using poll by fastforce
qed


subsection \<open>Refinement\<close>

lemma queue_inv_size: "queue_inv zero q \<Longrightarrow> q_size q \<le> q_capacity q \<and> 0 < q_capacity q"
  by (simp add: queue_inv_def)

lemma Queue_poll_empty: "queue_elements q = [] \<Longrightarrow> Queue_poll zero q = Some (q, zero, False)"
  by (simp add: Queue_poll_def flip: length_queue_elements)

interpretation queue: data_refinement "queue_step zero" "fifo_step zero" queue_abs "queue_inv zero"
proof
  fix q :: "'a Queue" and op
  assume inv: "queue_inv zero q"
  note size = queue_inv_size [OF inv]
  show "\<exists>q'. queue_step zero q op = Some (q', snd (fifo_step zero (queue_abs q) op)) \<and> queue_inv zero q' \<and>
          queue_abs q' = fst (fifo_step zero (queue_abs q) op)"
  proof (cases op)
    case (OpOffer e)
    then show ?thesis using inv size Queue_put_ok [OF inv, of e]
      by (cases "q_size q = q_capacity q") (auto simp: Queue_Offer_def queue_abs_def)
  next
    case (OpForceOffer e)
    show ?thesis
    proof (cases "q_size q = q_capacity q")
      case True
      then obtain x xs where xs: "queue_elements q = x # xs"
        using size by (metis length_queue_elements less_numeral_extra(3) list.size(3) neq_Nil_conv)
      then obtain q' where q': "Queue_poll zero q = Some (q', x, True)" "queue_inv zero q'"
        "q_capacity q' = q_capacity q" "queue_elements q' = xs" using Queue_poll_ok [OF inv] by blast
      moreover have "q_capacity q = Suc (q_size q')" using q'(4) True xs by (metis length_queue_elements length_Cons)
      ultimately show ?thesis
        using Queue_put_ok [of zero q' e] True xs by (auto simp: OpForceOffer Queue_ForceOffer_def queue_abs_def)
    next
      case False
      then show ?thesis using size Queue_put_ok [OF inv, of e]
        by (auto simp: OpForceOffer Queue_ForceOffer_def queue_abs_def)
    qed
  next
    case OpPoll
    then show ?thesis using inv Queue_poll_empty [of q zero] Queue_poll_ok [OF inv]
      by (cases "queue_elements q") (auto simp: Queue_Poll_def queue_abs_def)
  qed (use inv in \<open>simp_all add: Queue_Size_def Queue_Capacity_def queue_abs_def\<close>)
qed

lemma Queue_New_ok:
  assumes "0 < cap"
  shows "\<exists>q. Queue_New zero cap = Some q \<and> queue_inv zero q \<and> queue_abs q = (nat cap, [])"
  using assms by (simp add: Queue_New_def go_make_def queue_inv_def queue_abs_def queue_elements_def)

lemma fifo_history:
  "fifo_step zero (cap, xs) op = ((cap', xs'), r) \<Longrightarrow> length xs \<le> cap \<Longrightarrow> 0 < cap \<Longrightarrow>
    cap' = cap \<and> length xs' \<le> cap \<and> xs @ entered op r = left_queue r @ xs'"
  by (cases op) (cases xs; auto split: if_splits)+

lemma fifo_run_history:
  "run_spec (fifo_step zero) (cap, xs) ops = ((cap', xs'), rs) \<Longrightarrow> length xs \<le> cap \<Longrightarrow> 0 < cap \<Longrightarrow>
    cap' = cap \<and> length xs' \<le> cap \<and> xs @ concat (map2 entered ops rs) = concat (map left_queue rs) @ xs'"
proof (induction ops arbitrary: xs rs)
  case (Cons op ops)
  obtain cap1 xs1 r where op: "fifo_step zero (cap, xs) op = ((cap1, xs1), r)" by (metis prod.exhaust)
  note h = fifo_history [OF op Cons.prems(2,3)]
  obtain rs1 where rs: "run_spec (fifo_step zero) (cap, xs1) ops = ((cap', xs'), rs1)" "rs = r # rs1"
    using Cons.prems(1) op h by (auto simp: Let_def split: prod.splits)
  have IH: "cap' = cap \<and> length xs' \<le> cap \<and> xs1 @ concat (map2 entered ops rs1) = concat (map left_queue rs1) @ xs'"
    using Cons.IH [OF rs(1)] h Cons.prems(3) by blast
  have "xs @ concat (map2 entered (op # ops) rs) = (xs @ entered op r) @ concat (map2 entered ops rs1)"
    by (simp add: rs(2))
  also have "\<dots> = left_queue r @ xs1 @ concat (map2 entered ops rs1)" using h by simp
  also have "\<dots> = concat (map left_queue rs) @ xs'" using IH by (simp add: rs(2))
  finally show ?case using IH by blast
qed simp

subsection \<open>Ring buffer\<close>

lemma ring_holds_New: "0 < cap \<Longrightarrow> \<exists>r. NewRingBuffer zero cap = Some r \<and> rb_capacity r = nat cap \<and> ring_holds r []"
  by (simp add: NewRingBuffer_def go_make_def ring_holds_def)

lemma ring_holds_Add:
  assumes r: "ring_holds r hist"
  shows "\<exists>r'. RingBuffer_Add r e = Some (r', True) \<and> rb_capacity r' = rb_capacity r \<and> ring_holds r' (e # hist)"
proof -
  let ?n = "length hist" and ?c = "rb_capacity r"
  let ?r = "r\<lparr>rb_buffer := (rb_buffer r)[rb_pos r := e], rb_pos := (rb_pos r + 1) mod ?c,
             rb_size := (if rb_size r < ?c then rb_size r + 1 else rb_size r)\<rparr>"
  from r have c: "0 < ?c" "length (rb_buffer r) = ?c" "rb_pos r = ?n mod ?c" "rb_size r = min ?n ?c"
    by (simp_all add: ring_holds_def)
  have add: "RingBuffer_Add r e = Some (?r, True)" using c by (simp add: RingBuffer_Add_def)
  have "(rb_buffer r)[rb_pos r := e] ! ((Suc ?n - Suc j) mod ?c) = (e # hist) ! j" if j: "j < min (Suc ?n) ?c" for j
  proof (cases j)
    case 0
    then show ?thesis using c by simp
  next
    case (Suc k)
    have "Suc k \<le> ?n" using j Suc by simp
    then have "(?n - Suc k) + Suc k = ?n" by (rule le_add_diff_inverse2)
    then have "?n mod ?c \<noteq> (?n - Suc k) mod ?c"
      using mod_add_eq_iff [of "Suc k" ?c 0 "?n - Suc k"] j Suc by simp
    then show ?thesis using c r j Suc by (simp add: ring_holds_def)
  qed
  moreover have size: "rb_size ?r = min (length (e # hist)) ?c" using c by (simp add: min_def)
  ultimately have "ring_holds ?r (e # hist)"
    unfolding ring_holds_def size using c(1-3) by (simp add: mod_Suc_eq)
  moreover have "rb_capacity ?r = ?c" by simp
  ultimately show ?thesis using add by blast
qed

lemma previous_index:
  assumes "0 < c"
  shows "(if int (Suc m mod c) - 1 < 0 then int c - 1 else int (Suc m mod c) - 1) = int (m mod c)"
  using assms by (auto simp: mod_Suc)

lemma collect_ok:
  assumes r: "ring_holds r hist"
  shows "k + n \<le> rb_size r \<Longrightarrow> (0 < n \<longrightarrow> i = int ((length hist - Suc k) mod rb_capacity r)) \<Longrightarrow>
    RingBuffer_collect r i n = Some (take n (drop k hist))"
proof (induction n arbitrary: k i)
  case (Suc n)
  let ?m = "length hist - Suc k" and ?c = "rb_capacity r"
  from r have c: "0 < ?c" "length (rb_buffer r) = ?c" "rb_size r \<le> length hist" by (simp_all add: ring_holds_def)
  from Suc.prems have i: "i = int (?m mod ?c)" by simp
  have x: "rb_buffer r ! (?m mod ?c) = hist ! k" using r Suc.prems by (simp add: ring_holds_def)
  have "(if i - 1 < 0 then int ?c - 1 else i - 1) = int ((length hist - Suc (Suc k)) mod ?c)" if "0 < n"
  proof -
    have "Suc (length hist - Suc (Suc k)) = ?m" using Suc.prems(1) c(3) that by simp
    then show ?thesis using previous_index [OF c(1), of "length hist - Suc (Suc k)"] by (simp only: i)
  qed
  then have "RingBuffer_collect r (if i - 1 < 0 then int ?c - 1 else i - 1) n = Some (take n (drop (Suc k) hist))"
    using Suc.prems(1) by (intro Suc.IH) auto
  moreover have "drop k hist = hist ! k # drop (Suc k) hist"
    using Suc.prems(1) c(3) by (simp add: Cons_nth_drop_Suc)
  moreover have "slice_index (rb_buffer r) i = Some (hist ! k)" using c x by (simp add: i)
  ultimately show ?case by (simp add: Let_def)
qed simp

lemma RingBuffer_ToSlice_ok:
  assumes r: "ring_holds r hist"
  shows "RingBuffer_ToSlice r = Some (take (rb_capacity r) hist)"
proof -
  let ?i = "if int (rb_pos r) - 1 < 0 then int (rb_capacity r) - 1 else int (rb_pos r) - 1"
  have "0 < rb_size r \<longrightarrow> ?i = int ((length hist - Suc 0) mod rb_capacity r)"
    using r previous_index [of "rb_capacity r" "length hist - 1"] by (auto simp: ring_holds_def)
  then have "RingBuffer_collect r ?i (rb_size r) = Some (take (rb_size r) hist)"
    using collect_ok [OF r, of 0] by simp
  moreover have "take (rb_size r) hist = take (rb_capacity r) hist" using r by (simp add: ring_holds_def min_def)
  ultimately show ?thesis by (simp add: RingBuffer_ToSlice_def Let_def)
qed

lemma ring_run:
  "ring_holds r hist \<Longrightarrow> \<exists>r'. run_ops RingBuffer_Add r xs = Some (r', replicate (length xs) True) \<and>
     rb_capacity r' = rb_capacity r \<and> ring_holds r' (rev xs @ hist)"
proof (induction xs arbitrary: r hist)
  case (Cons x xs)
  obtain r1 where "RingBuffer_Add r x = Some (r1, True)" "rb_capacity r1 = rb_capacity r" "ring_holds r1 (x # hist)"
    using ring_holds_Add [OF Cons.prems] by blast
  moreover from this Cons.IH [of r1 "x # hist"] obtain r2 where
    "run_ops RingBuffer_Add r1 xs = Some (r2, replicate (length xs) True)"
    "rb_capacity r2 = rb_capacity r1" "ring_holds r2 (rev (x # xs) @ hist)" by auto
  ultimately show ?case by simp
qed simp

section \<open>Properties\<close>

text \<open>C15: A new queue of positive capacity behaves like a bounded first-in first-out queue for every sequence of
  \<^verbatim>\<open>Offer\<close>, \<^verbatim>\<open>ForceOffer\<close>, \<^verbatim>\<open>Poll\<close>, \<^verbatim>\<open>Size\<close> and \<^verbatim>\<open>Capacity\<close>: no call panics, every result is the one of the
  specification, the ring invariant holds at the end, and the elements that entered are, in order, those that left
  followed by those still in the queue.\<close>

theorem queue_is_bounded_fifo:
  assumes "0 < cap"
  shows "\<exists>q q' rs. Queue_New zero cap = Some q \<and> run_ops (queue_step zero) q ops = Some (q', rs)
    \<and> rs = snd (run_spec (fifo_step zero) (nat cap, []) ops)
    \<and> queue_inv zero q' \<and> q_capacity q' = nat cap
    \<and> concat (map2 entered ops rs) = concat (map left_queue rs) @ queue_elements q'"
proof -
  obtain q where q: "Queue_New zero cap = Some q" "queue_inv zero q" "queue_abs q = (nat cap, [])"
    using Queue_New_ok [OF assms, of zero] by auto
  obtain q' where q': "run_ops (queue_step zero) q ops = Some (q', snd (run_spec (fifo_step zero) (nat cap, []) ops))"
    "queue_inv zero q'" "queue_abs q' = fst (run_spec (fifo_step zero) (nat cap, []) ops)"
    using queue.run_refines [OF q(2), of ops] unfolding q(3) by auto
  have "run_spec (fifo_step zero) (nat cap, []) ops =
      ((q_capacity q', queue_elements q'), snd (run_spec (fifo_step zero) (nat cap, []) ops))"
    using q'(3) by (simp add: queue_abs_def prod_eq_iff)
  from fifo_run_history [OF this] assms q q' show ?thesis by auto
qed

theorem queue_is_bounded_fifo_witness:
  "\<exists>q q' rs. Queue_New 0 2 = Some q
    \<and> run_ops (queue_step 0) q [OpOffer 1, OpOffer 2, OpOffer 3, OpForceOffer 4, OpPoll] = Some (q', rs)
    \<and> rs = [Accepted True, Accepted True, Accepted False, Removed 1 True, Removed (2 :: int) True]"
proof -
  let ?ops = "[OpOffer 1, OpOffer 2, OpOffer 3, OpForceOffer 4, OpPoll] :: int queue_op list"
  have "snd (run_spec (fifo_step 0) (nat 2, []) ?ops) =
    [Accepted True, Accepted True, Accepted False, Removed 1 True, Removed 2 True]" by simp
  moreover have "(0 :: int) < 2" by simp
  note queue_is_bounded_fifo [OF this, of 0 ?ops]
  ultimately show ?thesis by (elim exE conjE) (intro exI conjI, assumption+, simp)
qed

text \<open>C23: After any elements were added to a new ring buffer of positive capacity, \<^verbatim>\<open>ToSlice\<close> returns the newest of
  them, as many as fit, newest first; no call panics.\<close>

theorem ring_buffer_keeps_newest:
  assumes "0 < cap"
  shows "\<exists>r r'. NewRingBuffer zero cap = Some r \<and> run_ops RingBuffer_Add r xs = Some (r', replicate (length xs) True)
    \<and> RingBuffer_ToSlice r' = Some (take (nat cap) (rev xs))"
proof -
  obtain r where r: "NewRingBuffer zero cap = Some r" "rb_capacity r = nat cap" "ring_holds r []"
    using ring_holds_New [OF assms, of zero] by auto
  from r(2) obtain r' where "run_ops RingBuffer_Add r xs = Some (r', replicate (length xs) True)"
    "rb_capacity r' = nat cap" "ring_holds r' (rev xs)" using ring_run [OF r(3), of xs] by auto
  with r(1) RingBuffer_ToSlice_ok [of r' "rev xs"] show ?thesis by auto
qed

theorem ring_buffer_keeps_newest_witness:
  "\<exists>r r'. NewRingBuffer 0 3 = Some r \<and> run_ops RingBuffer_Add r [1, 2, 3, 4, 5 :: int] = Some (r', [True, True, True, True, True])
    \<and> RingBuffer_ToSlice r' = Some [5, 4, 3]"
  using ring_buffer_keeps_newest [of 3 0 "[1, 2, 3, 4, 5 :: int]"]
  by (simp del: run_ops.simps)

end
