(* ===== verification/Go_Locks.thy ===== *)
theory Go_Locks
  imports Hive_Prelude
begin

text \<open>
  The locks of the \<^verbatim>\<open>sync\<close> package, as a state and one function for each method. A method that would
  block, or that the runtime refuses, is \<^term>\<open>None\<close>. A method of the source that holds a lock for
  its whole body is the body between the two calls; called on a free lock it is one atomic step.
\<close>

section \<open>Definitions\<close>

record RWMutex =
  readers :: nat
  writer :: bool

definition free_lock :: RWMutex where
  "free_lock = \<lparr>readers = 0, writer = False\<rparr>"

definition Lock :: "RWMutex \<Rightarrow> RWMutex option" where
  "Lock m = (if writer m \<or> readers m > 0 then None else Some (m\<lparr>writer := True\<rparr>))"

definition Unlock :: "RWMutex \<Rightarrow> RWMutex option" where
  "Unlock m = (if writer m then Some (m\<lparr>writer := False\<rparr>) else None)"

definition RLock :: "RWMutex \<Rightarrow> RWMutex option" where
  "RLock m = (if writer m then None else Some (m\<lparr>readers := readers m + 1\<rparr>))"

definition RUnlock :: "RWMutex \<Rightarrow> RWMutex option" where
  "RUnlock m = (if readers m = 0 then None else Some (m\<lparr>readers := readers m - 1\<rparr>))"

text \<open>\<^verbatim>\<open>m.Lock(); defer m.Unlock()\<close> and \<^verbatim>\<open>m.RLock(); defer m.RUnlock()\<close> around a body that returns a result.\<close>

definition with_Lock :: "RWMutex \<Rightarrow> 'b option \<Rightarrow> (RWMutex \<times> 'b) option" where
  "with_Lock m body = do {
     m \<leftarrow> Lock m;
     r \<leftarrow> body;
     m \<leftarrow> Unlock m;
     Some (m, r)
   }"

definition with_RLock :: "RWMutex \<Rightarrow> 'b option \<Rightarrow> (RWMutex \<times> 'b) option" where
  "with_RLock m body = do {
     m \<leftarrow> RLock m;
     r \<leftarrow> body;
     m \<leftarrow> RUnlock m;
     Some (m, r)
   }"

section \<open>Lemmas\<close>

lemma with_Lock_free [simp]: "with_Lock free_lock body = map_option (Pair free_lock) body"
  by (cases body) (simp_all add: with_Lock_def Lock_def Unlock_def free_lock_def)

lemma with_RLock_free [simp]: "with_RLock free_lock body = map_option (Pair free_lock) body"
  by (cases body) (simp_all add: with_RLock_def RLock_def RUnlock_def free_lock_def)

lemma with_Lock_reentered [simp]: "Lock m = Some m' \<Longrightarrow> with_Lock m' body = None \<and> with_RLock m' body = None"
  by (auto simp: Lock_def with_Lock_def with_RLock_def RLock_def split: if_splits)

lemma Lock_free: "Lock free_lock = Some \<lparr>readers = 0, writer = True\<rparr>" "Unlock \<lparr>readers = 0, writer = True\<rparr> = Some free_lock"
  by (simp_all add: Lock_def Unlock_def free_lock_def)

lemma with_RLock_held: "with_RLock \<lparr>readers = 0, writer = True\<rparr> body = None"
  by (simp add: with_RLock_def RLock_def)

end
