(* ===== verification/Stack_Bitmask.thy ===== *)
theory Stack_Bitmask
  imports Go_Locks Refinement
begin

text \<open>
  The stacks of \<^verbatim>\<open>ds/stack\<close>, plain and thread-safe, against one specification, and the bit mask of
  \<^verbatim>\<open>ds/bitmask/bitmask.go\<close>. A stack is the slice of its elements, the top at the end.
\<close>

section \<open>Definitions\<close>

subsection \<open>Stack\<close>

type_synonym 'a simpleStack = "'a list"

definition newSimpleStack :: "'a simpleStack" where
  "newSimpleStack = []"

definition simpleStack_IsEmpty :: "'a simpleStack \<Rightarrow> bool" where
  "simpleStack_IsEmpty s \<longleftrightarrow> length s = 0"

definition simpleStack_Push :: "'a simpleStack \<Rightarrow> 'a \<Rightarrow> 'a simpleStack" where
  "simpleStack_Push s element = s @ [element]"

definition simpleStack_Pop :: "'a \<Rightarrow> 'a simpleStack \<Rightarrow> ('a simpleStack \<times> 'a \<times> bool) option" where
  "simpleStack_Pop zero s =
     (if simpleStack_IsEmpty s then Some (s, zero, False)
      else do {
        let index = int (length s) - 1;
        element \<leftarrow> slice_index s index;
        s \<leftarrow> slice_range s 0 index;
        Some (s, element, True)
      })"

definition simpleStack_Peek :: "'a \<Rightarrow> 'a simpleStack \<Rightarrow> ('a \<times> bool) option" where
  "simpleStack_Peek zero s =
     (if simpleStack_IsEmpty s then Some (zero, False)
      else do { element \<leftarrow> slice_index s (int (length s) - 1); Some (element, True) })"

definition simpleStack_Clear :: "'a simpleStack \<Rightarrow> 'a simpleStack option" where
  "simpleStack_Clear s = slice_range s 0 0"

definition simpleStack_Size :: "'a simpleStack \<Rightarrow> nat" where
  "simpleStack_Size s = length s"

datatype 'a stack_op = OpPush 'a | OpPop | OpPeek | OpClear | OpStackSize | OpIsEmpty

datatype 'a stack_result = NoResult | Element 'a bool | Count nat | Flag bool

fun simpleStack_step :: "'a \<Rightarrow> 'a simpleStack \<Rightarrow> 'a stack_op \<Rightarrow> ('a simpleStack \<times> 'a stack_result) option" where
  "simpleStack_step zero s (OpPush x) = Some (simpleStack_Push s x, NoResult)"
| "simpleStack_step zero s OpPop = map_option (\<lambda>(s, x, ok). (s, Element x ok)) (simpleStack_Pop zero s)"
| "simpleStack_step zero s OpPeek = map_option (\<lambda>(x, ok). (s, Element x ok)) (simpleStack_Peek zero s)"
| "simpleStack_step zero s OpClear = map_option (\<lambda>s. (s, NoResult)) (simpleStack_Clear s)"
| "simpleStack_step zero s OpStackSize = Some (s, Count (simpleStack_Size s))"
| "simpleStack_step zero s OpIsEmpty = Some (s, Flag (simpleStack_IsEmpty s))"

text \<open>The thread-safe stack takes the writer lock for the methods that change the stack and the reader lock for
  the others.\<close>

record 'a threadSafeStack =
  ts_stack :: "'a simpleStack"
  ts_mutex :: RWMutex

definition newThreadSafeStack :: "'a threadSafeStack" where
  "newThreadSafeStack = \<lparr>ts_stack = newSimpleStack, ts_mutex = free_lock\<rparr>"

fun takes_writer_lock :: "'a stack_op \<Rightarrow> bool" where
  "takes_writer_lock (OpPush x) \<longleftrightarrow> True"
| "takes_writer_lock OpPop \<longleftrightarrow> True"
| "takes_writer_lock OpClear \<longleftrightarrow> True"
| "takes_writer_lock _ \<longleftrightarrow> False"

definition threadSafeStack_step ::
  "'a \<Rightarrow> 'a threadSafeStack \<Rightarrow> 'a stack_op \<Rightarrow> ('a threadSafeStack \<times> 'a stack_result) option" where
  "threadSafeStack_step zero s op =
     map_option (\<lambda>(m, st, r). (\<lparr>ts_stack = st, ts_mutex = m\<rparr>, r))
       ((if takes_writer_lock op then with_Lock else with_RLock) (ts_mutex s) (simpleStack_step zero (ts_stack s) op))"

text \<open>The specification: the elements from the top.\<close>

fun lifo_step :: "'a \<Rightarrow> 'a list \<Rightarrow> 'a stack_op \<Rightarrow> 'a list \<times> 'a stack_result" where
  "lifo_step zero xs (OpPush x) = (x # xs, NoResult)"
| "lifo_step zero xs OpPop = (case xs of [] \<Rightarrow> ([], Element zero False) | x # xs \<Rightarrow> (xs, Element x True))"
| "lifo_step zero xs OpPeek = (xs, case xs of [] \<Rightarrow> Element zero False | x # _ \<Rightarrow> Element x True)"
| "lifo_step zero xs OpClear = ([], NoResult)"
| "lifo_step zero xs OpStackSize = (xs, Count (length xs))"
| "lifo_step zero xs OpIsEmpty = (xs, Flag (xs = []))"

subsection \<open>Bit mask\<close>

type_synonym BitMask = byte

definition SetBits :: "BitMask \<Rightarrow> BitMask \<Rightarrow> BitMask" where
  "SetBits bitmask bits = or bitmask bits"

definition SetBit :: "BitMask \<Rightarrow> nat \<Rightarrow> BitMask" where
  "SetBit bitmask pos = SetBits bitmask (push_bit pos 1)"

definition ClearBits :: "BitMask \<Rightarrow> BitMask \<Rightarrow> BitMask" where
  "ClearBits bitmask bits = and bitmask (not bits)"

definition ClearBit :: "BitMask \<Rightarrow> nat \<Rightarrow> BitMask" where
  "ClearBit bitmask pos = ClearBits bitmask (push_bit pos 1)"

definition HasBits :: "BitMask \<Rightarrow> BitMask \<Rightarrow> bool" where
  "HasBits bitmask bits \<longleftrightarrow> and bitmask bits > 0"

definition HasBit :: "BitMask \<Rightarrow> nat \<Rightarrow> bool" where
  "HasBit bitmask pos \<longleftrightarrow> HasBits bitmask (push_bit pos 1)"

definition ModifyBit :: "BitMask \<Rightarrow> nat \<Rightarrow> bool \<Rightarrow> BitMask" where
  "ModifyBit bitmask pos state = (if state then SetBit bitmask pos else ClearBit bitmask pos)"

section \<open>Lemmas\<close>

lemma simpleStack_refines:
  "\<exists>s'. simpleStack_step zero s op = Some (s', snd (lifo_step zero (rev s) op)) \<and> rev s' = fst (lifo_step zero (rev s) op)"
proof (cases s rule: rev_cases)
  case Nil
  then show ?thesis
    by (cases op) (simp_all add: simpleStack_Push_def simpleStack_Pop_def simpleStack_Peek_def simpleStack_IsEmpty_def
        simpleStack_Clear_def simpleStack_Size_def slice_range_def)
next
  case (snoc xs x)
  have "slice_index s (int (length s) - 1) = Some x" "slice_range s 0 (int (length s) - 1) = Some xs"
    using snoc by (simp_all add: slice_index_def slice_range_def nth_append)
  with snoc show ?thesis
    by (cases op) (simp_all add: simpleStack_Push_def simpleStack_Pop_def simpleStack_Peek_def simpleStack_IsEmpty_def
        simpleStack_Clear_def simpleStack_Size_def slice_range_def)
qed

interpretation simple_stack: data_refinement "simpleStack_step zero" "lifo_step zero" rev "\<lambda>s. True"
  using simpleStack_refines by unfold_locales simp

interpretation thread_safe_stack: data_refinement "threadSafeStack_step zero" "lifo_step zero" "\<lambda>s. rev (ts_stack s)"
  "\<lambda>s. ts_mutex s = free_lock"
proof
  fix s :: "'a threadSafeStack" and op
  assume "ts_mutex s = free_lock"
  then show "\<exists>s'. threadSafeStack_step zero s op = Some (s', snd (lifo_step zero (rev (ts_stack s)) op)) \<and>
      ts_mutex s' = free_lock \<and> rev (ts_stack s') = fst (lifo_step zero (rev (ts_stack s)) op)"
    using simpleStack_refines [of zero "ts_stack s" op] by (auto simp: threadSafeStack_step_def)
qed

lemma bit_one_shifted: "bit (2 ^ p :: byte) n \<longleftrightarrow> p = n \<and> n < 8"
  by (auto simp: bit_exp_iff possible_bit_word)

lemma HasBit_iff: "HasBit m p \<longleftrightarrow> bit m p"
proof -
  have "and m (push_bit p 1) > 0 \<longleftrightarrow> and m (push_bit p 1) \<noteq> 0" by (simp add: word_gt_0)
  also have "\<dots> \<longleftrightarrow> (\<exists>n. bit (and m (push_bit p 1)) n)" by (metis bit_eqI bit_0_eq bot_apply bot_bool_def)
  also have "\<dots> \<longleftrightarrow> bit m p" by (auto simp: bit_and_iff bit_one_shifted dest: bit_imp_le_length)
  finally show ?thesis by (simp add: HasBit_def HasBits_def)
qed

section \<open>Properties\<close>

text \<open>C24: The plain stack and the thread-safe stack, whose lock is free, give for every sequence of operations the
  results of a last-in first-out stack; no call panics or blocks, and the lock is free again afterwards.\<close>

theorem stacks_are_lifo:
  "(\<exists>s'. run_ops (simpleStack_step zero) newSimpleStack ops = Some (s', snd (run_spec (lifo_step zero) [] ops)))
   \<and> (\<exists>s'. run_ops (threadSafeStack_step zero) newThreadSafeStack ops = Some (s', snd (run_spec (lifo_step zero) [] ops))
        \<and> ts_mutex s' = free_lock)"
  using simple_stack.run_refines [where s = newSimpleStack and zero = zero and ops = ops]
    thread_safe_stack.run_refines [where s = newThreadSafeStack and zero = zero and ops = ops]
  by (auto simp: newSimpleStack_def newThreadSafeStack_def)

text \<open>Setting a bit of the mask turns on that bit alone, clearing it turns off that bit alone, and a position
  beyond the eight bits has no effect and is never set; modifying a bit gives it the requested state.\<close>

theorem bit_mask_positions:
  "HasBit (SetBit m p) q = (HasBit m q \<or> (p = q \<and> p < 8))
   \<and> HasBit (ClearBit m p) q = (HasBit m q \<and> p \<noteq> q)
   \<and> \<not> HasBit m (8 + q)
   \<and> HasBit (ModifyBit m p state) q = (if p = q \<and> p < 8 then state else HasBit m q)"
  by (auto simp: HasBit_iff ModifyBit_def SetBit_def SetBits_def ClearBit_def ClearBits_def bit_or_iff bit_and_iff bit_not_iff
      bit_one_shifted dest: bit_imp_le_length)

end
