(* ===== verification/Shrinking_Map.thy ===== *)
theory Shrinking_Map
  imports Refinement
begin

text \<open>
  The shrinking map of \<^verbatim>\<open>ds/shrinkingmap/shrinkingmap.go\<close> against a plain map. A Go map is a partial function with a
  finite domain; the order in which the runtime ranges over a map is an argument. Methods that hold the lock for
  their whole body are one step; \<^verbatim>\<open>GetOrCreate\<close>, which releases the lock in the middle, takes what others do there
  as an argument. The ratio option is the comparison of floats it stands for, and absent for 0.0: all
  results hold for any such comparison.
\<close>

section \<open>Definitions\<close>

subsection \<open>Options\<close>

record Options =
  shrinkingThresholdRatio :: "(nat \<Rightarrow> nat \<Rightarrow> bool) option"
  shrinkingThresholdCount :: int

type_synonym Option = "Options \<Rightarrow> Options"

definition Options_apply :: "Option list \<Rightarrow> Options \<Rightarrow> Options" where
  "Options_apply opts so = fold (\<lambda>opt so. opt so) opts so"

definition WithShrinkingThresholdRatio :: "(nat \<Rightarrow> nat \<Rightarrow> bool) option \<Rightarrow> Option" where
  "WithShrinkingThresholdRatio ratio opts = opts\<lparr>shrinkingThresholdRatio := ratio\<rparr>"

definition WithShrinkingThresholdCount :: "int \<Rightarrow> Option" where
  "WithShrinkingThresholdCount count opts = opts\<lparr>shrinkingThresholdCount := count\<rparr>"

text \<open>The default ratio 10.0, for which the quotient of the rounded numbers is below the ratio; \<open>below10\<close> is this
  comparison of floats.\<close>

definition defaultOptions :: "(nat \<Rightarrow> nat \<Rightarrow> bool) \<Rightarrow> Option list" where
  "defaultOptions below10 = [WithShrinkingThresholdRatio (Some below10), WithShrinkingThresholdCount 100]"

subsection \<open>The map\<close>

record ('k, 'v) ShrinkingMap =
  sm_m :: "'k \<rightharpoonup> 'v"
  deletedKeys :: nat
  sm_opts :: Options

definition sm_New :: "(nat \<Rightarrow> nat \<Rightarrow> bool) \<Rightarrow> Option list \<Rightarrow> ('k, 'v) ShrinkingMap" where
  "sm_New below10 opts =
     (let mapOpts = \<lparr>shrinkingThresholdRatio = None, shrinkingThresholdCount = 0\<rparr>;
          mapOpts = Options_apply (defaultOptions below10) mapOpts;
          mapOpts = Options_apply opts mapOpts
      in \<lparr>sm_m = Map.empty, deletedKeys = 0, sm_opts = mapOpts\<rparr>)"

definition map_index :: "'v \<Rightarrow> ('k \<rightharpoonup> 'v) \<Rightarrow> 'k \<Rightarrow> 'v \<times> bool" where
  "map_index zero m k = (case m k of Some v \<Rightarrow> (v, True) | None \<Rightarrow> (zero, False))"

definition map_len :: "('k \<rightharpoonup> 'v) \<Rightarrow> nat" where
  "map_len m = card (dom m)"

definition sm_Set :: "('k, 'v) ShrinkingMap \<Rightarrow> 'k \<Rightarrow> 'v \<Rightarrow> ('k, 'v) ShrinkingMap \<times> bool" where
  "sm_Set s k v = (let exists = sm_m s k \<noteq> None in (s\<lparr>sm_m := (sm_m s)(k \<mapsto> v)\<rparr>, \<not> exists))"

definition sm_Get :: "'v \<Rightarrow> ('k, 'v) ShrinkingMap \<Rightarrow> 'k \<Rightarrow> 'v \<times> bool" where
  "sm_Get zero s k = map_index zero (sm_m s) k"

text \<open>\<^verbatim>\<open>GetOrCreate\<close> looks the key up under the reader lock, releases it, and looks again under the writer lock:
  \<open>others\<close> is what other goroutines do to the map in between.\<close>

definition sm_GetOrCreate ::
  "(('k, 'v) ShrinkingMap \<Rightarrow> ('k, 'v) ShrinkingMap) \<Rightarrow> ('k, 'v) ShrinkingMap \<Rightarrow> 'k \<Rightarrow> (unit \<Rightarrow> 'v)
     \<Rightarrow> ('k, 'v) ShrinkingMap \<times> 'v \<times> bool" where
  "sm_GetOrCreate others s k defaultValueFunc =
     (case sm_m s k of Some existingValue \<Rightarrow> (s, existingValue, False)
      | None \<Rightarrow>
          (let s = others s in
           case sm_m s k of Some existingValue \<Rightarrow> (s, existingValue, False)
           | None \<Rightarrow> (let v = defaultValueFunc () in (s\<lparr>sm_m := (sm_m s)(k \<mapsto> v)\<rparr>, v, True))))"

definition sm_Compute ::
  "'v \<Rightarrow> ('k, 'v) ShrinkingMap \<Rightarrow> 'k \<Rightarrow> ('v \<Rightarrow> bool \<Rightarrow> 'v) \<Rightarrow> ('k, 'v) ShrinkingMap \<times> 'v" where
  "sm_Compute zero s k updateFunc =
     (let (currentValue, exists) = map_index zero (sm_m s) k;
          s = s\<lparr>sm_m := (sm_m s)(k \<mapsto> updateFunc currentValue exists)\<rparr>
      in (s, fst (map_index zero (sm_m s) k)))"

definition sm_Has :: "('k, 'v) ShrinkingMap \<Rightarrow> 'k \<Rightarrow> bool" where
  "sm_Has s k \<longleftrightarrow> sm_m s k \<noteq> None"

text \<open>A range loop visits the keys in an order the runtime chooses: \<open>order\<close> is that order. The loops over a
  copy stop when the callback returns false; the callback acts on the caller's variables \<open>w\<close>.\<close>

definition enumerates :: "'k list \<Rightarrow> ('k \<rightharpoonup> 'v) \<Rightarrow> bool" where
  "enumerates order m \<longleftrightarrow> distinct order \<and> set order = dom m"

fun for_each :: "('w \<Rightarrow> 'e \<Rightarrow> 'w \<times> bool) \<Rightarrow> 'e list \<Rightarrow> 'w \<Rightarrow> 'w" where
  "for_each callback [] w = w"
| "for_each callback (e # es) w =
     (let (w, continue) = callback w e in if continue then for_each callback es w else w)"

definition range_pairs :: "'k list \<Rightarrow> ('k \<rightharpoonup> 'v) \<Rightarrow> ('k \<times> 'v) list" where
  "range_pairs order m = map (\<lambda>k. (k, the (m k))) order"

definition sm_ForEachKey :: "'k list \<Rightarrow> ('k, 'v) ShrinkingMap \<Rightarrow> ('w \<Rightarrow> 'k \<Rightarrow> 'w \<times> bool) \<Rightarrow> 'w \<Rightarrow> 'w" where
  "sm_ForEachKey order s callback w =
     (let copiedElements = map fst (range_pairs order (sm_m s)) in for_each callback copiedElements w)"

definition sm_ForEach :: "'k list \<Rightarrow> ('k, 'v) ShrinkingMap \<Rightarrow> ('w \<Rightarrow> 'k \<times> 'v \<Rightarrow> 'w \<times> bool) \<Rightarrow> 'w \<Rightarrow> 'w" where
  "sm_ForEach order s callback w = for_each callback (range_pairs order (sm_m s)) w"

definition sm_Keys :: "'k list \<Rightarrow> ('k, 'v) ShrinkingMap \<Rightarrow> 'k list" where
  "sm_Keys order s = map fst (range_pairs order (sm_m s))"

definition sm_Values :: "'k list \<Rightarrow> ('k, 'v) ShrinkingMap \<Rightarrow> 'v list" where
  "sm_Values order s = map snd (range_pairs order (sm_m s))"

definition sm_Size :: "('k, 'v) ShrinkingMap \<Rightarrow> nat" where
  "sm_Size s = map_len (sm_m s)"

definition sm_IsEmpty :: "('k, 'v) ShrinkingMap \<Rightarrow> bool" where
  "sm_IsEmpty s \<longleftrightarrow> sm_Size s = 0"

definition shouldShrink :: "('k, 'v) ShrinkingMap \<Rightarrow> bool" where
  "shouldShrink s =
     (let size = map_len (sm_m s) in
      if \<not> (shrinkingThresholdRatio (sm_opts s) \<noteq> None \<or> shrinkingThresholdCount (sm_opts s) \<noteq> 0) then False
      else if (case shrinkingThresholdRatio (sm_opts s) of None \<Rightarrow> False
               | Some below \<Rightarrow> size = 0 \<or> below (deletedKeys s) size) then False
      else if shrinkingThresholdCount (sm_opts s) \<noteq> 0 \<and> int (deletedKeys s) < shrinkingThresholdCount (sm_opts s)
      then False
      else True)"

text \<open>The new map is filled by a range loop over the old one.\<close>

definition sm_shrink :: "'k list \<Rightarrow> ('k, 'v) ShrinkingMap \<Rightarrow> ('k, 'v) ShrinkingMap" where
  "sm_shrink order s =
     (let newMap = foldl (\<lambda>n (k, v). n(k \<mapsto> v)) Map.empty (range_pairs order (sm_m s))
      in s\<lparr>deletedKeys := 0, sm_m := newMap\<rparr>)"

definition sm_Shrink :: "'k list \<Rightarrow> ('k, 'v) ShrinkingMap \<Rightarrow> ('k, 'v) ShrinkingMap" where
  "sm_Shrink order s = sm_shrink order s"

text \<open>\<open>ord\<close> gives the order in which the runtime would range over a map.\<close>

definition sm_delete :: "(('k \<rightharpoonup> 'v) \<Rightarrow> 'k list) \<Rightarrow> ('k, 'v) ShrinkingMap \<Rightarrow> 'k \<Rightarrow> ('k, 'v) ShrinkingMap \<times> bool" where
  "sm_delete ord s k =
     (if sm_m s k = None then (s, False)
      else let s = s\<lparr>deletedKeys := deletedKeys s + 1, sm_m := (sm_m s)(k := None)\<rparr>
        in (if shouldShrink s then sm_shrink (ord (sm_m s)) s else s, True))"

definition sm_Pop ::
  "'k \<Rightarrow> 'v \<Rightarrow> (('k \<rightharpoonup> 'v) \<Rightarrow> 'k list) \<Rightarrow> ('k, 'v) ShrinkingMap \<Rightarrow> ('k, 'v) ShrinkingMap \<times> 'k \<times> 'v \<times> bool" where
  "sm_Pop zeroK zeroV ord s =
     (case range_pairs (ord (sm_m s)) (sm_m s) of
        (k, v) # _ \<Rightarrow> (fst (sm_delete ord s k), k, v, True)
      | [] \<Rightarrow> (s, zeroK, zeroV, False))"

definition sm_DeleteAndReturn ::
  "'v \<Rightarrow> (('k \<rightharpoonup> 'v) \<Rightarrow> 'k list) \<Rightarrow> ('k, 'v) ShrinkingMap \<Rightarrow> 'k \<Rightarrow> ('k, 'v) ShrinkingMap \<times> 'v \<times> bool" where
  "sm_DeleteAndReturn zero ord s k =
     (let (v, deleted) = map_index zero (sm_m s) k
      in (if deleted then fst (sm_delete ord s k) else s, v, deleted))"

definition sm_Delete ::
  "(('k \<rightharpoonup> 'v) \<Rightarrow> 'k list) \<Rightarrow> ('k, 'v) ShrinkingMap \<Rightarrow> 'k \<Rightarrow> bool list \<Rightarrow> ('k, 'v) ShrinkingMap \<times> bool" where
  "sm_Delete ord s k optCondition =
     (if optCondition \<noteq> [] \<and> \<not> hd optCondition then (s, False) else sm_delete ord s k)"

definition sm_Clear :: "('k, 'v) ShrinkingMap \<Rightarrow> ('k, 'v) ShrinkingMap" where
  "sm_Clear s = s\<lparr>sm_m := Map.empty, deletedKeys := 0\<rparr>"

definition sm_AsMap :: "'k list \<Rightarrow> ('k, 'v) ShrinkingMap \<Rightarrow> ('k \<rightharpoonup> 'v)" where
  "sm_AsMap order s = foldl (\<lambda>n (k, v). n(k \<mapsto> v)) Map.empty (range_pairs order (sm_m s))"

subsection \<open>Specification: a plain map\<close>

definition good_order :: "(('k \<rightharpoonup> 'v) \<Rightarrow> 'k list) \<Rightarrow> bool" where
  "good_order ord \<longleftrightarrow> (\<forall>m. finite (dom m) \<longrightarrow> enumerates (ord m) m)"

datatype ('k, 'v) map_op =
    MSet 'k 'v | MGet 'k | MHas 'k | MGetOrCreate 'k 'v | MCompute 'k "'v \<Rightarrow> bool \<Rightarrow> 'v"
  | MDelete 'k "bool list" | MDeleteAndReturn 'k | MClear | MShrink | MSize | MIsEmpty

datatype 'v map_result = Nothing | Yes bool | Value 'v bool | Size nat

fun sm_step ::
  "'v \<Rightarrow> (('k \<rightharpoonup> 'v) \<Rightarrow> 'k list) \<Rightarrow> ('k, 'v) ShrinkingMap \<Rightarrow> ('k, 'v) map_op
     \<Rightarrow> (('k, 'v) ShrinkingMap \<times> 'v map_result) option" where
  "sm_step zero ord s (MSet k v) = Some (map_prod id Yes (sm_Set s k v))"
| "sm_step zero ord s (MGet k) = Some (s, case sm_Get zero s k of (v, ok) \<Rightarrow> Value v ok)"
| "sm_step zero ord s (MHas k) = Some (s, Yes (sm_Has s k))"
| "sm_step zero ord s (MGetOrCreate k v) = Some (map_prod id (case_prod Value) (sm_GetOrCreate id s k (\<lambda>_. v)))"
| "sm_step zero ord s (MCompute k f) = Some (map_prod id (\<lambda>v. Value v True) (sm_Compute zero s k f))"
| "sm_step zero ord s (MDelete k c) = Some (map_prod id Yes (sm_Delete ord s k c))"
| "sm_step zero ord s (MDeleteAndReturn k) = Some (map_prod id (case_prod Value) (sm_DeleteAndReturn zero ord s k))"
| "sm_step zero ord s MClear = Some (sm_Clear s, Nothing)"
| "sm_step zero ord s MShrink = Some (sm_Shrink (ord (sm_m s)) s, Nothing)"
| "sm_step zero ord s MSize = Some (s, Size (sm_Size s))"
| "sm_step zero ord s MIsEmpty = Some (s, Yes (sm_IsEmpty s))"

fun map_step :: "'v \<Rightarrow> ('k \<rightharpoonup> 'v) \<Rightarrow> ('k, 'v) map_op \<Rightarrow> ('k \<rightharpoonup> 'v) \<times> 'v map_result" where
  "map_step zero m (MSet k v) = (m(k \<mapsto> v), Yes (m k = None))"
| "map_step zero m (MGet k) = (m, case m k of None \<Rightarrow> Value zero False | Some v \<Rightarrow> Value v True)"
| "map_step zero m (MHas k) = (m, Yes (m k \<noteq> None))"
| "map_step zero m (MGetOrCreate k v) =
     (case m k of None \<Rightarrow> (m(k \<mapsto> v), Value v True) | Some w \<Rightarrow> (m, Value w False))"
| "map_step zero m (MCompute k f) =
     (let v = (case m k of None \<Rightarrow> f zero False | Some w \<Rightarrow> f w True) in (m(k \<mapsto> v), Value v True))"
| "map_step zero m (MDelete k c) =
     (if c \<noteq> [] \<and> \<not> hd c then (m, Yes False) else (m(k := None), Yes (m k \<noteq> None)))"
| "map_step zero m (MDeleteAndReturn k) =
     (m(k := None), case m k of None \<Rightarrow> Value zero False | Some v \<Rightarrow> Value v True)"
| "map_step zero m MClear = (Map.empty, Nothing)"
| "map_step zero m MShrink = (m, Nothing)"
| "map_step zero m MSize = (m, Size (card (dom m)))"
| "map_step zero m MIsEmpty = (m, Yes (m = Map.empty))"

definition sm_inv :: "('k, 'v) ShrinkingMap \<Rightarrow> bool" where
  "sm_inv s \<longleftrightarrow> finite (dom (sm_m s))"

section \<open>Lemmas\<close>

subsection \<open>Range loops\<close>

lemma fold_pairs: "foldl (\<lambda>n (k, v). n(k \<mapsto> v)) n (range_pairs ks m) x = (if x \<in> set ks then Some (the (m x)) else n x)"
  by (induction ks arbitrary: n) (simp_all add: range_pairs_def)

lemma copy_by_range:
  assumes "set ks = dom m"
  shows "foldl (\<lambda>n (k, v). n(k \<mapsto> v)) Map.empty (range_pairs ks m) = m"
proof
  fix x
  show "foldl (\<lambda>n (k, v). n(k \<mapsto> v)) Map.empty (range_pairs ks m) x = m x"
    using assms by (cases "m x") (auto simp: fold_pairs)
qed

lemma set_range_pairs: "enumerates ks m \<Longrightarrow> set (range_pairs ks m) = Map.graph m"
  by (auto simp: enumerates_def range_pairs_def Map.graph_def)

lemma distinct_range_pairs: "enumerates ks m \<Longrightarrow> distinct (range_pairs ks m)"
  by (auto simp: enumerates_def range_pairs_def distinct_map inj_on_def)

lemma map_fst_range_pairs [simp]: "map fst (range_pairs ks m) = ks"
  by (simp add: range_pairs_def comp_def)

lemma good_orderD: "good_order ord \<Longrightarrow> finite (dom m) \<Longrightarrow> enumerates (ord m) m"
  by (simp add: good_order_def)

text \<open>A callback that never stops sees all elements.\<close>

lemma for_each_all: "(\<And>w e. snd (cb w e)) \<Longrightarrow> for_each cb es w = fold (\<lambda>e w. fst (cb w e)) es w"
  by (induction es arbitrary: w) (simp_all add: case_prod_beta Let_def)

subsection \<open>The methods as updates of a plain map\<close>

lemma sm_m_shrink: "good_order ord \<Longrightarrow> finite (dom (sm_m s)) \<Longrightarrow> sm_m (sm_shrink (ord (sm_m s)) s) = sm_m s"
  by (simp add: sm_shrink_def Let_def copy_by_range good_orderD [unfolded enumerates_def])

lemma sm_delete_eq:
  assumes "good_order ord" and "sm_inv s"
  shows "sm_m (fst (sm_delete ord s k)) = (sm_m s)(k := None)" and "snd (sm_delete ord s k) \<longleftrightarrow> sm_m s k \<noteq> None"
proof -
  have "finite (dom (sm_m s))" using assms(2) by (simp add: sm_inv_def)
  note sh = sm_m_shrink [OF assms(1), of "s\<lparr>deletedKeys := deletedKeys s + 1, sm_m := (sm_m s)(k := None)\<rparr>", simplified, OF this]
  show "sm_m (fst (sm_delete ord s k)) = (sm_m s)(k := None)"
    by (cases "sm_m s k") (auto simp: sm_delete_def Let_def sh)
  show "snd (sm_delete ord s k) \<longleftrightarrow> sm_m s k \<noteq> None"
    by (simp add: sm_delete_def Let_def)
qed

lemma sm_Set_map [simp]: "sm_m (fst (sm_Set s k v)) = (sm_m s)(k \<mapsto> v)" "snd (sm_Set s k v) \<longleftrightarrow> sm_m s k = None"
  by (simp_all add: sm_Set_def)

lemma sm_Get_map: "sm_Get zero s k = (case sm_m s k of None \<Rightarrow> (zero, False) | Some v \<Rightarrow> (v, True))"
  by (simp add: sm_Get_def map_index_def split: option.split)

lemma sm_New_map [simp]: "sm_m (sm_New below10 opts) = Map.empty"
  by (simp add: sm_New_def Let_def)

lemma sm_New_inv [simp]: "sm_inv (sm_New below10 opts)"
  by (simp add: sm_inv_def)

lemma shrinking_map_refines:
  assumes ord: "good_order ord" and inv: "sm_inv s"
  shows "\<exists>s'. sm_step zero ord s op = Some (s', snd (map_step zero (sm_m s) op)) \<and> sm_inv s' \<and>
    sm_m s' = fst (map_step zero (sm_m s) op)"
proof -
  have fin: "finite (dom (sm_m s))" using inv by (simp add: sm_inv_def)
  note del = sm_delete_eq [OF assms]
  show ?thesis
  proof (cases op)
    case (MSet k v)
    then show ?thesis using fin by (simp add: sm_Set_def Let_def sm_inv_def)
  next
    case (MGetOrCreate k v)
    then show ?thesis using fin
      by (cases "sm_m s k") (simp_all add: sm_GetOrCreate_def Let_def sm_inv_def)
  next
    case (MCompute k f)
    then show ?thesis using fin
      by (cases "sm_m s k") (simp_all add: sm_Compute_def map_index_def Let_def sm_inv_def)
  next
    case (MDelete k c)
    then show ?thesis using fin del [of k]
      by (cases "sm_delete ord s k") (simp add: sm_Delete_def sm_inv_def)
  next
    case (MDeleteAndReturn k)
    then show ?thesis using fin del [of k]
      by (cases "sm_m s k") (simp_all add: sm_DeleteAndReturn_def map_index_def sm_inv_def fun_upd_idem)
  next
    case MShrink
    then show ?thesis using fin sm_m_shrink [OF ord fin] by (simp add: sm_Shrink_def sm_inv_def)
  next
    case MIsEmpty
    then show ?thesis using fin inv by (simp add: sm_IsEmpty_def sm_Size_def map_len_def)
  qed (use fin inv in \<open>simp_all add: sm_Get_map sm_Has_def sm_Clear_def sm_Size_def map_len_def sm_inv_def
      split: option.split\<close>)
qed

interpretation shrinking_map: data_refinement "sm_step zero (ord :: ('k \<rightharpoonup> 'v) \<Rightarrow> 'k list)" "map_step zero" sm_m "\<lambda>s. good_order ord \<and> sm_inv s"
proof
  fix s :: "('k, 'v) ShrinkingMap" and op
  assume "good_order ord \<and> sm_inv s"
  then show "\<exists>s'. sm_step zero ord s op = Some (s', snd (map_step zero (sm_m s) op)) \<and>
      (good_order ord \<and> sm_inv s') \<and> sm_m s' = fst (map_step zero (sm_m s) op)"
    using shrinking_map_refines [of ord s zero op] by simp
qed

lemma good_order_sorted: "good_order (\<lambda>m. sorted_list_of_set (dom m))"
  by (simp add: good_order_def enumerates_def)

section \<open>Properties\<close>

text \<open>C6: Whatever the options are and whenever the map shrinks, every sequence of operations on a new shrinking
  map gives the results of a plain map: shrinking never loses, changes or resurrects an entry. \<open>ord\<close> is the order in
  which the runtime ranges over a map.\<close>

theorem shrinking_map_is_map:
  assumes "good_order ord"
  shows "\<exists>s'. run_ops (sm_step zero ord) (sm_New below10 opts) ops
      = Some (s', snd (run_spec (map_step zero) Map.empty ops))
    \<and> sm_m s' = fst (run_spec (map_step zero) Map.empty ops)"
  using shrinking_map.run_refines [where s = "sm_New below10 opts" and ord = ord and zero = zero and ops = ops] assms
  by auto

theorem shrinking_map_is_map_witness:
  "\<exists>s'. run_ops (sm_step 0 (\<lambda>m. sorted_list_of_set (dom m)))
        (sm_New (\<lambda>d n. d < 10 * n) [WithShrinkingThresholdRatio None, WithShrinkingThresholdCount 1])
        [MSet (1 :: nat) (5 :: int), MSet 2 6, MDelete 1 [], MGet 1, MGet 2]
      = Some (s', [Yes True, Yes True, Yes True, Value 0 False, Value 6 True])"
proof -
  let ?ops = "[MSet (1 :: nat) (5 :: int), MSet 2 6, MDelete 1 [], MGet 1, MGet 2]"
  have "snd (run_spec (map_step 0) Map.empty ?ops) = [Yes True, Yes True, Yes True, Value 0 False, Value 6 True]" by simp
  with shrinking_map_is_map [OF good_order_sorted, of 0 "\<lambda>d n. d < 10 * n"
      "[WithShrinkingThresholdRatio None, WithShrinkingThresholdCount 1]" ?ops]
  show ?thesis by (elim exE conjE) (intro exI, simp only:)
qed


text \<open>The loops over the map visit every entry exactly once when the callback goes on: \<^verbatim>\<open>ForEach\<close> sees the
  entries, \<^verbatim>\<open>ForEachKey\<close> and \<^verbatim>\<open>Keys\<close> the keys without repetition, \<^verbatim>\<open>AsMap\<close> is an equal map, and \<^verbatim>\<open>Pop\<close>
  returns an entry and removes exactly it.\<close>

theorem shrinking_map_iterates:
  assumes "good_order ord" and "sm_inv s"
  shows "distinct (sm_ForEach (ord (sm_m s)) s (\<lambda>w e. (w @ [e], True)) [])
    \<and> set (sm_ForEach (ord (sm_m s)) s (\<lambda>w e. (w @ [e], True)) []) = Map.graph (sm_m s)
    \<and> sm_ForEachKey (ord (sm_m s)) s (\<lambda>w k. (w @ [k], True)) [] = sm_Keys (ord (sm_m s)) s
    \<and> enumerates (sm_Keys (ord (sm_m s)) s) (sm_m s)
    \<and> sm_AsMap (ord (sm_m s)) s = sm_m s
    \<and> (case sm_Pop zeroK zeroV ord s of (s', k, v, exists) \<Rightarrow>
         exists = (sm_m s \<noteq> Map.empty) \<and> sm_m s' = (if exists then (sm_m s)(k := None) else sm_m s)
         \<and> (if exists then sm_m s k = Some v else k = zeroK \<and> v = zeroV))"
proof -
  have ks: "enumerates (ord (sm_m s)) (sm_m s)" using assms by (simp add: good_orderD sm_inv_def)
  have all: "for_each (\<lambda>w e. (w @ [e], True)) es w = w @ es" for es and w :: "'e list"
    by (induction es arbitrary: w) simp_all
  have "sm_m s k = Some (the (sm_m s k))" if "k \<in> set (ord (sm_m s))" for k
    using that ks by (auto simp: enumerates_def)
  moreover have "sm_m (fst (sm_delete ord s k)) = (sm_m s)(k := None)" for k by (rule sm_delete_eq [OF assms])
  ultimately have "case sm_Pop zeroK zeroV ord s of (s', k, v, exists) \<Rightarrow>
         exists = (sm_m s \<noteq> Map.empty) \<and> sm_m s' = (if exists then (sm_m s)(k := None) else sm_m s)
         \<and> (if exists then sm_m s k = Some v else k = zeroK \<and> v = zeroV)"
    using ks by (cases "ord (sm_m s)") (auto simp: sm_Pop_def range_pairs_def enumerates_def)
  moreover have "sm_AsMap (ord (sm_m s)) s = sm_m s"
    using ks copy_by_range by (auto simp: sm_AsMap_def enumerates_def)
  ultimately show ?thesis
    using ks set_range_pairs [OF ks] distinct_range_pairs [OF ks]
    by (simp add: sm_ForEach_def sm_ForEachKey_def sm_Keys_def all Let_def)
qed

theorem shrinking_map_iterates_witness:
  "enumerates (sm_Keys [2, 3] \<lparr>sm_m = [2 \<mapsto> (5 :: int), 3 \<mapsto> 6], deletedKeys = 0,
      sm_opts = \<lparr>shrinkingThresholdRatio = None, shrinkingThresholdCount = 0\<rparr>\<rparr>) [2 \<mapsto> (5 :: int), (3 :: int) \<mapsto> 6]"
proof -
  let ?s = "\<lparr>sm_m = [2 \<mapsto> (5 :: int), (3 :: int) \<mapsto> 6], deletedKeys = 0,
      sm_opts = \<lparr>shrinkingThresholdRatio = None, shrinkingThresholdCount = 0\<rparr>\<rparr>"
  have "sm_inv ?s" by (simp add: sm_inv_def)
  note shrinking_map_iterates [OF good_order_sorted this, of 0 0]
  moreover have "sorted_list_of_set (dom (sm_m ?s)) = [2, 3]" by (simp add: insert_commute)
  moreover have "sm_m ?s = [2 \<mapsto> 5, 3 \<mapsto> 6]" by simp
  ultimately show ?thesis by (elim conjE) (simp only:)
qed

end
