(* ===== verification/Random_Map.thy ===== *)
theory Random_Map
  imports Shrinking_Map
begin

text \<open>
  The random map of \<^verbatim>\<open>ds/randommap/random_map.go\<close>: a shrinking map of entries and the slice of its keys, from which a
  random key is drawn. The random source is an argument.
\<close>

section \<open>Definitions\<close>

record ('k, 'v) randomMapEntry =
  re_key :: 'k
  re_value :: 'v
  keyIndex :: nat

record ('k, 'v) RandomMap =
  rawMap :: "('k, ('k, 'v) randomMapEntry) ShrinkingMap"
  rm_keys :: "'k list"

text \<open>The map holds pointers to entries that nothing else points to: an absent key gives nil, and writing through the
  pointer changes the entry under its key.\<close>

definition get_entry :: "('k, 'v) RandomMap \<Rightarrow> 'k \<Rightarrow> ('k, 'v) randomMapEntry option" where
  "get_entry r = sm_m (rawMap r)"

definition write_entry :: "('k, 'v) RandomMap \<Rightarrow> 'k \<Rightarrow> ('k, 'v) randomMapEntry \<Rightarrow> ('k, 'v) RandomMap" where
  "write_entry r k e = r\<lparr>rawMap := (rawMap r)\<lparr>sm_m := (sm_m (rawMap r))(k \<mapsto> e)\<rparr>\<rparr>"

definition RandomMap_New :: "(nat \<Rightarrow> nat \<Rightarrow> bool) \<Rightarrow> Option list \<Rightarrow> ('k, 'v) RandomMap" where
  "RandomMap_New below10 opts = \<lparr>rawMap = sm_New below10 opts, rm_keys = []\<rparr>"

definition RandomMap_Set :: "('k, 'v) RandomMap \<Rightarrow> 'k \<Rightarrow> 'v \<Rightarrow> ('k, 'v) RandomMap" where
  "RandomMap_Set r k v =
     (case get_entry r k of
        Some entry \<Rightarrow> write_entry r k (entry\<lparr>re_value := v\<rparr>)
      | None \<Rightarrow>
          r\<lparr>rawMap := fst (sm_Set (rawMap r) k \<lparr>re_key = k, re_value = v, keyIndex = sm_Size (rawMap r)\<rparr>),
            rm_keys := rm_keys r @ [k]\<rparr>)"

definition RandomMap_Get :: "'v \<Rightarrow> ('k, 'v) RandomMap \<Rightarrow> 'k \<Rightarrow> 'v \<times> bool" where
  "RandomMap_Get zero r k = (case get_entry r k of Some entry \<Rightarrow> (re_value entry, True) | None \<Rightarrow> (zero, False))"

definition RandomMap_Has :: "('k, 'v) RandomMap \<Rightarrow> 'k \<Rightarrow> bool" where
  "RandomMap_Has r k = sm_Has (rawMap r) k"

definition RandomMap_Delete ::
  "'k \<Rightarrow> 'v \<Rightarrow> (('k \<rightharpoonup> ('k, 'v) randomMapEntry) \<Rightarrow> 'k list) \<Rightarrow> ('k, 'v) RandomMap \<Rightarrow> 'k
     \<Rightarrow> (('k, 'v) RandomMap \<times> 'v \<times> bool) option" where
  "RandomMap_Delete defaultKey zero ord r k =
     (case get_entry r k of None \<Rightarrow> Some (r, zero, False)
      | Some entry \<Rightarrow> do {
          r \<leftarrow> (if keyIndex entry \<noteq> length (rm_keys r) then do {
                  let oldKeyIndex = keyIndex entry;
                  let movedKeyIndex = int (length (rm_keys r)) - 1;
                  movedKey \<leftarrow> slice_index (rm_keys r) movedKeyIndex;
                  movedEntry \<leftarrow> get_entry r movedKey;
                  let r = write_entry r movedKey (movedEntry\<lparr>keyIndex := oldKeyIndex\<rparr>);
                  keys \<leftarrow> slice_store (rm_keys r) (int oldKeyIndex) movedKey;
                  keys \<leftarrow> slice_store keys movedKeyIndex defaultKey;
                  Some (r\<lparr>rm_keys := keys\<rparr>)
                }
                else Some r);
          keys \<leftarrow> slice_range (rm_keys r) 0 (int (length (rm_keys r)) - 1);
          let (raw, deleted) = sm_Delete ord (rawMap r) k [];
          Some (r\<lparr>rawMap := raw, rm_keys := keys\<rparr>, re_value entry, deleted)
        })"

definition RandomMap_Size :: "('k, 'v) RandomMap \<Rightarrow> nat" where
  "RandomMap_Size r = sm_Size (rawMap r)"

definition RandomMap_forEach ::
  "'k list \<Rightarrow> ('k, 'v) RandomMap \<Rightarrow> ('w \<Rightarrow> 'k \<times> 'v \<Rightarrow> 'w \<times> bool) \<Rightarrow> 'w \<Rightarrow> 'w" where
  "RandomMap_forEach order r consumer w =
     sm_ForEach order (rawMap r) (\<lambda>w (k, entry). consumer w (k, re_value entry)) w"

text \<open>\<^verbatim>\<open>rand.Intn(n)\<close> and \<^verbatim>\<open>rand.Perm(n)\<close> are the arguments \<open>intn\<close> and \<open>perm\<close>; \<^verbatim>\<open>Intn\<close> panics for 0.\<close>

definition RandomMap_randomKey :: "(nat \<Rightarrow> nat) \<Rightarrow> ('k, 'v) RandomMap \<Rightarrow> 'k option" where
  "RandomMap_randomKey intn r =
     (if sm_Size (rawMap r) = 0 then None else slice_index (rm_keys r) (int (intn (sm_Size (rawMap r)))))"

definition RandomMap_RandomKey :: "'k \<Rightarrow> (nat \<Rightarrow> nat) \<Rightarrow> ('k, 'v) RandomMap \<Rightarrow> ('k \<times> bool) option" where
  "RandomMap_RandomKey defaultValue intn r =
     (if length (rm_keys r) = 0 then Some (defaultValue, False)
      else do { k \<leftarrow> RandomMap_randomKey intn r; Some (k, True) })"

definition RandomMap_RandomEntry :: "'v \<Rightarrow> (nat \<Rightarrow> nat) \<Rightarrow> ('k, 'v) RandomMap \<Rightarrow> ('v \<times> bool) option" where
  "RandomMap_RandomEntry defaultValue intn r =
     (if sm_Size (rawMap r) = 0 then Some (defaultValue, False)
      else do {
        k \<leftarrow> RandomMap_randomKey intn r;
        case get_entry r k of Some entry \<Rightarrow> Some (re_value entry, True) | None \<Rightarrow> Some (defaultValue, False)
      })"

fun unique_loop :: "('k, 'v) RandomMap \<Rightarrow> nat \<Rightarrow> nat list \<Rightarrow> 'v list \<Rightarrow> 'v list option" where
  "unique_loop r count [] results = Some results"
| "unique_loop r count (i # is) results =
     (if length results < count then do {
        randomKey \<leftarrow> slice_index (rm_keys r) (int i);
        case get_entry r randomKey of
          Some entry \<Rightarrow> unique_loop r count is (results @ [re_value entry])
        | None \<Rightarrow> unique_loop r count is results
      }
      else Some results)"

definition RandomMap_RandomUniqueEntries ::
  "'k list \<Rightarrow> (nat \<Rightarrow> nat list) \<Rightarrow> ('k, 'v) RandomMap \<Rightarrow> int \<Rightarrow> 'v list option" where
  "RandomMap_RandomUniqueEntries order perm r count =
     (if count < 1 then Some []
      else if int (sm_Size (rawMap r)) \<le> count then
        Some (RandomMap_forEach order r (\<lambda>results (k, v). (results @ [v], True)) [])
      else unique_loop r (nat count) (perm (length (rm_keys r))) [])"

definition RandomMap_Keys :: "'k \<Rightarrow> ('k, 'v) RandomMap \<Rightarrow> 'k list" where
  "RandomMap_Keys zero r = go_copy (replicate (sm_Size (rawMap r)) zero) (rm_keys r)"

definition RandomMap_Values :: "'k list \<Rightarrow> ('k, 'v) RandomMap \<Rightarrow> 'v list" where
  "RandomMap_Values order r = RandomMap_forEach order r (\<lambda>result (k, v). (result @ [v], True)) []"

text \<open>The invariant: the keys are the domain without repetition, and each entry knows its position.\<close>

definition random_inv :: "('k, 'v) RandomMap \<Rightarrow> bool" where
  "random_inv r \<longleftrightarrow> distinct (rm_keys r) \<and> set (rm_keys r) = dom (get_entry r) \<and>
     (\<forall>k e. get_entry r k = Some e \<longrightarrow> re_key e = k \<and> keyIndex e < length (rm_keys r) \<and> rm_keys r ! keyIndex e = k)"

definition random_abs :: "('k, 'v) RandomMap \<Rightarrow> 'k \<rightharpoonup> 'v" where
  "random_abs r k = map_option re_value (get_entry r k)"

datatype ('k, 'v) random_op = RSet 'k 'v | RGet 'k | RHas 'k | RDelete 'k | RSize

fun random_step ::
  "'k \<Rightarrow> 'v \<Rightarrow> (('k \<rightharpoonup> ('k, 'v) randomMapEntry) \<Rightarrow> 'k list) \<Rightarrow> ('k, 'v) RandomMap \<Rightarrow> ('k, 'v) random_op
     \<Rightarrow> (('k, 'v) RandomMap \<times> 'v map_result) option" where
  "random_step zk zv ord r (RSet k v) = Some (RandomMap_Set r k v, Nothing)"
| "random_step zk zv ord r (RGet k) = Some (r, case RandomMap_Get zv r k of (v, ok) \<Rightarrow> Value v ok)"
| "random_step zk zv ord r (RHas k) = Some (r, Yes (RandomMap_Has r k))"
| "random_step zk zv ord r (RDelete k) =
     map_option (\<lambda>(r, v, deleted). (r, Value v deleted)) (RandomMap_Delete zk zv ord r k)"
| "random_step zk zv ord r RSize = Some (r, Size (RandomMap_Size r))"

fun random_spec :: "'v \<Rightarrow> ('k \<rightharpoonup> 'v) \<Rightarrow> ('k, 'v) random_op \<Rightarrow> ('k \<rightharpoonup> 'v) \<times> 'v map_result" where
  "random_spec zv m (RSet k v) = (m(k \<mapsto> v), Nothing)"
| "random_spec zv m (RGet k) = (m, case m k of None \<Rightarrow> Value zv False | Some v \<Rightarrow> Value v True)"
| "random_spec zv m (RHas k) = (m, Yes (m k \<noteq> None))"
| "random_spec zv m (RDelete k) = (m(k := None), case m k of None \<Rightarrow> Value zv False | Some v \<Rightarrow> Value v True)"
| "random_spec zv m RSize = (m, Size (card (dom m)))"

section \<open>Lemmas\<close>

lemma random_size: "random_inv r \<Longrightarrow> sm_Size (rawMap r) = length (rm_keys r)"
  by (auto simp: random_inv_def sm_Size_def map_len_def get_entry_def dest: distinct_card)

lemma dom_random_abs: "dom (random_abs r) = dom (get_entry r)"
  by (auto simp: random_abs_def)

lemma random_Set_ok:
  assumes inv: "random_inv r"
  shows "random_inv (RandomMap_Set r k v) \<and> random_abs (RandomMap_Set r k v) = (random_abs r)(k \<mapsto> v)"
proof (cases "get_entry r k")
  case None
  have "k \<notin> set (rm_keys r)" using inv None by (auto simp: random_inv_def)
  with inv None random_size [OF inv] show ?thesis
    by (auto simp: RandomMap_Set_def random_inv_def random_abs_def get_entry_def nth_append fun_eq_iff less_Suc_eq)
next
  case (Some e)
  with inv show ?thesis
    by (auto simp: RandomMap_Set_def random_inv_def random_abs_def get_entry_def write_entry_def fun_eq_iff)
qed

text \<open>The position of the deleted key takes the last key.\<close>

definition keys_without :: "'k list \<Rightarrow> nat \<Rightarrow> 'k list" where
  "keys_without ks i = (if i = length ks - 1 then butlast ks else (butlast ks)[i := last ks])"

lemma keys_without_ok:
  assumes "distinct ks" and "i < length ks"
  shows "distinct (keys_without ks i)" and "set (keys_without ks i) = set ks - {ks ! i}"
    and "j < length ks \<Longrightarrow> j \<noteq> i \<Longrightarrow> ks ! j \<noteq> last ks \<Longrightarrow> j < length (keys_without ks i) \<and> keys_without ks i ! j = ks ! j"
    and "ks ! i \<noteq> last ks \<Longrightarrow> i < length (keys_without ks i) \<and> keys_without ks i ! i = last ks"
proof -
  obtain ys m where ks: "ks = ys @ [m]" using assms(2) by (cases ks rule: rev_cases) auto
  then have d: "distinct ys" "m \<notin> set ys" using assms(1) by auto
  show "distinct (keys_without ks i)"
    using d ks by (auto simp: keys_without_def intro: distinct_list_update)
  show "set (keys_without ks i) = set ks - {ks ! i}"
    using d ks assms(2) by (auto simp: keys_without_def nth_append set_update_distinct less_Suc_eq)
  show "j < length (keys_without ks i) \<and> keys_without ks i ! j = ks ! j"
    if "j < length ks" "j \<noteq> i" "ks ! j \<noteq> last ks" for j
    using that ks by (auto simp: keys_without_def nth_append less_Suc_eq split: if_splits)
  show "i < length (keys_without ks i) \<and> keys_without ks i ! i = last ks" if "ks ! i \<noteq> last ks"
    using that ks assms(2) by (auto simp: keys_without_def nth_append less_Suc_eq split: if_splits)
qed

lemma shortened_keys:
  assumes "i < length ks"
  shows "take (length ks - 1) (ks[i := last ks, length ks - 1 := z]) = keys_without ks i"
  using assms by (cases ks rule: rev_cases) (auto simp: keys_without_def list_update_append)

definition entries_without ::
  "('k \<rightharpoonup> ('k, 'v) randomMapEntry) \<Rightarrow> 'k list \<Rightarrow> nat \<Rightarrow> 'k \<Rightarrow> 'k \<rightharpoonup> ('k, 'v) randomMapEntry" where
  "entries_without m ks i k = (m(last ks \<mapsto> (the (m (last ks)))\<lparr>keyIndex := i\<rparr>))(k := None)"

lemma RandomMap_Delete_eq:
  assumes ord: "good_order ord" and inv: "random_inv r" and e: "get_entry r k = Some e"
  shows "\<exists>r'. RandomMap_Delete zk zv ord r k = Some (r', re_value e, True) \<and>
    rm_keys r' = keys_without (rm_keys r) (keyIndex e) \<and>
    get_entry r' = entries_without (get_entry r) (rm_keys r) (keyIndex e) k"
proof -
  let ?ks = "rm_keys r" and ?i = "keyIndex e"
  from inv e have i: "?i < length ?ks" "?ks ! ?i = k" by (auto simp: random_inv_def)
  then have l: "slice_index ?ks (int (length ?ks) - 1) = Some (last ?ks)"
    by (auto simp: slice_index_def last_conv_nth nat_diff_distrib)
  have "last ?ks \<in> set ?ks" using i(1) by (intro last_in_set) auto
  then obtain me where me: "get_entry r (last ?ks) = Some me" using inv by (auto simp: random_inv_def)
  define r1 where "r1 = write_entry r (last ?ks) (me\<lparr>keyIndex := ?i\<rparr>)"
  have m1: "sm_m (rawMap r1) = (get_entry r)(last ?ks \<mapsto> me\<lparr>keyIndex := ?i\<rparr>)"
    by (simp add: r1_def write_entry_def get_entry_def)
  have "finite (dom (get_entry r))" using inv by (metis List.finite_set random_inv_def)
  then have "sm_inv (rawMap r1)" by (simp add: sm_inv_def m1)
  note del = sm_delete_eq [OF ord this, of k]
  have has: "sm_m (rawMap r1) k \<noteq> None" using e by (simp add: m1)
  have st: "slice_store (?ks[?i := last ?ks]) (int (length ?ks) - 1) zk = Some (?ks[?i := last ?ks, length ?ks - 1 := zk])"
    using i(1) by (auto simp: slice_store_def nat_diff_distrib)
  have tk: "slice_range (?ks[?i := last ?ks, length ?ks - 1 := zk]) 0 (int (length ?ks) - 1) = Some (keys_without ?ks ?i)"
    using i(1) shortened_keys [OF i(1), of zk] by (auto simp: slice_range_def nat_diff_distrib)
  have "RandomMap_Delete zk zv ord r k =
      Some (r1\<lparr>rawMap := fst (sm_delete ord (rawMap r1) k), rm_keys := keys_without ?ks ?i\<rparr>, re_value e, True)"
    using i e l me st tk del(2) has
    by (simp add: RandomMap_Delete_def sm_Delete_def Let_def case_prod_beta flip: r1_def)
       (simp add: r1_def write_entry_def)
  moreover have "get_entry (r1\<lparr>rawMap := fst (sm_delete ord (rawMap r1) k), rm_keys := keys_without ?ks ?i\<rparr>) =
      entries_without (get_entry r) ?ks ?i k"
    using del(1) me by (simp add: get_entry_def entries_without_def m1)
  ultimately show ?thesis by auto
qed

lemma random_Delete_ok:
  assumes ord: "good_order ord" and inv: "random_inv r" and e: "get_entry r k = Some e"
  shows "\<exists>r'. RandomMap_Delete zk zv ord r k = Some (r', re_value e, True) \<and> random_inv r' \<and>
    random_abs r' = (random_abs r)(k := None)"
proof -
  obtain r' where r': "RandomMap_Delete zk zv ord r k = Some (r', re_value e, True)"
    "rm_keys r' = keys_without (rm_keys r) (keyIndex e)"
    "get_entry r' = entries_without (get_entry r) (rm_keys r) (keyIndex e) k"
    using RandomMap_Delete_eq [OF assms] by auto
  let ?ks = "rm_keys r" and ?i = "keyIndex e"
  from inv have d: "distinct ?ks" and dom: "set ?ks = dom (get_entry r)"
    and ent: "\<And>k e. get_entry r k = Some e \<Longrightarrow> re_key e = k \<and> keyIndex e < length ?ks \<and> ?ks ! keyIndex e = k"
    by (auto simp: random_inv_def)
  have i: "?i < length ?ks" "?ks ! ?i = k" using ent [OF e] by simp_all
  have "?ks \<noteq> []" using i(1) by auto
  then have last: "last ?ks \<in> dom (get_entry r)" unfolding dom [symmetric] by (rule last_in_set)
  note ok = keys_without_ok [OF d i(1)]
  have "re_key e' = k' \<and> keyIndex e' < length (rm_keys r') \<and> rm_keys r' ! keyIndex e' = k'"
    if "get_entry r' k' = Some e'" for k' e'
  proof (cases "k' = last ?ks")
    case True
    then have "k \<noteq> last ?ks" "e' = (the (get_entry r (last ?ks)))\<lparr>keyIndex := ?i\<rparr>"
      using that by (auto simp: r'(3) entries_without_def split: if_splits)
    then show ?thesis using True ok(4) i(2) last ent by (auto simp: r'(2))
  next
    case False
    then have e': "get_entry r k' = Some e'" "k' \<noteq> k" using that by (auto simp: r'(3) entries_without_def split: if_splits)
    note en = ent [OF e'(1)]
    then have "keyIndex e' \<noteq> ?i" using e'(2) i(2) by auto
    with en False ok(3) [of "keyIndex e'"] show ?thesis by (simp add: r'(2))
  qed
  moreover have "set (rm_keys r') = dom (get_entry r')"
    using last by (auto simp: r'(2,3) ok(2) i(2) dom entries_without_def)
  moreover have "random_abs r' = (random_abs r)(k := None)"
    using last by (auto simp: random_abs_def r'(3) entries_without_def fun_eq_iff)
  ultimately show ?thesis using r' ok(1) by (auto simp: random_inv_def)
qed

interpretation random_map: data_refinement "random_step zk zv (ord :: ('k \<rightharpoonup> ('k, 'v) randomMapEntry) \<Rightarrow> 'k list)"
  "random_spec zv" random_abs "\<lambda>r. good_order ord \<and> random_inv r"
proof
  fix r :: "('k, 'v) RandomMap" and op
  assume *: "good_order ord \<and> random_inv r"
  note del = random_Delete_ok [OF conjunct1 [OF *] conjunct2 [OF *]]
  show "\<exists>r'. random_step zk zv ord r op = Some (r', snd (random_spec zv (random_abs r) op)) \<and>
      (good_order ord \<and> random_inv r') \<and> random_abs r' = fst (random_spec zv (random_abs r) op)"
  proof (cases op)
    case (RSet k v)
    then show ?thesis using * random_Set_ok [of r k v] by simp
  next
    case (RDelete k)
    show ?thesis
    proof (cases "get_entry r k")
      case None
      then show ?thesis using * by (simp add: RDelete RandomMap_Delete_def random_abs_def fun_upd_idem)
    next
      case (Some e)
      then show ?thesis using * del [OF Some, of zk zv] by (auto simp: RDelete random_abs_def)
    qed
  next
    case RSize
    have "card (dom (random_abs r)) = length (rm_keys r)"
      using * unfolding dom_random_abs by (metis distinct_card random_inv_def)
    then show ?thesis using * by (simp add: RSize RandomMap_Size_def random_size)
  qed (use * in \<open>simp_all add: RandomMap_Get_def RandomMap_Has_def sm_Has_def get_entry_def random_abs_def
      split: option.split\<close>)
qed

subsection \<open>Random entries\<close>

lemma unique_loop_ok:
  assumes inv: "random_inv r"
  shows "set is \<subseteq> {..<length (rm_keys r)} \<Longrightarrow>
    unique_loop r n is acc = Some (acc @ map (\<lambda>i. the (random_abs r (rm_keys r ! i))) (take (n - length acc) is))"
proof (induction "is" arbitrary: acc)
  case (Cons i "is")
  have "rm_keys r ! i \<in> dom (get_entry r)" using Cons.prems inv by (auto simp: random_inv_def simp flip: set_conv_nth)
  then obtain e where "get_entry r (rm_keys r ! i) = Some e" by blast
  moreover have "take (n - length acc) (i # is) = i # take (n - Suc (length acc)) is" if "length acc < n"
    using that by (metis Suc_diff_Suc take_Suc_Cons)
  ultimately show ?case using Cons by (auto simp: random_abs_def)
qed simp

lemma random_keys_copy: "random_inv r \<Longrightarrow> RandomMap_Keys z r = rm_keys r"
  by (simp add: RandomMap_Keys_def random_size)

lemma random_forEach_values:
  "RandomMap_forEach order r (\<lambda>w (k, v). (w @ [v], True)) ws = ws @ map (\<lambda>k. re_value (the (get_entry r k))) order"
  by (induction order arbitrary: ws) (simp_all add: RandomMap_forEach_def sm_ForEach_def range_pairs_def get_entry_def)

section \<open>Properties\<close>

text \<open>C19: Every sequence of operations on a new random map gives the results of a plain map without a panic, although a
  deletion moves the last key into the gap; afterwards \<^verbatim>\<open>Keys\<close> lists every key exactly once, which is what the
  random choice draws from.\<close>

theorem random_map_is_map:
  fixes zk z :: 'k and zv :: 'v
  assumes "good_order ord"
  shows "\<exists>r'. run_ops (random_step zk zv ord) (RandomMap_New below10 opts) ops
      = Some (r', snd (run_spec (random_spec zv) Map.empty ops))
    \<and> random_abs r' = fst (run_spec (random_spec zv) Map.empty ops)
    \<and> enumerates (RandomMap_Keys z r') (random_abs r')"
proof -
  let ?r = "RandomMap_New below10 opts :: ('k, 'v) RandomMap"
  have "random_inv ?r" "random_abs ?r = Map.empty"
    by (simp_all add: random_inv_def random_abs_def [abs_def] RandomMap_New_def get_entry_def)
  then obtain r' where "run_ops (random_step zk zv ord) (RandomMap_New below10 opts) ops
      = Some (r', snd (run_spec (random_spec zv) Map.empty ops))"
    "random_inv r'" "random_abs r' = fst (run_spec (random_spec zv) Map.empty ops)"
    using random_map.run_refines [where s = ?r and zk = zk and zv = zv and ord = ord and ops = ops] assms
    by auto
  then show ?thesis
    using random_keys_copy [of r' z] dom_random_abs [of r'] by (auto simp: enumerates_def random_inv_def)
qed

text \<open>\<^verbatim>\<open>RandomUniqueEntries\<close> returns, for any permutation the random source gives, the values of exactly
  \<^verbatim>\<open>count\<close> different keys of the map, or of all keys if there are fewer.\<close>

theorem random_unique_entries:
  assumes "random_inv r" and "0 \<le> count"
    and "\<forall>n. distinct (perm n) \<and> set (perm n) = {..<n}" and "enumerates order (random_abs r)"
  shows "\<exists>ks. RandomMap_RandomUniqueEntries order perm r count = Some (map (\<lambda>k. the (random_abs r k)) ks)
    \<and> distinct ks \<and> set ks \<subseteq> dom (random_abs r) \<and> length ks = min (nat count) (card (dom (random_abs r)))"
proof -
  have n: "card (dom (random_abs r)) = length (rm_keys r)" "set (rm_keys r) = dom (random_abs r)" "distinct (rm_keys r)"
    using assms(1) unfolding dom_random_abs by (auto simp: random_inv_def distinct_card [symmetric])
  consider "count = 0" | "0 < count" "int (length (rm_keys r)) \<le> count" | "0 < count" "count < int (length (rm_keys r))"
    using assms(2) by linarith
  then show ?thesis
  proof cases
    case 1
    then show ?thesis by (simp add: RandomMap_RandomUniqueEntries_def)
  next
    case 2
    have "map (\<lambda>k. re_value (the (get_entry r k))) order = map (\<lambda>k. the (random_abs r k)) order"
      using assms(4) by (auto simp: random_abs_def enumerates_def)
    moreover have "length order = length (rm_keys r)"
      using assms(4) n by (metis distinct_card enumerates_def)
    ultimately show ?thesis using 2 assms(4) n
      by (intro exI [of _ order])
         (simp add: RandomMap_RandomUniqueEntries_def random_size [OF assms(1)] random_forEach_values enumerates_def)
  next
    case 3
    let ?is = "take (nat count) (perm (length (rm_keys r)))"
    have p: "distinct ?is" "set ?is \<subseteq> {..<length (rm_keys r)}" "length (perm (length (rm_keys r))) = length (rm_keys r)"
      using assms(3) by (auto dest: in_set_takeD) (metis card_lessThan distinct_card)
    have "RandomMap_RandomUniqueEntries order perm r count
        = Some (map (\<lambda>k. the (random_abs r k)) (map (\<lambda>i. rm_keys r ! i) ?is))"
      using 3 assms(3) unique_loop_ok [OF assms(1), of "perm (length (rm_keys r))" "nat count" "[]"]
      by (simp add: RandomMap_RandomUniqueEntries_def random_size [OF assms(1)] comp_def)
    moreover have "distinct (map (\<lambda>i. rm_keys r ! i) ?is)"
      using p n(3) inj_on_nth [of "rm_keys r" "set ?is"] by (auto simp: distinct_map)
    moreover have "set (map (\<lambda>i. rm_keys r ! i) ?is) \<subseteq> dom (random_abs r)"
      using p(2) unfolding n(2) [symmetric] by (auto intro!: nth_mem)
    moreover have "length (map (\<lambda>i. rm_keys r ! i) ?is) = min (nat count) (card (dom (random_abs r)))"
      using p(3) n(1) by (simp add: min.commute)
    ultimately show ?thesis by blast
  qed
qed

theorem random_map_is_map_witness:
  "\<exists>r'. run_ops (random_step 0 0 (\<lambda>m. sorted_list_of_set (dom m))) (RandomMap_New (\<lambda>d n. d < 10 * n) [])
        [RSet (1 :: int) (5 :: int), RSet 2 6, RSet 3 7, RDelete 1, RGet 3, RSize]
      = Some (r', [Nothing, Nothing, Nothing, Value 5 True, Value 7 True, Size 2])"
proof -
  let ?ops = "[RSet (1 :: int) (5 :: int), RSet 2 6, RSet 3 7, RDelete 1, RGet 3, RSize]"
  have "snd (run_spec (random_spec 0) Map.empty ?ops) = [Nothing, Nothing, Nothing, Value 5 True, Value 7 True, Size 2]"
    by simp
  with random_map_is_map [OF good_order_sorted, of 0 0 "\<lambda>d n. d < 10 * n" "[]" ?ops 0]
  show ?thesis by (elim exE conjE) (intro exI, simp only:)
qed

theorem random_unique_entries_witness:
  "\<exists>ks. RandomMap_RandomUniqueEntries [1, 2] (\<lambda>n. rev [0..<n])
       \<lparr>rawMap = \<lparr>sm_m = [1 \<mapsto> \<lparr>re_key = 1, re_value = 5, keyIndex = 0\<rparr>, 2 \<mapsto> \<lparr>re_key = 2, re_value = 6, keyIndex = 1\<rparr>],
           deletedKeys = 0, sm_opts = \<lparr>shrinkingThresholdRatio = None, shrinkingThresholdCount = 0\<rparr>\<rparr>,
         rm_keys = [1, 2 :: int]\<rparr> 1 = Some (map (\<lambda>k. the ([(1 :: int) \<mapsto> (5 :: int), 2 \<mapsto> 6] k)) ks) \<and> length ks = 1"
proof -
  let ?r = "\<lparr>rawMap = \<lparr>sm_m = [1 \<mapsto> \<lparr>re_key = 1, re_value = 5 :: int, keyIndex = 0\<rparr>, 2 \<mapsto> \<lparr>re_key = 2, re_value = 6, keyIndex = 1\<rparr>],
           deletedKeys = 0, sm_opts = \<lparr>shrinkingThresholdRatio = None, shrinkingThresholdCount = 0\<rparr>\<rparr>,
         rm_keys = [1, 2 :: int]\<rparr>"
  have abs: "random_abs ?r = [1 \<mapsto> 5, 2 \<mapsto> 6]" by (auto simp: random_abs_def get_entry_def)
  have inv: "random_inv ?r" by (auto simp: random_inv_def get_entry_def split: if_splits)
  have perm: "\<forall>n. distinct (rev [0..<n]) \<and> set (rev [0..<n]) = {..<n}" by auto
  have enum: "enumerates [1, 2] (random_abs ?r)" unfolding abs by (auto simp: enumerates_def split: if_splits)
  have one: "min (nat 1) (card (dom [(1 :: int) \<mapsto> (5 :: int), 2 \<mapsto> 6])) = 1" by simp
  show ?thesis
    using random_unique_entries [OF inv zero_le_one perm enum] unfolding abs one by blast
qed

end
