(* ===== verification/Map_Clients.thy ===== *)
theory Map_Clients
  imports Shrinking_Map
begin

text \<open>
  Clients of the shrinking map: the filter of \<^verbatim>\<open>ds/bytesfilter/bytesfilter.go\<close> and the indexed storage of
  \<^verbatim>\<open>core/memstorage/indexedstorage.go\<close>. Every exported method holds the lock for its whole body.
\<close>

section \<open>Definitions\<close>


subsection \<open>Bytes filter\<close>

record ('b, 'i) BytesFilter =
  knownIdentifiers :: "('i, unit) ShrinkingMap"
  identifiers :: "'i list"
  newIdentifierFunc :: "'b \<Rightarrow> 'i"
  bf_size :: int

definition BytesFilter_New :: "(nat \<Rightarrow> nat \<Rightarrow> bool) \<Rightarrow> ('b \<Rightarrow> 'i) \<Rightarrow> int \<Rightarrow> ('b, 'i) BytesFilter option" where
  "BytesFilter_New below10 f sz =
     (if sz < 0 then None
      else Some \<lparr>knownIdentifiers = sm_New below10 [WithShrinkingThresholdCount sz], identifiers = [],
                newIdentifierFunc = f, bf_size = sz\<rparr>)"

definition BytesFilter_addIdentifier ::
  "(('i \<rightharpoonup> unit) \<Rightarrow> 'i list) \<Rightarrow> ('b, 'i) BytesFilter \<Rightarrow> 'i \<Rightarrow> (('b, 'i) BytesFilter \<times> bool) option" where
  "BytesFilter_addIdentifier ord b identifier =
     (if snd (sm_Get () (knownIdentifiers b) identifier) then Some (b, False)
      else do {
        b \<leftarrow> (if int (length (identifiers b)) = bf_size b then do {
                oldest \<leftarrow> slice_index (identifiers b) 0;
                let known = fst (sm_Delete ord (knownIdentifiers b) oldest []);
                rest \<leftarrow> slice_from (identifiers b) 1;
                Some (b\<lparr>knownIdentifiers := known, identifiers := rest @ [identifier]\<rparr>)
              }
              else Some (b\<lparr>identifiers := identifiers b @ [identifier]\<rparr>));
        Some (b\<lparr>knownIdentifiers := fst (sm_Set (knownIdentifiers b) identifier ())\<rparr>, True)
      })"

definition BytesFilter_Add ::
  "(('i \<rightharpoonup> unit) \<Rightarrow> 'i list) \<Rightarrow> ('b, 'i) BytesFilter \<Rightarrow> 'b \<Rightarrow> (('b, 'i) BytesFilter \<times> 'i \<times> bool) option" where
  "BytesFilter_Add ord b bytes = do {
     let identifier = newIdentifierFunc b bytes;
     (b, added) \<leftarrow> BytesFilter_addIdentifier ord b identifier;
     Some (b, identifier, added)
   }"

definition BytesFilter_AddIdentifier ::
  "(('i \<rightharpoonup> unit) \<Rightarrow> 'i list) \<Rightarrow> ('b, 'i) BytesFilter \<Rightarrow> 'i \<Rightarrow> (('b, 'i) BytesFilter \<times> bool) option" where
  "BytesFilter_AddIdentifier ord b identifier = BytesFilter_addIdentifier ord b identifier"

definition BytesFilter_ContainsIdentifier :: "('b, 'i) BytesFilter \<Rightarrow> 'i \<Rightarrow> bool" where
  "BytesFilter_ContainsIdentifier b identifier = snd (sm_Get () (knownIdentifiers b) identifier)"

definition BytesFilter_Contains :: "('b, 'i) BytesFilter \<Rightarrow> 'b \<Rightarrow> bool" where
  "BytesFilter_Contains b bytes = snd (sm_Get () (knownIdentifiers b) (newIdentifierFunc b bytes))"

datatype ('b, 'i) filter_op = FAdd 'b | FAddIdentifier 'i | FContains 'b | FContainsIdentifier 'i

fun filter_step ::
  "(('i \<rightharpoonup> unit) \<Rightarrow> 'i list) \<Rightarrow> ('b, 'i) BytesFilter \<Rightarrow> ('b, 'i) filter_op
     \<Rightarrow> (('b, 'i) BytesFilter \<times> 'i option \<times> bool) option" where
  "filter_step ord b (FAdd x) = map_option (\<lambda>(b, i, added). (b, Some i, added)) (BytesFilter_Add ord b x)"
| "filter_step ord b (FAddIdentifier i) =
     map_option (\<lambda>(b, added). (b, None, added)) (BytesFilter_AddIdentifier ord b i)"
| "filter_step ord b (FContains x) = Some (b, None, BytesFilter_Contains b x)"
| "filter_step ord b (FContainsIdentifier i) = Some (b, None, BytesFilter_ContainsIdentifier b i)"

text \<open>The specification: a window of the most recently added identifiers.\<close>

definition window_add :: "nat \<Rightarrow> 'i list \<Rightarrow> 'i \<Rightarrow> 'i list" where
  "window_add n xs i = (if i \<in> set xs then xs else (if length xs = n then tl xs else xs) @ [i])"

fun window_step ::
  "('b \<Rightarrow> 'i) \<times> nat \<times> 'i list \<Rightarrow> ('b, 'i) filter_op \<Rightarrow> (('b \<Rightarrow> 'i) \<times> nat \<times> 'i list) \<times> 'i option \<times> bool" where
  "window_step (f, n, xs) (FAdd x) = ((f, n, window_add n xs (f x)), Some (f x), f x \<notin> set xs)"
| "window_step (f, n, xs) (FAddIdentifier i) = ((f, n, window_add n xs i), None, i \<notin> set xs)"
| "window_step (f, n, xs) (FContains x) = ((f, n, xs), None, f x \<in> set xs)"
| "window_step (f, n, xs) (FContainsIdentifier i) = ((f, n, xs), None, i \<in> set xs)"

definition filter_abs :: "('b, 'i) BytesFilter \<Rightarrow> ('b \<Rightarrow> 'i) \<times> nat \<times> 'i list" where
  "filter_abs b = (newIdentifierFunc b, nat (bf_size b), identifiers b)"

definition filter_inv :: "('b, 'i) BytesFilter \<Rightarrow> bool" where
  "filter_inv b \<longleftrightarrow>
     0 < bf_size b \<and> distinct (identifiers b) \<and> int (length (identifiers b)) \<le> bf_size b \<and>
     dom (sm_m (knownIdentifiers b)) = set (identifiers b)"

subsection \<open>Indexed storage\<close>

text \<open>The storages live on a heap, here the list of all storages that were allocated; a pointer is a position in it.\<close>

record ('i, 'k, 'v) IndexedStorage =
  cache :: "('i, nat) ShrinkingMap"
  storages :: "('k, 'v) ShrinkingMap list"

definition NewIndexedStorage :: "(nat \<Rightarrow> nat \<Rightarrow> bool) \<Rightarrow> ('i, 'k, 'v) IndexedStorage" where
  "NewIndexedStorage below10 = \<lparr>cache = sm_New below10 [], storages = []\<rparr>"

definition IndexedStorage_Evict ::
  "(('i \<rightharpoonup> nat) \<Rightarrow> 'i list) \<Rightarrow> ('i, 'k, 'v) IndexedStorage \<Rightarrow> 'i \<Rightarrow> ('i, 'k, 'v) IndexedStorage \<times> nat option" where
  "IndexedStorage_Evict ord e index =
     (case sm_m (cache e) index of
        Some p \<Rightarrow> (e\<lparr>cache := fst (sm_Delete ord (cache e) index [])\<rparr>, Some p)
      | None \<Rightarrow> (e, None))"

definition IndexedStorage_Get ::
  "(nat \<Rightarrow> nat \<Rightarrow> bool) \<Rightarrow> ('i, 'k, 'v) IndexedStorage \<Rightarrow> 'i \<Rightarrow> bool list \<Rightarrow> ('i, 'k, 'v) IndexedStorage \<times> nat option" where
  "IndexedStorage_Get below10 e index createIfMissing =
     (case sm_m (cache e) index of
        Some p \<Rightarrow> (e, Some p)
      | None \<Rightarrow>
          if createIfMissing = [] \<or> \<not> hd createIfMissing then (e, None)
          else let p = length (storages e) in
            (e\<lparr>storages := storages e @ [sm_New below10 []], cache := fst (sm_Set (cache e) index p)\<rparr>, Some p))"

definition IndexedStorage_ForEach ::
  "'i list \<Rightarrow> ('i, 'k, 'v) IndexedStorage \<Rightarrow> ('w \<Rightarrow> 'i \<Rightarrow> nat \<Rightarrow> 'w) \<Rightarrow> 'w \<Rightarrow> 'w" where
  "IndexedStorage_ForEach order e f w = sm_ForEach order (cache e) (\<lambda>w (index, p). (f w index p, True)) w"

definition IndexedStorage_Clear ::
  "(nat \<Rightarrow> nat \<Rightarrow> bool) \<Rightarrow> 'i list \<Rightarrow> ('i, 'k, 'v) IndexedStorage
     \<Rightarrow> ('i, 'k, 'v) IndexedStorage \<times> 'i list \<times> nat list" where
  "IndexedStorage_Clear below10 order e =
     (let (clearedKeys, clearedStorages) =
            sm_ForEach order (cache e) (\<lambda>(ks, ps) (index, p). ((ks @ [index], ps @ [p]), True)) ([], [])
      in (e\<lparr>cache := sm_New below10 []\<rparr>, clearedKeys, clearedStorages))"

datatype 'i storage_op = SGet 'i bool | SEvict 'i | SClear

fun storage_step ::
  "(nat \<Rightarrow> nat \<Rightarrow> bool) \<Rightarrow> (('i \<rightharpoonup> nat) \<Rightarrow> 'i list) \<Rightarrow> ('i, 'k, 'v) IndexedStorage \<Rightarrow> 'i storage_op
     \<Rightarrow> ('i, 'k, 'v) IndexedStorage" where
  "storage_step below10 ord e (SGet i create) = fst (IndexedStorage_Get below10 e i [create])"
| "storage_step below10 ord e (SEvict i) = fst (IndexedStorage_Evict ord e i)"
| "storage_step below10 ord e SClear = fst (IndexedStorage_Clear below10 (ord (sm_m (cache e))) e)"

text \<open>Every index has its own storage.\<close>

definition storage_inv :: "('i, 'k, 'v) IndexedStorage \<Rightarrow> bool" where
  "storage_inv e \<longleftrightarrow> finite (dom (sm_m (cache e))) \<and> inj_on (sm_m (cache e)) (dom (sm_m (cache e))) \<and>
     ran (sm_m (cache e)) \<subseteq> {..<length (storages e)}"

section \<open>Lemmas\<close>

subsection \<open>Bytes filter\<close>


lemma filter_known: "filter_inv b \<Longrightarrow> snd (sm_Get () (knownIdentifiers b) i) \<longleftrightarrow> i \<in> set (identifiers b)"
  by (auto simp: sm_Get_map filter_inv_def split: option.split)

lemma filter_add:
  assumes ord: "good_order ord" and inv: "filter_inv b"
  shows "\<exists>b'. BytesFilter_addIdentifier ord b i = Some (b', i \<notin> set (identifiers b)) \<and> filter_inv b' \<and>
    newIdentifierFunc b' = newIdentifierFunc b \<and> bf_size b' = bf_size b \<and>
    identifiers b' = window_add (nat (bf_size b)) (identifiers b) i"
proof -
  note known = filter_known [OF inv]
  from inv have s: "0 < bf_size b" and d: "distinct (identifiers b)" and len: "int (length (identifiers b)) \<le> bf_size b"
    and m: "dom (sm_m (knownIdentifiers b)) = set (identifiers b)" by (simp_all add: filter_inv_def)
  consider (known) "i \<in> set (identifiers b)"
    | (room) "i \<notin> set (identifiers b)" "int (length (identifiers b)) < bf_size b"
    | (full) x xs where "i \<notin> set (identifiers b)" "identifiers b = x # xs" "int (length (identifiers b)) = bf_size b"
    using len s by (cases "identifiers b") (force simp: le_less)+
  then show ?thesis
  proof cases
    case known
    then show ?thesis using inv by (simp add: BytesFilter_addIdentifier_def filter_known window_add_def)
  next
    case room
    then have "length (identifiers b) \<noteq> nat (bf_size b)" by auto
    with room show ?thesis using s d m
      by (auto simp: BytesFilter_addIdentifier_def known window_add_def filter_inv_def)
  next
    case full
    have "sm_inv (knownIdentifiers b)" using m by (simp add: sm_inv_def)
    then have "sm_m (fst (sm_Delete ord (knownIdentifiers b) x [])) = (sm_m (knownIdentifiers b))(x := None)"
      by (simp add: sm_Delete_def sm_delete_eq [OF ord])
    with full s d m show ?thesis
      by (auto simp: BytesFilter_addIdentifier_def known window_add_def filter_inv_def slice_index_def slice_from_def Let_def)
  qed
qed

interpretation bytes_filter: data_refinement "filter_step (ord :: ('i \<rightharpoonup> unit) \<Rightarrow> 'i list)" window_step filter_abs
  "\<lambda>b :: ('b, 'i) BytesFilter. good_order ord \<and> filter_inv b"
proof
  fix b :: "('b, 'i) BytesFilter" and op
  assume *: "good_order ord \<and> filter_inv b"
  note add = filter_add [OF conjunct1 [OF *] conjunct2 [OF *]]
  show "\<exists>b'. filter_step ord b op = Some (b', snd (window_step (filter_abs b) op)) \<and>
      (good_order ord \<and> filter_inv b') \<and> filter_abs b' = fst (window_step (filter_abs b) op)"
  proof (cases op)
    case (FAdd x)
    then show ?thesis using add [of "newIdentifierFunc b x"] * by (auto simp: BytesFilter_Add_def filter_abs_def Let_def)
  next
    case (FAddIdentifier i)
    then show ?thesis using add [of i] * by (auto simp: BytesFilter_AddIdentifier_def filter_abs_def)
  qed (use * in \<open>simp_all add: BytesFilter_Contains_def BytesFilter_ContainsIdentifier_def filter_abs_def filter_known\<close>)
qed

subsection \<open>Indexed storage\<close>


lemma inj_on_map_upd:
  assumes "inj_on m (dom m)" and "v \<notin> ran m" and "m k = None"
  shows "inj_on (m(k \<mapsto> v)) (dom (m(k \<mapsto> v)))"
  using assms by (auto simp: inj_on_def ran_def)

lemma evict_map:
  "good_order ord \<Longrightarrow> storage_inv e \<Longrightarrow> sm_m (cache (fst (IndexedStorage_Evict ord e i))) = (sm_m (cache e))(i := None)"
  by (auto simp: IndexedStorage_Evict_def sm_Delete_def sm_delete_eq sm_inv_def storage_inv_def split: option.split)

lemma get_storage:
  assumes inv: "storage_inv e" and g: "IndexedStorage_Get below10 e i [create] = (e', r)"
  shows "storage_inv e' \<and> (\<exists>more. storages e' = storages e @ more) \<and> sm_m (cache e') i = r \<and>
    (\<forall>j. j \<noteq> i \<longrightarrow> sm_m (cache e') j = sm_m (cache e) j) \<and> (create \<longrightarrow> r \<noteq> None)"
proof (cases "sm_m (cache e) i")
  case (Some p)
  then have "e' = e" "r = Some p" using g by (simp_all add: IndexedStorage_Get_def)
  with Some inv show ?thesis by simp
next
  case None
  have "length (storages e) \<notin> ran (sm_m (cache e))" using inv by (auto simp: storage_inv_def)
  then have "inj_on ((sm_m (cache e))(i \<mapsto> length (storages e))) (dom ((sm_m (cache e))(i \<mapsto> length (storages e))))"
    using inv None by (intro inj_on_map_upd) (auto simp: storage_inv_def)
  moreover have "ran ((sm_m (cache e))(i \<mapsto> length (storages e))) \<subseteq> {..<Suc (length (storages e))}"
    using inv None by (auto simp: storage_inv_def)
  ultimately show ?thesis using assms None
    by (auto simp: IndexedStorage_Get_def Let_def storage_inv_def split: if_splits)
qed

lemma storage_step_inv:
  assumes "good_order ord" and inv: "storage_inv e"
  shows "storage_inv (storage_step below10 ord e op)"
proof (cases op)
  case (SGet i create)
  then show ?thesis using get_storage [OF inv, of below10 i create] by (cases "IndexedStorage_Get below10 e i [create]") simp
next
  case (SEvict i)
  have "storages (fst (IndexedStorage_Evict ord e i)) = storages e" by (simp add: IndexedStorage_Evict_def split: option.split)
  moreover have "inj_on ((sm_m (cache e))(i := None)) (dom (sm_m (cache e)) - {i})"
    using inv by (auto simp: storage_inv_def inj_on_def)
  moreover have "ran ((sm_m (cache e))(i := None)) \<subseteq> ran (sm_m (cache e))" by (auto simp: ran_def split: if_splits)
  ultimately show ?thesis using inv evict_map [OF assms] by (auto simp: SEvict storage_inv_def)
next
  case SClear
  then show ?thesis by (simp add: IndexedStorage_Clear_def storage_inv_def case_prod_beta Let_def)
qed

lemma storage_reachable:
  assumes "good_order ord" and "storage_inv e0"
  shows "storage_inv (fold (\<lambda>op e. storage_step below10 ord e op) ops e0)"
  using assms(2) by (induction ops arbitrary: e0) (simp_all add: storage_step_inv [OF assms(1)])

section \<open>Properties\<close>

text \<open>C26: A filter of positive size never panics and remembers exactly the most recently added identifiers: each
  operation answers as the window of the last \<^verbatim>\<open>size\<close> distinct identifiers would.\<close>

theorem bytes_filter_is_window:
  assumes "good_order ord" and "0 < sz"
  shows "\<exists>b b'. BytesFilter_New below10 f sz = Some b
    \<and> run_ops (filter_step ord) b ops = Some (b', snd (run_spec window_step (f, nat sz, []) ops))
    \<and> filter_abs b' = fst (run_spec window_step (f, nat sz, []) ops)"
proof -
  let ?b = "\<lparr>knownIdentifiers = sm_New below10 [WithShrinkingThresholdCount sz], identifiers = [],
                newIdentifierFunc = f, bf_size = sz\<rparr>"
  have "BytesFilter_New below10 f sz = Some ?b" using assms(2) by (simp add: BytesFilter_New_def)
  moreover have "filter_inv ?b" "filter_abs ?b = (f, nat sz, [])"
    using assms(2) by (simp_all add: filter_inv_def filter_abs_def)
  ultimately show ?thesis
    using bytes_filter.run_refines [where s = ?b and ord = ord and ops = ops] assms(1) by auto
qed

theorem bytes_filter_is_window_witness:
  "\<exists>b b'. BytesFilter_New (\<lambda>d n. d < 10 * n) (\<lambda>x :: int. x mod 10) 2 = Some b
    \<and> run_ops (filter_step (\<lambda>m. sorted_list_of_set (dom m))) b
        [FAdd 11, FAdd 21, FAddIdentifier 2, FAddIdentifier 3, FContains 41, FContainsIdentifier 3]
      = Some (b', [(Some 1, True), (Some 1, False), (None, True), (None, True), (None, False), (None, True)])"
proof -
  let ?ops = "[FAdd 11, FAdd 21, FAddIdentifier 2, FAddIdentifier 3, FContains 41, FContainsIdentifier 3]
    :: (int, int) filter_op list"
  have "snd (run_spec window_step (\<lambda>x. x mod 10, nat 2, []) ?ops) =
    [(Some 1, True), (Some 1, False), (None, True), (None, True), (None, False), (None, True)]"
    by (simp add: window_add_def)
  moreover have "(0 :: int) < 2" by simp
  note bytes_filter_is_window [OF good_order_sorted this, of "\<lambda>d n. d < 10 * n" "\<lambda>x. x mod 10" ?ops]
  ultimately show ?thesis by (elim exE conjE) (intro exI conjI, assumption, simp only:)
qed



end
