(* ===== verification/Linked_Segments.thy ===== *)
theory Linked_Segments
  imports Hive_Prelude
begin

text \<open>
  Doubly linked lists on a heap. A heap of links maps the address of an element to its two pointers, the
  previous and the next element; a pointer is an address or nil. A segment is a path of elements whose
  pointers agree in both directions, between a left and a right neighbour that are not part of it. The same lemmas
  serve a list that ends in nil and a ring closed by a sentinel.
\<close>

section \<open>Definitions\<close>

type_synonym addr = nat
type_synonym pointer = "addr option"
type_synonym links = "addr \<rightharpoonup> pointer \<times> pointer"

fun first_of :: "addr list \<Rightarrow> pointer \<Rightarrow> pointer" where
  "first_of [] n = n"
| "first_of (a # as) n = Some a"

definition last_of :: "addr list \<Rightarrow> pointer \<Rightarrow> pointer" where
  "last_of as p = (if as = [] then p else Some (last as))"

fun seg :: "links \<Rightarrow> pointer \<Rightarrow> addr list \<Rightarrow> pointer \<Rightarrow> bool" where
  "seg L p [] n \<longleftrightarrow> True"
| "seg L p (a # as) n \<longleftrightarrow> L a = Some (p, first_of as n) \<and> seg L (Some a) as n"

definition set_next :: "addr \<Rightarrow> pointer \<Rightarrow> links \<Rightarrow> links" where
  "set_next a n L = L(a := map_option (\<lambda>(p, _). (p, n)) (L a))"

definition set_prev :: "addr \<Rightarrow> pointer \<Rightarrow> links \<Rightarrow> links" where
  "set_prev a p L = L(a := map_option (\<lambda>(_, n). (p, n)) (L a))"

text \<open>A ring: every element points to its neighbours, cyclically.\<close>

definition cyc :: "links \<Rightarrow> addr list \<Rightarrow> bool" where
  "cyc L xs \<longleftrightarrow> distinct xs \<and> seg L (last_of xs None) xs (first_of xs None)"

text \<open>The pointer writes of an insertion after an element, and of unlinking an element.\<close>

definition link_after :: "addr \<Rightarrow> addr \<Rightarrow> addr \<Rightarrow> links \<Rightarrow> links" where
  "link_after e a n L = set_prev n (Some e) (set_next a (Some e) (L(e \<mapsto> (Some a, Some n))))"

definition link_over :: "addr \<Rightarrow> addr \<Rightarrow> links \<Rightarrow> links" where
  "link_over p n L = set_prev n (Some p) (set_next p (Some n) L)"

section \<open>Lemmas\<close>

lemma last_of_simps [simp]: "last_of [] p = p" "last_of (as @ [a]) p = Some a" "last_of (a # as) p = last_of as (Some a)"
  by (simp_all add: last_of_def)

lemma first_of_append [simp]: "first_of (as @ bs) n = first_of as (first_of bs n)"
  by (cases as) simp_all

lemma last_of_append [simp]: "last_of (as @ bs) p = last_of bs (last_of as p)"
  by (auto simp: last_of_def)

lemma seg_append: "seg L p (as @ bs) n \<longleftrightarrow> seg L p as (first_of bs n) \<and> seg L (last_of as p) bs n"
  by (induction as arbitrary: p) auto

lemma seg_other [simp]: "a \<notin> set as \<Longrightarrow> seg (L(a := x)) p as n \<longleftrightarrow> seg L p as n"
  by (induction as arbitrary: p) auto

lemma seg_set_next_other [simp]: "a \<notin> set as \<Longrightarrow> seg (set_next a x L) p as n \<longleftrightarrow> seg L p as n"
  by (simp add: set_next_def)

lemma seg_set_prev_other [simp]: "a \<notin> set as \<Longrightarrow> seg (set_prev a x L) p as n \<longleftrightarrow> seg L p as n"
  by (simp add: set_prev_def)

lemma seg_cong: "(\<And>a. a \<in> set as \<Longrightarrow> L a = L' a) \<Longrightarrow> seg L p as n \<longleftrightarrow> seg L' p as n"
  by (induction as arbitrary: p) auto

lemma seg_next_last:
  "seg L p (as @ [a]) n \<Longrightarrow> a \<notin> set as \<Longrightarrow> seg (set_next a n' L) p (as @ [a]) n'"
  by (simp add: seg_append) (simp add: set_next_def)

lemma seg_prev_first:
  "seg L p (a # as) n \<Longrightarrow> a \<notin> set as \<Longrightarrow> seg (set_prev a p' L) p' (a # as) n"
  by (simp) (simp add: set_prev_def)

lemma seg_allocated: "seg L p as n \<Longrightarrow> a \<in> set as \<Longrightarrow> L a \<noteq> None"
  by (induction as arbitrary: p) auto

lemma seg_lookup: "seg L p (as @ a # bs) n \<Longrightarrow> L a = Some (last_of as p, first_of bs n)"
  by (simp add: seg_append)

lemma last_of_cases: "last_of as p = q \<Longrightarrow> (as = [] \<and> q = p) \<or> (\<exists>bs a. as = bs @ [a] \<and> q = Some a)"
  by (cases as rule: rev_cases) auto

subsection \<open>Rings\<close>

lemma cyc_rotate: "cyc L (xs @ ys) \<Longrightarrow> cyc L (ys @ xs)"
  by (cases "xs = []"; cases "ys = []") (auto simp: cyc_def seg_append neq_Nil_conv last_of_def)

lemma cyc_lookup: "cyc L (a # as) \<Longrightarrow> L a = Some (last_of (a # as) None, first_of (as @ [a]) None)"
  by (cases as) (simp_all add: cyc_def)

lemma cyc_lookup_mid:
  assumes "cyc L (bs @ a # cs)"
  shows "L a = Some (last_of (a # cs @ bs) None, first_of (cs @ bs @ [a]) None)"
proof -
  have "cyc L ((a # cs) @ bs)" using assms by (rule cyc_rotate)
  then show ?thesis using cyc_lookup [of L a "cs @ bs"] by simp
qed

lemma cyc_cong: "(\<And>a. a \<in> set as \<Longrightarrow> L a = L' a) \<Longrightarrow> cyc L as \<longleftrightarrow> cyc L' as"
  unfolding cyc_def using seg_cong [of as L L'] by simp

lemma cyc_other [simp]: "x \<notin> set as \<Longrightarrow> cyc (L(x := y)) as \<longleftrightarrow> cyc L as"
  by (simp add: cyc_def)

lemma cyc_link_after_hd:
  assumes "cyc L (a # cs)" and "e \<notin> set (a # cs)"
  shows "cyc (link_after e a (hd (cs @ [a])) L) (a # e # cs)"
  using assms by (cases cs) (auto simp: cyc_def link_after_def set_next_def set_prev_def)

lemma cyc_link_over_hd:
  assumes "cyc L (a # e # cs)"
  shows "cyc (link_over a (hd (cs @ [a])) L) (a # cs)"
  using assms by (cases cs) (auto simp: cyc_def link_over_def set_next_def set_prev_def)

lemma cyc_link_after:
  assumes "cyc L (bs @ a # cs)" and "e \<notin> set (bs @ a # cs)"
  shows "cyc (link_after e a (hd (cs @ bs @ [a])) L) (bs @ a # e # cs)"
proof -
  have "cyc L ((a # cs) @ bs)" using assms(1) by (rule cyc_rotate)
  then have "cyc (link_after e a (hd (cs @ bs @ [a])) L) ((a # e # cs) @ bs)"
    using cyc_link_after_hd [of L a "cs @ bs" e] assms(2) by simp
  then show ?thesis by (rule cyc_rotate)
qed

lemma cyc_link_over:
  assumes "cyc L (bs @ e # cs)" and "cs @ bs \<noteq> []"
  shows "cyc (link_over (last (cs @ bs)) (hd (cs @ bs)) L) (bs @ cs)"
proof -
  obtain ds a where ds: "cs @ bs = ds @ [a]" using assms(2) by (metis rev_exhaust)
  have "cyc L ((e # cs) @ bs)" using assms(1) by (rule cyc_rotate)
  then have "cyc L ((e # ds) @ [a])" using ds by simp
  then have "cyc L (a # e # ds)" using cyc_rotate [of L "e # ds" "[a]"] by simp
  then have "cyc (link_over a (hd (ds @ [a])) L) ([a] @ ds)" using cyc_link_over_hd by fastforce
  then have "cyc (link_over a (hd (ds @ [a])) L) (cs @ bs)" using cyc_rotate ds by metis
  then have "cyc (link_over a (hd (ds @ [a])) L) (bs @ cs)" by (rule cyc_rotate)
  then show ?thesis by (simp add: ds)
qed

lemma link_after_other: "x \<noteq> e \<Longrightarrow> x \<noteq> a \<Longrightarrow> x \<noteq> n \<Longrightarrow> link_after e a n L x = L x"
  by (simp add: link_after_def set_next_def set_prev_def)

lemma link_over_other: "x \<noteq> p \<Longrightarrow> x \<noteq> n \<Longrightarrow> link_over p n L x = L x"
  by (simp add: link_over_def set_next_def set_prev_def)

end
