(* ===== verification/Ordered_Map.thy ===== *)
theory Ordered_Map
  imports Shrinking_Map Linked_Segments "HOL-Library.AList"
begin

text \<open>
  The ordered map of \<^verbatim>\<open>ds/orderedmap\<close>: a doubly linked list of entries in insertion order, and a shrinking map from
  the keys to the elements of the list. The specification is an association list.
\<close>

section \<open>Definitions\<close>

record ('k, 'v) Element =
  el_key :: 'k
  el_value :: 'v
  el_prev :: pointer
  el_next :: pointer

text \<open>The heap of the elements of this map is part of its state; \<open>om_fresh\<close> is the next free address.\<close>

record ('k, 'v) OrderedMap =
  om_head :: pointer
  om_tail :: pointer
  dictionary :: "('k, addr) ShrinkingMap"
  om_size :: int
  om_heap :: "addr \<rightharpoonup> ('k, 'v) Element"
  om_fresh :: addr

definition om_New :: "(nat \<Rightarrow> nat \<Rightarrow> bool) \<Rightarrow> ('k, 'v) OrderedMap" where
  "om_New below10 =
     \<lparr>om_head = None, om_tail = None, dictionary = sm_New below10 [], om_size = 0, om_heap = Map.empty, om_fresh = 0\<rparr>"

text \<open>Reading and writing through a pointer; nil panics.\<close>

definition om_deref :: "('k, 'v) OrderedMap \<Rightarrow> pointer \<Rightarrow> ('k, 'v) Element option" where
  "om_deref om p = Option.bind p (om_heap om)"

definition om_write ::
  "('k, 'v) OrderedMap \<Rightarrow> pointer \<Rightarrow> (('k, 'v) Element \<Rightarrow> ('k, 'v) Element) \<Rightarrow> ('k, 'v) OrderedMap option" where
  "om_write om p f = do {
     a \<leftarrow> p;
     el \<leftarrow> om_heap om a;
     Some (om\<lparr>om_heap := (om_heap om)(a \<mapsto> f el)\<rparr>)
   }"

definition om_entry_at :: "'k \<Rightarrow> 'v \<Rightarrow> ('k, 'v) OrderedMap \<Rightarrow> pointer \<Rightarrow> ('k \<times> 'v \<times> bool) option" where
  "om_entry_at zk zv om p =
     (if p = None then Some (zk, zv, False)
      else do { el \<leftarrow> om_deref om p; Some (el_key el, el_value el, True) })"

definition om_Head :: "'k \<Rightarrow> 'v \<Rightarrow> ('k, 'v) OrderedMap \<Rightarrow> ('k \<times> 'v \<times> bool) option" where
  "om_Head zk zv om = om_entry_at zk zv om (om_head om)"

definition om_Tail :: "'k \<Rightarrow> 'v \<Rightarrow> ('k, 'v) OrderedMap \<Rightarrow> ('k \<times> 'v \<times> bool) option" where
  "om_Tail zk zv om = om_entry_at zk zv om (om_tail om)"

definition om_Has :: "('k, 'v) OrderedMap \<Rightarrow> 'k \<Rightarrow> bool" where
  "om_Has om k = sm_Has (dictionary om) k"

definition om_Get :: "'v \<Rightarrow> ('k, 'v) OrderedMap \<Rightarrow> 'k \<Rightarrow> ('v \<times> bool) option" where
  "om_Get zv om k =
     (let p = sm_m (dictionary om) k in
      if p = None then Some (zv, False)
      else do { el \<leftarrow> om_deref om p; Some (el_value el, True) })"

definition om_Set :: "'v \<Rightarrow> ('k, 'v) OrderedMap \<Rightarrow> 'k \<Rightarrow> 'v \<Rightarrow> (('k, 'v) OrderedMap \<times> 'v \<times> bool) option" where
  "om_Set zv om k newValue =
     (case sm_m (dictionary om) k of
        Some old \<Rightarrow> do {
          el \<leftarrow> om_deref om (Some old);
          om \<leftarrow> om_write om (Some old) (\<lambda>el. el\<lparr>el_value := newValue\<rparr>);
          Some (om, el_value el, True)
        }
      | None \<Rightarrow> do {
          let newElement = om_fresh om;
          let om = om\<lparr>om_heap := (om_heap om)(newElement \<mapsto>
                        \<lparr>el_key = k, el_value = newValue, el_prev = None, el_next = None\<rparr>),
                      om_fresh := newElement + 1\<rparr>;
          om \<leftarrow> (if om_head om = None then Some (om\<lparr>om_head := Some newElement\<rparr>)
                 else do {
                   om \<leftarrow> om_write om (om_tail om) (\<lambda>el. el\<lparr>el_next := Some newElement\<rparr>);
                   om_write om (Some newElement) (\<lambda>el. el\<lparr>el_prev := om_tail om\<rparr>)
                 });
          let om = om\<lparr>om_tail := Some newElement, om_size := om_size om + 1\<rparr>;
          Some (om\<lparr>dictionary := fst (sm_Set (dictionary om) k newElement)\<rparr>, zv, False)
        })"

text \<open>The loop of \<^verbatim>\<open>ForEach\<close> and \<^verbatim>\<open>ForEachReverse\<close>: the lock is free while the consumer runs, so the consumer may change
  the map; \<open>dir\<close> is the pointer the loop follows.\<close>

partial_function (option) om_walk ::
  "(('k, 'v) Element \<Rightarrow> pointer) \<Rightarrow> (('k, 'v) OrderedMap \<Rightarrow> 'w \<Rightarrow> 'k \<Rightarrow> 'v \<Rightarrow> ('k, 'v) OrderedMap \<times> 'w \<times> bool)
     \<Rightarrow> pointer \<Rightarrow> ('k, 'v) OrderedMap \<Rightarrow> 'w \<Rightarrow> (('k, 'v) OrderedMap \<times> 'w \<times> bool) option" where
  "om_walk dir consumer p om w =
     (case p of None \<Rightarrow> Some (om, w, True)
      | Some a \<Rightarrow> do {
          el \<leftarrow> om_heap om a;
          let (om, w, continue) = consumer om w (el_key el) (el_value el);
          if \<not> continue then Some (om, w, False)
          else do {
            el \<leftarrow> om_heap om a;
            om_walk dir consumer (dir el) om w
          }
        })"

definition om_ForEach ::
  "(('k, 'v) OrderedMap \<Rightarrow> 'w \<Rightarrow> 'k \<Rightarrow> 'v \<Rightarrow> ('k, 'v) OrderedMap \<times> 'w \<times> bool) \<Rightarrow> ('k, 'v) OrderedMap \<Rightarrow> 'w
     \<Rightarrow> (('k, 'v) OrderedMap \<times> 'w \<times> bool) option" where
  "om_ForEach consumer om w = om_walk el_next consumer (om_head om) om w"

definition om_ForEachReverse ::
  "(('k, 'v) OrderedMap \<Rightarrow> 'w \<Rightarrow> 'k \<Rightarrow> 'v \<Rightarrow> ('k, 'v) OrderedMap \<times> 'w \<times> bool) \<Rightarrow> ('k, 'v) OrderedMap \<Rightarrow> 'w
     \<Rightarrow> (('k, 'v) OrderedMap \<times> 'w \<times> bool) option" where
  "om_ForEachReverse consumer om w = om_walk el_prev consumer (om_tail om) om w"

definition om_Clear :: "(nat \<Rightarrow> nat \<Rightarrow> bool) \<Rightarrow> ('k, 'v) OrderedMap \<Rightarrow> ('k, 'v) OrderedMap" where
  "om_Clear below10 om = om\<lparr>om_head := None, om_tail := None, om_size := 0, dictionary := sm_New below10 []\<rparr>"

text \<open>\<^verbatim>\<open>Delete\<close> looks the key up, releases the lock, and looks again under the writer lock; \<open>others\<close> is what happens in
  between.\<close>

definition om_unlink :: "('k, 'v) OrderedMap \<Rightarrow> pointer \<Rightarrow> ('k, 'v) OrderedMap option" where
  "om_unlink om p = do {
     el \<leftarrow> om_deref om p;
     om \<leftarrow> (if el_prev el \<noteq> None then om_write om (el_prev el) (\<lambda>e. e\<lparr>el_next := el_next el\<rparr>)
            else Some (om\<lparr>om_head := el_next el\<rparr>));
     el \<leftarrow> om_deref om p;
     (if el_next el \<noteq> None then om_write om (el_next el) (\<lambda>e. e\<lparr>el_prev := el_prev el\<rparr>)
      else Some (om\<lparr>om_tail := el_prev el\<rparr>))
   }"

definition om_Delete ::
  "(('k, 'v) OrderedMap \<Rightarrow> ('k, 'v) OrderedMap) \<Rightarrow> (('k \<rightharpoonup> addr) \<Rightarrow> 'k list) \<Rightarrow> 'v \<Rightarrow> ('k, 'v) OrderedMap \<Rightarrow> 'k
     \<Rightarrow> (('k, 'v) OrderedMap \<times> bool) option" where
  "om_Delete others ord zv om k = do {
     (_, valueExists) \<leftarrow> om_Get zv om k;
     if \<not> valueExists then Some (om, False)
     else do {
       let om = others om;
       let p = sm_m (dictionary om) k;
       if p = None then Some (om, False)
       else do {
         let om = om\<lparr>dictionary := fst (sm_Delete ord (dictionary om) k []), om_size := om_size om - 1\<rparr>;
         om \<leftarrow> om_unlink om p;
         Some (om, True)
       }
     }
   }"

definition om_Size :: "('k, 'v) OrderedMap \<Rightarrow> int" where
  "om_Size om = om_size om"

definition om_IsEmpty :: "('k, 'v) OrderedMap \<Rightarrow> bool" where
  "om_IsEmpty om \<longleftrightarrow> om_Size om = 0"

text \<open>\<^verbatim>\<open>Clone\<close> walks the list under the reader lock and sets every entry in a new map.\<close>

definition om_Clone :: "(nat \<Rightarrow> nat \<Rightarrow> bool) \<Rightarrow> 'v \<Rightarrow> ('k, 'v) OrderedMap \<Rightarrow> ('k, 'v) OrderedMap option" where
  "om_Clone below10 zv om = do {
     (om, cloned, done) \<leftarrow> om_walk el_next
       (\<lambda>om cloned k v. (om, Option.bind cloned (\<lambda>c. map_option fst (om_Set zv c k v)), True))
       (om_head om) om (Some (om_New below10));
     cloned
   }"

text \<open>A loop over a list of entries that stops when the consumer returns false.\<close>

fun visit :: "('w \<Rightarrow> 'k \<Rightarrow> 'v \<Rightarrow> 'w \<times> bool) \<Rightarrow> ('k \<times> 'v) list \<Rightarrow> 'w \<Rightarrow> 'w \<times> bool" where
  "visit consumer [] w = (w, True)"
| "visit consumer ((k, v) # xs) w =
     (let (w, continue) = consumer w k v in if continue then visit consumer xs w else (w, False))"

subsection \<open>Specification: an association list in insertion order\<close>

datatype ('k, 'v) om_op = OSet 'k 'v | OGet 'k | OHas 'k | ODelete 'k | OHead | OTail | OSize | OIsEmpty | OClear

datatype ('k, 'v) om_result = ONothing | OYes bool | OValue 'v bool | OEntry 'k 'v bool | ONumber int

fun om_step ::
  "(nat \<Rightarrow> nat \<Rightarrow> bool) \<Rightarrow> (('k \<rightharpoonup> addr) \<Rightarrow> 'k list) \<Rightarrow> 'k \<Rightarrow> 'v \<Rightarrow> ('k, 'v) OrderedMap \<Rightarrow> ('k, 'v) om_op
     \<Rightarrow> (('k, 'v) OrderedMap \<times> ('k, 'v) om_result) option" where
  "om_step below10 ord zk zv om (OSet k v) = map_option (\<lambda>(om, v, b). (om, OValue v b)) (om_Set zv om k v)"
| "om_step below10 ord zk zv om (OGet k) = map_option (\<lambda>(v, b). (om, OValue v b)) (om_Get zv om k)"
| "om_step below10 ord zk zv om (OHas k) = Some (om, OYes (om_Has om k))"
| "om_step below10 ord zk zv om (ODelete k) = map_option (\<lambda>(om, b). (om, OYes b)) (om_Delete id ord zv om k)"
| "om_step below10 ord zk zv om OHead = map_option (\<lambda>(k, v, b). (om, OEntry k v b)) (om_Head zk zv om)"
| "om_step below10 ord zk zv om OTail = map_option (\<lambda>(k, v, b). (om, OEntry k v b)) (om_Tail zk zv om)"
| "om_step below10 ord zk zv om OSize = Some (om, ONumber (om_Size om))"
| "om_step below10 ord zk zv om OIsEmpty = Some (om, OYes (om_IsEmpty om))"
| "om_step below10 ord zk zv om OClear = Some (om_Clear below10 om, ONothing)"

fun alist_step :: "'k \<Rightarrow> 'v \<Rightarrow> ('k \<times> 'v) list \<Rightarrow> ('k, 'v) om_op \<Rightarrow> ('k \<times> 'v) list \<times> ('k, 'v) om_result" where
  "alist_step zk zv xs (OSet k v) =
     (AList.update k v xs, case map_of xs k of None \<Rightarrow> OValue zv False | Some w \<Rightarrow> OValue w True)"
| "alist_step zk zv xs (OGet k) = (xs, case map_of xs k of None \<Rightarrow> OValue zv False | Some w \<Rightarrow> OValue w True)"
| "alist_step zk zv xs (OHas k) = (xs, OYes (map_of xs k \<noteq> None))"
| "alist_step zk zv xs (ODelete k) = (AList.delete k xs, OYes (map_of xs k \<noteq> None))"
| "alist_step zk zv xs OHead = (xs, case xs of [] \<Rightarrow> OEntry zk zv False | (k, v) # _ \<Rightarrow> OEntry k v True)"
| "alist_step zk zv xs OTail = (xs, case rev xs of [] \<Rightarrow> OEntry zk zv False | (k, v) # _ \<Rightarrow> OEntry k v True)"
| "alist_step zk zv xs OSize = (xs, ONumber (int (length xs)))"
| "alist_step zk zv xs OIsEmpty = (xs, OYes (xs = []))"
| "alist_step zk zv xs OClear = ([], ONothing)"

definition om_links :: "(addr \<rightharpoonup> ('k, 'v) Element) \<Rightarrow> links" where
  "om_links h a = map_option (\<lambda>el. (el_prev el, el_next el)) (h a)"

definition om_contents :: "(addr \<rightharpoonup> ('k, 'v) Element) \<Rightarrow> addr list \<Rightarrow> ('k \<times> 'v) list" where
  "om_contents h as = map (\<lambda>a. (el_key (the (h a)), el_value (the (h a)))) as"

definition om_inv :: "('k, 'v) OrderedMap \<Rightarrow> addr list \<Rightarrow> bool" where
  "om_inv om as \<longleftrightarrow>
     distinct as \<and> seg (om_links (om_heap om)) None as None \<and>
     om_head om = first_of as None \<and> om_tail om = last_of as None \<and> om_size om = int (length as) \<and>
     (\<forall>k a. sm_m (dictionary om) k = Some a \<longleftrightarrow> a \<in> set as \<and> el_key (the (om_heap om a)) = k) \<and>
     (\<forall>a. om_fresh om \<le> a \<longrightarrow> om_heap om a = None)"

definition om_rel :: "('k, 'v) OrderedMap \<Rightarrow> ('k \<times> 'v) list \<Rightarrow> bool" where
  "om_rel om xs \<longleftrightarrow> (\<exists>as. om_inv om as \<and> om_contents (om_heap om) as = xs)"

section \<open>Lemmas\<close>

subsection \<open>The heap\<close>

lemma om_links_upd:
  "h a = Some el \<Longrightarrow> om_links (h(a \<mapsto> el\<lparr>el_value := v\<rparr>)) = om_links h"
  "h a = Some el \<Longrightarrow> om_links (h(a \<mapsto> el\<lparr>el_next := n\<rparr>)) = set_next a n (om_links h)"
  "h a = Some el \<Longrightarrow> om_links (h(a \<mapsto> el\<lparr>el_prev := p\<rparr>)) = set_prev a p (om_links h)"
  by (auto simp: om_links_def set_next_def set_prev_def fun_eq_iff)

lemma om_links_alloc: "om_links (h(a \<mapsto> el)) = (om_links h)(a \<mapsto> (el_prev el, el_next el))"
  by (auto simp: om_links_def fun_eq_iff)

lemma om_contents_simps [simp]:
  "om_contents h [] = []"
  "om_contents h (as @ bs) = om_contents h as @ om_contents h bs"
  "om_contents h (a # as) = (el_key (the (h a)), el_value (the (h a))) # om_contents h as"
  by (simp_all add: om_contents_def)

lemma om_contents_cong:
  "(\<And>a. a \<in> set as \<Longrightarrow> el_key (the (h' a)) = el_key (the (h a)) \<and> el_value (the (h' a)) = el_value (the (h a))) \<Longrightarrow>
    om_contents h' as = om_contents h as"
  by (simp add: om_contents_def)

lemma om_contents_other [simp]: "a \<notin> set as \<Longrightarrow> om_contents (h(a := x)) as = om_contents h as"
  by (auto intro: om_contents_cong)

lemma length_om_contents [simp]: "length (om_contents h as) = length as"
  by (simp add: om_contents_def)

lemma om_inv_heap:
  assumes "om_inv om as" and "a \<in> set as"
  obtains el where "om_heap om a = Some el"
  using assms seg_allocated [of "om_links (om_heap om)" None as None a]
  by (auto simp: om_inv_def om_links_def)

lemma om_inv_el:
  assumes "om_inv om (bs @ a # cs)"
  obtains el where "om_heap om a = Some el" "el_prev el = last_of bs None" "el_next el = first_of cs None"
  using assms seg_lookup [of "om_links (om_heap om)" None bs a cs None]
  by (auto simp: om_inv_def om_links_def)

lemma om_inv_lookup:
  assumes inv: "om_inv om as"
  shows "distinct (map fst (om_contents (om_heap om) as))"
    and "map_of (om_contents (om_heap om) as) k = map_option (\<lambda>a. el_value (the (om_heap om a))) (sm_m (dictionary om) k)"
    and "finite (dom (sm_m (dictionary om)))"
proof -
  let ?key = "\<lambda>a. el_key (the (om_heap om a))"
  have dict: "sm_m (dictionary om) k = Some a \<longleftrightarrow> a \<in> set as \<and> ?key a = k" for k a
    using inv by (simp add: om_inv_def)
  have "inj_on ?key (set as)"
    by (rule inj_onI) (metis dict option.inject)
  then show d: "distinct (map fst (om_contents (om_heap om) as))"
    using inv by (simp add: om_contents_def om_inv_def comp_def distinct_map)
  have "dom (sm_m (dictionary om)) = ?key ` set as" using dict by auto
  then show "finite (dom (sm_m (dictionary om)))" by simp
  show "map_of (om_contents (om_heap om) as) k = map_option (\<lambda>a. el_value (the (om_heap om a))) (sm_m (dictionary om) k)"
  proof (cases "sm_m (dictionary om) k")
    case None
    then have "k \<notin> fst ` set (om_contents (om_heap om) as)"
      by (auto simp: om_contents_def) (metis dict option.distinct(1))
    then show ?thesis using None by (simp add: map_of_eq_None_iff)
  next
    case (Some a)
    then have "(k, el_value (the (om_heap om a))) \<in> set (om_contents (om_heap om) as)"
      using dict [of k a] by (auto simp: om_contents_def)
    then show ?thesis using Some d by simp
  qed
qed

lemma update_in_place:
  "k \<notin> fst ` set xs \<Longrightarrow> AList.update k v (xs @ (k, w) # ys) = xs @ (k, v) # ys"
  by (induction xs) auto

lemma update_at_end: "k \<notin> fst ` set xs \<Longrightarrow> AList.update k v xs = xs @ [(k, v)]"
  by (induction xs) auto

lemma delete_in_middle:
  "k \<notin> fst ` set xs \<Longrightarrow> k \<notin> fst ` set ys \<Longrightarrow> AList.delete k (xs @ (k, w) # ys) = xs @ ys"
  by (simp add: AList.delete_eq) (subst (1 2) filter_True, force+)

subsection \<open>Set\<close>

lemma om_Set_existing:
  assumes inv: "om_inv om as" and a: "sm_m (dictionary om) k = Some a"
  shows "\<exists>om' w. om_Set zv om k v = Some (om', w, True) \<and> map_of (om_contents (om_heap om) as) k = Some w \<and>
    om_inv om' as \<and> om_contents (om_heap om') as = AList.update k v (om_contents (om_heap om) as)"
proof -
  have a': "a \<in> set as" "el_key (the (om_heap om a)) = k" using inv a by (auto simp: om_inv_def)
  then obtain bs cs where as: "as = bs @ a # cs" by (meson split_list)
  obtain el where el: "om_heap om a = Some el" using om_inv_heap [OF inv a'(1)] .
  let ?h = "(om_heap om)(a \<mapsto> el\<lparr>el_value := v\<rparr>)" and ?om = "om\<lparr>om_heap := (om_heap om)(a \<mapsto> el\<lparr>el_value := v\<rparr>)\<rparr>"
  have set: "om_Set zv om k v = Some (?om, el_value el, True)"
    using a el by (simp add: om_Set_def om_deref_def om_write_def)
  have "om_inv ?om as"
    using inv el a' by (auto simp: om_inv_def om_links_upd)
  moreover have "om_contents ?h as = AList.update k v (om_contents (om_heap om) as)"
  proof -
    have "a \<notin> set bs" "a \<notin> set cs" using inv as by (auto simp: om_inv_def)
    moreover have "k \<notin> fst ` set (om_contents (om_heap om) bs)"
      using om_inv_lookup(1) [OF inv] a'(2) el by (auto simp: as)
    ultimately show ?thesis using a'(2) el by (simp add: as update_in_place)
  qed
  moreover have "map_of (om_contents (om_heap om) as) k = Some (el_value el)"
    using om_inv_lookup(2) [OF inv, of k] a el by simp
  ultimately show ?thesis using set by auto
qed

lemma om_Set_new:
  assumes inv: "om_inv om as" and k: "sm_m (dictionary om) k = None"
  shows "\<exists>om'. om_Set zv om k v = Some (om', zv, False) \<and> om_inv om' (as @ [om_fresh om]) \<and>
    om_contents (om_heap om') (as @ [om_fresh om]) = om_contents (om_heap om) as @ [(k, v)]"
proof -
  let ?n = "om_fresh om"
  have free: "om_heap om ?n = None" and tail: "om_tail om = last_of as None" and head: "om_head om = first_of as None"
    and sg: "seg (om_links (om_heap om)) None as None"
    using inv by (simp_all add: om_inv_def)
  have n: "?n \<notin> set as" using om_inv_heap [OF inv, of ?n] free by auto
  have dict: "sm_m (dictionary om) k' = Some a \<longleftrightarrow> a \<in> set as \<and> el_key (the (om_heap om a)) = k'" for k' a
    using inv by (simp add: om_inv_def)
  show ?thesis
  proof (cases as rule: rev_cases)
    case Nil
    with inv k free show ?thesis by (auto simp: om_Set_def om_inv_def Let_def om_links_alloc)
  next
    case (snoc bs t)
    obtain tel where t: "om_heap om t = Some tel" using om_inv_heap [OF inv, of t] snoc by auto
    have tn: "t \<noteq> ?n" and tb: "t \<notin> set bs" using n inv snoc by (auto simp: om_inv_def)
    let ?new = "\<lparr>el_key = k, el_value = v, el_prev = Some t, el_next = None\<rparr>"
    let ?h = "(om_heap om)(?n \<mapsto> ?new, t \<mapsto> tel\<lparr>el_next := Some ?n\<rparr>)"
    let ?om = "om\<lparr>om_heap := ?h, om_fresh := ?n + 1, om_tail := Some ?n, om_size := om_size om + 1,
        dictionary := fst (sm_Set (dictionary om) k ?n)\<rparr>"
    have hd: "first_of as None \<noteq> None" unfolding snoc by (cases bs) simp_all
    have set: "om_Set zv om k v = Some (?om, zv, False)"
      using k t tn head tail hd snoc
      by (auto simp: om_Set_def om_write_def Let_def fun_upd_twist [OF tn])
    have L: "om_links ?h = set_next t (Some ?n) ((om_links (om_heap om))(?n \<mapsto> (Some t, None)))"
      using tn t by (simp add: om_links_alloc set_next_def om_links_def)
    have "seg (om_links ?h) None (as @ [?n]) None"
    proof -
      have "seg (set_next t (Some ?n) ((om_links (om_heap om))(?n \<mapsto> (Some t, None)))) None (bs @ [t]) (Some ?n)"
        using sg n snoc tb by (intro seg_next_last [where n = None]) auto
      then show ?thesis using tn by (simp add: L seg_append snoc) (simp add: set_next_def)
    qed
    moreover have "sm_m (dictionary ?om) k' = Some a \<longleftrightarrow> a \<in> set (as @ [?n]) \<and> el_key (the (?h a)) = k'" for k' a
    proof (cases "a = ?n")
      case True
      then show ?thesis using dict [of k' ?n] n tn by simp
    next
      case False
      then have "el_key (the (?h a)) = el_key (the (om_heap om a))" using t by simp
      with False show ?thesis using dict [of k' a] k by (cases "k' = k") simp_all
    qed
    moreover have "om_contents ?h (as @ [?n]) = om_contents (om_heap om) as @ [(k, v)]"
      using n tn tb t snoc by simp
    ultimately have "om_inv ?om (as @ [?n])"
      using inv n tn t unfolding om_inv_def by (auto simp: snoc)
    with set show ?thesis using \<open>om_contents ?h (as @ [?n]) = om_contents (om_heap om) as @ [(k, v)]\<close> by auto
  qed
qed

subsection \<open>Delete\<close>

text \<open>What unlinking leaves alone: everything but the pointers.\<close>

definition same_entries :: "(addr \<rightharpoonup> ('k, 'v) Element) \<Rightarrow> (addr \<rightharpoonup> ('k, 'v) Element) \<Rightarrow> bool" where
  "same_entries h h' \<longleftrightarrow>
     (\<forall>a. map_option (\<lambda>el. (el_key el, el_value el)) (h' a) = map_option (\<lambda>el. (el_key el, el_value el)) (h a))"

lemma same_entriesD:
  assumes "same_entries h h'"
  shows "h' a = None \<longleftrightarrow> h a = None" and "h a \<noteq> None \<Longrightarrow> el_key (the (h' a)) = el_key (the (h a))"
    and "h a \<noteq> None \<Longrightarrow> el_value (the (h' a)) = el_value (the (h a))"
  using assms [unfolded same_entries_def, rule_format, of a] by (auto split: option.splits)

lemma same_entries_upd:
  "h a = Some el \<Longrightarrow> same_entries h (h(a \<mapsto> el\<lparr>el_next := p\<rparr>))"
  "h a = Some el \<Longrightarrow> same_entries h (h(a \<mapsto> el\<lparr>el_prev := p\<rparr>))"
  "same_entries h h"
  by (auto simp: same_entries_def)

lemma same_entries_trans: "same_entries h h' \<Longrightarrow> same_entries h' h'' \<Longrightarrow> same_entries h h''"
  by (simp add: same_entries_def)

text \<open>The two halves of unlinking.\<close>

lemma unlink_prev:
  assumes h: "om_heap om a = Some el" "el_prev el = last_of bs None"
    and sg: "seg (om_links (om_heap om)) None (bs @ a # cs) None" and d: "distinct (bs @ a # cs)"
    and head: "om_head om = first_of (bs @ a # cs) None"
  shows "\<exists>om'. (if el_prev el \<noteq> None then om_write om (el_prev el) (\<lambda>e. e\<lparr>el_next := first_of cs None\<rparr>)
            else Some (om\<lparr>om_head := first_of cs None\<rparr>)) = Some om' \<and>
      om_heap om' a = Some el \<and> seg (om_links (om_heap om')) None bs (first_of cs None) \<and>
      seg (om_links (om_heap om')) (Some a) cs None \<and> same_entries (om_heap om) (om_heap om') \<and>
      om_head om' = first_of (bs @ cs) None \<and> om_tail om' = om_tail om \<and> dictionary om' = dictionary om \<and>
      om_size om' = om_size om \<and> om_fresh om' = om_fresh om"
proof (cases bs rule: rev_cases)
  case Nil
  then show ?thesis using h sg by (simp add: same_entries_upd)
next
  case (snoc b0 b)
  have sb: "seg (om_links (om_heap om)) None (b0 @ [b]) (Some a)" and sc: "seg (om_links (om_heap om)) (Some a) cs None"
    using sg snoc by (simp_all add: seg_append)
  obtain bel where b: "om_heap om b = Some bel"
    using seg_allocated [OF sb, of b] by (auto simp: om_links_def)
  have db: "b \<notin> set b0" "b \<notin> set cs" "b \<noteq> a" using d snoc by auto
  have L: "om_links ((om_heap om)(b \<mapsto> bel\<lparr>el_next := n\<rparr>)) = set_next b n (om_links (om_heap om))" for n
    using b by (rule om_links_upd(2))
  show ?thesis
    using h snoc b db head seg_next_last [OF sb db(1), of "first_of cs None"] sc same_entries_upd(1) [of "om_heap om" b bel]
    by (cases b0) (simp_all add: om_write_def L)
qed

lemma unlink_next:
  assumes h: "el_next el = first_of cs None" "el_prev el = last_of bs None"
    and sb: "seg (om_links (om_heap om)) None bs (first_of cs None)" and sc: "seg (om_links (om_heap om)) (Some a) cs None"
    and d: "distinct (bs @ a # cs)" and tail: "om_tail om = last_of (bs @ a # cs) None"
  shows "\<exists>om'. (if el_next el \<noteq> None then om_write om (el_next el) (\<lambda>e. e\<lparr>el_prev := el_prev el\<rparr>)
            else Some (om\<lparr>om_tail := el_prev el\<rparr>)) = Some om' \<and>
      seg (om_links (om_heap om')) None (bs @ cs) None \<and> same_entries (om_heap om) (om_heap om') \<and>
      om_head om' = om_head om \<and> om_tail om' = last_of (bs @ cs) None \<and> dictionary om' = dictionary om \<and>
      om_size om' = om_size om \<and> om_fresh om' = om_fresh om \<and> om_heap om' a = om_heap om a"
proof (cases cs)
  case Nil
  then show ?thesis using h sb by (simp add: same_entries_upd)
next
  case (Cons c c0)
  obtain cel where c: "om_heap om c = Some cel"
    using seg_allocated [OF sc, of c] Cons by (auto simp: om_links_def)
  have dc: "c \<notin> set c0" "c \<notin> set bs" "a \<noteq> c" using d Cons by auto
  have L: "om_links ((om_heap om)(c \<mapsto> cel\<lparr>el_prev := n\<rparr>)) = set_prev c n (om_links (om_heap om))" for n
    using c by (rule om_links_upd(3))
  have s: "seg (set_prev c (last_of bs None) (om_links (om_heap om))) (last_of bs None) cs None"
    using sc unfolding Cons by (rule seg_prev_first [OF _ dc(1)])
  show ?thesis
    using h Cons c sb dc s tail same_entries_upd(2) [of "om_heap om" c cel]
    by (simp add: om_write_def L seg_append)
qed

lemma om_unlink_ok:
  assumes inv: "om_inv om (bs @ a # cs)"
    and om1: "om_heap om1 = om_heap om" "om_head om1 = om_head om" "om_tail om1 = om_tail om"
  shows "\<exists>om'. om_unlink om1 (Some a) = Some om' \<and>
      seg (om_links (om_heap om')) None (bs @ cs) None \<and> same_entries (om_heap om) (om_heap om') \<and>
      om_head om' = first_of (bs @ cs) None \<and> om_tail om' = last_of (bs @ cs) None \<and> dictionary om' = dictionary om1 \<and>
      om_size om' = om_size om1 \<and> om_fresh om' = om_fresh om1 \<and> om_heap om' a = om_heap om a"
proof -
  obtain el where el: "om_heap om a = Some el" "el_prev el = last_of bs None" "el_next el = first_of cs None"
    using om_inv_el [OF inv] .
  have d: "distinct (bs @ a # cs)" and sg: "seg (om_links (om_heap om1)) None (bs @ a # cs) None"
    and ht: "om_head om1 = first_of (bs @ a # cs) None" "om_tail om1 = last_of (bs @ a # cs) None"
    using inv by (simp_all add: om_inv_def om1)
  have el1: "om_heap om1 a = Some el" using el om1 by simp
  from unlink_prev [OF el1 el(2) sg d ht(1)] obtain om2 where
    om2: "(if el_prev el \<noteq> None then om_write om1 (el_prev el) (\<lambda>e. e\<lparr>el_next := first_of cs None\<rparr>)
            else Some (om1\<lparr>om_head := first_of cs None\<rparr>)) = Some om2"
    "om_heap om2 a = Some el" "seg (om_links (om_heap om2)) None bs (first_of cs None)"
    "seg (om_links (om_heap om2)) (Some a) cs None" "same_entries (om_heap om1) (om_heap om2)"
    "om_head om2 = first_of (bs @ cs) None" "om_tail om2 = om_tail om1" "dictionary om2 = dictionary om1"
    "om_size om2 = om_size om1" "om_fresh om2 = om_fresh om1" by auto
  have t2: "om_tail om2 = last_of (bs @ a # cs) None" using om2(7) ht(2) by simp
  from unlink_next [OF el(3) el(2) om2(3,4) d t2] obtain om3 where
    om3: "(if el_next el \<noteq> None then om_write om2 (el_next el) (\<lambda>e. e\<lparr>el_prev := el_prev el\<rparr>)
            else Some (om2\<lparr>om_tail := el_prev el\<rparr>)) = Some om3"
    "seg (om_links (om_heap om3)) None (bs @ cs) None" "same_entries (om_heap om2) (om_heap om3)"
    "om_head om3 = om_head om2" "om_tail om3 = last_of (bs @ cs) None" "dictionary om3 = dictionary om2"
    "om_size om3 = om_size om2" "om_fresh om3 = om_fresh om2" "om_heap om3 a = om_heap om2 a" by auto
  have "om_unlink om1 (Some a) = Some om3"
    by (simp only: om_unlink_def om_deref_def Option.bind.simps el1 om2(1) [folded el(3)] om2(2) om3(1))
  with om2 om3 om1 el show ?thesis
    using same_entries_trans [OF om2(5) om3(3)] by auto
qed

lemma om_Delete_ok:
  assumes ord: "good_order ord" and inv: "om_inv om as" and as: "as = bs @ a # cs"
    and key: "el_key (the (om_heap om a)) = k"
  shows "\<exists>om'. om_Delete id ord zv om k = Some (om', True) \<and> om_inv om' (bs @ cs) \<and> om_heap om' a = om_heap om a \<and>
    om_contents (om_heap om') (bs @ cs) = AList.delete k (om_contents (om_heap om) as) \<and>
    om_contents (om_heap om') (bs @ cs) = om_contents (om_heap om) (bs @ cs)"
proof -
  have dict: "sm_m (dictionary om) k' = Some x \<longleftrightarrow> x \<in> set as \<and> el_key (the (om_heap om x)) = k'" for k' x
    using inv by (simp add: om_inv_def)
  have k: "sm_m (dictionary om) k = Some a" using dict key as by simp
  obtain el where el: "om_heap om a = Some el" using om_inv_heap [OF inv, of a] as by auto
  define om1 where "om1 = om\<lparr>dictionary := fst (sm_Delete ord (dictionary om) k []), om_size := om_size om - 1\<rparr>"
  obtain om' where om': "om_unlink om1 (Some a) = Some om'"
    "seg (om_links (om_heap om')) None (bs @ cs) None" "same_entries (om_heap om) (om_heap om')"
    "om_head om' = first_of (bs @ cs) None" "om_tail om' = last_of (bs @ cs) None" "dictionary om' = dictionary om1"
    "om_size om' = om_size om1" "om_fresh om' = om_fresh om1" "om_heap om' a = om_heap om a"
    using om_unlink_ok [OF inv [unfolded as], of om1] by (auto simp: om1_def)
  have "sm_inv (dictionary om)" using om_inv_lookup(3) [OF inv] by (simp add: sm_inv_def)
  then have dm: "sm_m (dictionary om') = (sm_m (dictionary om))(k := None)"
    by (simp add: om'(6) om1_def sm_Delete_def sm_delete_eq(1) [OF ord])
  have alloc: "om_heap om x \<noteq> None" if "x \<in> set as" for x using om_inv_heap [OF inv that] by auto
  note same = same_entriesD [OF om'(3)]
  have d: "distinct as" using inv by (simp add: om_inv_def)
  have "sm_m (dictionary om') k' = Some x \<longleftrightarrow> x \<in> set (bs @ cs) \<and> el_key (the (om_heap om' x)) = k'" for k' x
  proof -
    have "sm_m (dictionary om) k' = Some x \<and> k' \<noteq> k \<longleftrightarrow> x \<in> set (bs @ cs) \<and> el_key (the (om_heap om x)) = k'"
      using dict [of k' x] dict [of k x] k d as by auto
    then show ?thesis using same(2) [OF alloc, of x] by (auto simp: dm as split: if_splits)
  qed
  then have inv': "om_inv om' (bs @ cs)"
    using inv om' d same(1) by (simp add: om_inv_def as om1_def)
  have con: "om_contents (om_heap om') (bs @ cs) = om_contents (om_heap om) (bs @ cs)"
    using same alloc as by (intro om_contents_cong) auto
  also have "\<dots> = AList.delete k (om_contents (om_heap om) as)"
  proof -
    have "distinct (map fst (om_contents (om_heap om) bs @ (k, el_value el) # om_contents (om_heap om) cs))"
      using om_inv_lookup(1) [OF inv] el key by (simp add: as)
    then show ?thesis using el key by (simp add: as delete_in_middle)
  qed
  finally have "om_contents (om_heap om') (bs @ cs) = AList.delete k (om_contents (om_heap om) as)" .
  moreover have "om_Delete id ord zv om k = Some (om', True)"
    using om'(1) k el by (simp add: om_Delete_def om_Get_def om_deref_def Let_def flip: om1_def)
  ultimately show ?thesis using inv' con om'(9) by blast
qed

subsection \<open>Refinement\<close>

lemma om_rel_New: "om_rel (om_New below10) []"
  unfolding om_rel_def by (intro exI [of _ "[]"]) (simp add: om_inv_def om_New_def)

lemma om_relI: "om_inv om as \<Longrightarrow> om_contents (om_heap om) as = xs \<Longrightarrow> om_rel om xs"
  by (auto simp: om_rel_def)

lemma om_entry_at_ok:
  assumes "om_inv om as" and "a \<in> set as"
  shows "om_entry_at zk zv om (Some a) = Some (el_key (the (om_heap om a)), el_value (the (om_heap om a)), True)"
proof -
  obtain el where "om_heap om a = Some el" using om_inv_heap [OF assms] .
  then show ?thesis by (simp add: om_entry_at_def om_deref_def)
qed

lemma om_Get_ok:
  assumes inv: "om_inv om as"
  shows "om_Get zv om k = Some (case map_of (om_contents (om_heap om) as) k of None \<Rightarrow> (zv, False) | Some w \<Rightarrow> (w, True))"
proof (cases "sm_m (dictionary om) k")
  case (Some a)
  then have "a \<in> set as" using inv by (simp add: om_inv_def)
  then obtain el where "om_heap om a = Some el" by (rule om_inv_heap [OF inv])
  then show ?thesis using Some om_inv_lookup(2) [OF inv, of k] by (simp add: om_Get_def om_deref_def)
qed (use om_inv_lookup(2) [OF inv, of k] in \<open>simp add: om_Get_def\<close>)

interpretation ordered_map: data_simulation "om_step below10 ord zk zv" "alist_step zk zv"
  "\<lambda>om xs. good_order ord \<and> om_rel om xs"
proof
  fix om :: "('a, 'b) OrderedMap" and xs op
  assume *: "good_order ord \<and> om_rel om xs"
  then obtain as where inv: "om_inv om as" and xs: "om_contents (om_heap om) as = xs" and ord: "good_order ord"
    by (auto simp: om_rel_def)
  have lookup: "map_of xs k = map_option (\<lambda>a. el_value (the (om_heap om a))) (sm_m (dictionary om) k)" for k
    using om_inv_lookup(2) [OF inv] xs by simp
  have len: "om_size om = int (length xs)" using inv xs [symmetric] by (simp add: om_inv_def)
  show "\<exists>om'. om_step below10 ord zk zv om op = Some (om', snd (alist_step zk zv xs op)) \<and>
      (good_order ord \<and> om_rel om' (fst (alist_step zk zv xs op)))"
  proof (cases op)
    case (OSet k v)
    show ?thesis
    proof (cases "sm_m (dictionary om) k")
      case None
      then have "k \<notin> fst ` set xs" using lookup [of k] by (simp add: map_of_eq_None_iff)
      moreover obtain om' where om': "om_Set zv om k v = Some (om', zv, False)" "om_rel om' (xs @ [(k, v)])"
        using om_Set_new [OF inv None, of zv v] unfolding xs by (blast intro: om_relI)
      ultimately show ?thesis using ord None lookup [of k] by (simp add: OSet update_at_end)
    next
      case (Some a)
      obtain om' w where "om_Set zv om k v = Some (om', w, True)" "map_of xs k = Some w" "om_rel om' (AList.update k v xs)"
        using om_Set_existing [OF inv Some, of zv v] unfolding xs by (blast intro: om_relI)
      then show ?thesis using ord by (simp add: OSet)
    qed
  next
    case (ODelete k)
    show ?thesis
    proof (cases "sm_m (dictionary om) k")
      case None
      then have "k \<notin> fst ` set xs" using lookup [of k] by (simp add: map_of_eq_None_iff)
      then have "AList.delete k xs = xs" by (force simp: AList.delete_eq intro!: filter_True)
      then show ?thesis using * None lookup [of k] by (simp add: ODelete om_Delete_def om_Get_def)
    next
      case (Some a)
      then have "a \<in> set as" "el_key (the (om_heap om a)) = k" using inv by (auto simp: om_inv_def)
      then obtain bs cs where "as = bs @ a # cs" by (meson split_list)
      from om_Delete_ok [OF ord inv this \<open>el_key (the (om_heap om a)) = k\<close>, of zv]
      obtain om' where "om_Delete id ord zv om k = Some (om', True)" "om_rel om' (AList.delete k xs)"
        unfolding xs by (blast intro: om_relI)
      then show ?thesis using Some lookup [of k] ord by (simp add: ODelete)
    qed
  next
    case OHead
    then show ?thesis using * inv xs om_entry_at_ok [OF inv, of "hd as" zk zv]
      by (cases as) (auto simp: om_Head_def om_entry_at_def om_inv_def)
  next
    case OTail
    then show ?thesis using * inv xs om_entry_at_ok [OF inv, of "last as" zk zv]
      by (cases as rule: rev_cases) (auto simp: om_Tail_def om_entry_at_def om_inv_def)
  next
    case OClear
    have "om_inv (om_Clear below10 om) []" using inv by (auto simp: om_inv_def om_Clear_def)
    then show ?thesis using ord by (auto simp: OClear om_rel_def intro!: exI [of _ "[]"])
  qed (use * lookup len om_Get_ok [OF inv, of zv] xs in \<open>simp_all add: om_Has_def sm_Has_def om_Size_def om_IsEmpty_def
      split: option.split\<close>)
qed

subsection \<open>Iteration\<close>

lemmas om_walk_unfold = om_walk.simps

lemma om_walk_nil [simp]: "om_walk dir f None om w = Some (om, w, True)"
  by (subst om_walk_unfold) simp

lemma om_walk_el:
  "om_heap om a = Some el \<Longrightarrow> f om w (el_key el) (el_value el) = (om', w', c) \<Longrightarrow>
    (c \<Longrightarrow> om_heap om' a = Some el') \<Longrightarrow>
    om_walk dir f (Some a) om w = (if c then om_walk dir f (dir el') om' w' else Some (om', w', False))"
  by (subst om_walk_unfold) simp

lemma om_walk_forward:
  assumes inv: "om_inv om as"
  shows "as = bs @ cs \<Longrightarrow> om_walk el_next (\<lambda>om w k v. (om, consumer w k v)) (first_of cs None) om w =
    Some (om, visit consumer (om_contents (om_heap om) cs) w)"
proof (induction cs arbitrary: bs w)
  case (Cons a cs)
  have "om_inv om (bs @ a # cs)" using inv Cons.prems by simp
  from om_inv_el [OF this] obtain el where el: "om_heap om a = Some el" "el_next el = first_of cs None" .
  obtain w' c where c: "consumer w (el_key el) (el_value el) = (w', c)" by (metis prod.exhaust)
  from Cons.IH [of "bs @ [a]"] Cons.prems have
    "om_walk el_next (\<lambda>om w k v. (om, consumer w k v)) (first_of cs None) om w' =
      Some (om, visit consumer (om_contents (om_heap om) cs) w')" by simp
  with el c show ?case by (simp add: om_walk_el [where el' = el and om' = om and w' = w' and c = c])
qed simp

lemma om_walk_backward:
  assumes inv: "om_inv om as"
  shows "as = bs @ cs \<Longrightarrow> om_walk el_prev (\<lambda>om w k v. (om, consumer w k v)) (last_of bs None) om w =
    Some (om, visit consumer (rev (om_contents (om_heap om) bs)) w)"
proof (induction bs arbitrary: cs w rule: rev_induct)
  case (snoc a bs)
  have "om_inv om (bs @ a # cs)" using inv snoc.prems by simp
  from om_inv_el [OF this] obtain el where el: "om_heap om a = Some el" "el_prev el = last_of bs None" .
  obtain w' c where c: "consumer w (el_key el) (el_value el) = (w', c)" by (metis prod.exhaust)
  from snoc.IH [of "a # cs"] snoc.prems have
    "om_walk el_prev (\<lambda>om w k v. (om, consumer w k v)) (last_of bs None) om w' =
      Some (om, visit consumer (rev (om_contents (om_heap om) bs)) w')" by simp
  with el c show ?case by (simp add: om_walk_el [where el' = el and om' = om and w' = w' and c = c])
qed simp

text \<open>A consumer that deletes the entry it is shown, if \<open>P\<close> holds for the key.\<close>

definition deleting :: "(('k \<rightharpoonup> addr) \<Rightarrow> 'k list) \<Rightarrow> 'v \<Rightarrow> ('k \<Rightarrow> bool) \<Rightarrow> ('k, 'v) OrderedMap \<Rightarrow> ('k \<times> 'v) list
    \<Rightarrow> 'k \<Rightarrow> 'v \<Rightarrow> ('k, 'v) OrderedMap \<times> ('k \<times> 'v) list \<times> bool" where
  "deleting ord zv P om seen k v =
     (if P k then fst (the (om_Delete id ord zv om k)) else om, seen @ [(k, v)], True)"

lemma om_walk_deleting:
  assumes ord: "good_order ord"
  shows "om_inv om (bs @ cs) \<Longrightarrow>
    \<exists>om' as'. om_walk el_next (deleting ord zv P) (first_of cs None) om seen =
        Some (om', seen @ om_contents (om_heap om) cs, True) \<and> om_inv om' as' \<and>
      om_contents (om_heap om') as' =
        om_contents (om_heap om) bs @ filter (\<lambda>(k, v). \<not> P k) (om_contents (om_heap om) cs)"
proof (induction cs arbitrary: om bs seen)
  case Nil
  then show ?case by auto
next
  case (Cons a cs)
  obtain el where el: "om_heap om a = Some el" "el_next el = first_of cs None"
    using om_inv_el [OF Cons.prems] .
  let ?k = "el_key el" and ?v = "el_value el"
  show ?case
  proof (cases "P ?k")
    case False
    from Cons.IH [of om "bs @ [a]" "seen @ [(?k, ?v)]"] Cons.prems obtain om' as' where
      "om_walk el_next (deleting ord zv P) (first_of cs None) om (seen @ [(?k, ?v)]) =
        Some (om', (seen @ [(?k, ?v)]) @ om_contents (om_heap om) cs, True)" "om_inv om' as'"
      "om_contents (om_heap om') as' =
        om_contents (om_heap om) (bs @ [a]) @ filter (\<lambda>(k, v). \<not> P k) (om_contents (om_heap om) cs)" by auto
    moreover have step: "deleting ord zv P om seen ?k ?v = (om, seen @ [(?k, ?v)], True)"
      using False by (simp add: deleting_def)
    ultimately show ?thesis using False el
      by (intro exI [of _ om'] exI [of _ as'])
        (simp add: om_walk_el [where el' = el and om' = om and w' = "seen @ [(?k, ?v)]" and c = True] step)
  next
    case True
    have key: "el_key (the (om_heap om a)) = ?k" using el by simp
    from om_Delete_ok [OF ord Cons.prems refl key, of zv] obtain om1 where
      om1: "om_Delete id ord zv om ?k = Some (om1, True)" "om_inv om1 (bs @ cs)" "om_heap om1 a = om_heap om a"
        "om_contents (om_heap om1) (bs @ cs) = om_contents (om_heap om) (bs @ cs)" by auto
    then have con: "om_contents (om_heap om1) bs = om_contents (om_heap om) bs"
      "om_contents (om_heap om1) cs = om_contents (om_heap om) cs" by simp_all
    from Cons.IH [OF om1(2), of "seen @ [(?k, ?v)]"] obtain om' as' where
      "om_walk el_next (deleting ord zv P) (first_of cs None) om1 (seen @ [(?k, ?v)]) =
        Some (om', (seen @ [(?k, ?v)]) @ om_contents (om_heap om1) cs, True)" "om_inv om' as'"
      "om_contents (om_heap om') as' =
        om_contents (om_heap om1) bs @ filter (\<lambda>(k, v). \<not> P k) (om_contents (om_heap om1) cs)" by auto
    moreover have step: "deleting ord zv P om seen ?k ?v = (om1, seen @ [(?k, ?v)], True)"
      using True om1(1) by (simp add: deleting_def)
    ultimately show ?thesis using True el om1(3) con
      by (intro exI [of _ om'] exI [of _ as'])
        (simp add: om_walk_el [where el' = el and om' = om1 and w' = "seen @ [(?k, ?v)]" and c = True] step)
  qed
qed

text \<open>\<^verbatim>\<open>Clone\<close> sets the entries of the original one by one in an empty map.\<close>

lemma om_Set_fresh:
  assumes "om_rel om xs" and "k \<notin> fst ` set xs"
  shows "\<exists>om'. om_Set zv om k v = Some (om', zv, False) \<and> om_rel om' (xs @ [(k, v)])"
proof -
  obtain as where inv: "om_inv om as" and xs: "om_contents (om_heap om) as = xs" using assms(1) by (auto simp: om_rel_def)
  have "map_of xs k = None" using assms(2) by (simp add: map_of_eq_None_iff)
  then have "sm_m (dictionary om) k = None" using om_inv_lookup(2) [OF inv, of k] xs by simp
  from om_Set_new [OF inv this, of zv v] show ?thesis unfolding xs by (blast intro: om_relI)
qed

lemma om_rel_Set: "om_rel om xs \<Longrightarrow> k \<notin> fst ` set xs \<Longrightarrow> om_rel (fst (the (om_Set zv om k v))) (xs @ [(k, v)])"
  using om_Set_fresh [of om xs k zv v] by auto

lemma om_Clone_visit:
  "om_rel c ys \<Longrightarrow> distinct (map fst (ys @ xs)) \<Longrightarrow>
    \<exists>c'. visit (\<lambda>cloned k v. (Option.bind cloned (\<lambda>c. map_option fst (om_Set zv c k v)), True)) xs (Some c) =
      (Some c', True) \<and> om_rel c' (ys @ xs)"
proof (induction xs arbitrary: c ys)
  case (Cons x xs)
  obtain k v where x: "x = (k, v)" by (metis prod.exhaust)
  have "k \<notin> fst ` set ys" using Cons.prems(2) x by auto
  then obtain c' where c': "om_Set zv c k v = Some (c', zv, False)" "om_rel c' (ys @ [x])"
    using om_Set_fresh [OF Cons.prems(1)] x by blast
  from Cons.IH [OF c'(2)] Cons.prems(2) show ?case by (simp add: x c')
qed simp

lemma om_Clone_ok:
  assumes "om_rel om xs"
  shows "\<exists>c. om_Clone below10 zv om = Some c \<and> om_rel c xs"
proof -
  obtain as where inv: "om_inv om as" and xs: "om_contents (om_heap om) as = xs" using assms by (auto simp: om_rel_def)
  have "distinct (map fst xs)" using om_inv_lookup(1) [OF inv] xs by simp
  then obtain c where "visit (\<lambda>cloned k v. (Option.bind cloned (\<lambda>c. map_option fst (om_Set zv c k v)), True)) xs
      (Some (om_New below10)) = (Some c, True)" "om_rel c xs"
    using om_Clone_visit [OF om_rel_New, of xs zv below10] by auto
  moreover have "om_head om = first_of as None" using inv by (simp add: om_inv_def)
  ultimately show ?thesis
    using om_walk_forward [OF inv, of "[]" as "\<lambda>cloned k v. (Option.bind cloned (\<lambda>c. map_option fst (om_Set zv c k v)), True)"
        "Some (om_New below10)"] xs
    by (simp add: om_Clone_def)
qed

section \<open>Properties\<close>

text \<open>C7: every sequence of calls of an ordered map, from a fresh one, returns without a nil dereference and with the
  results of an association list kept in the order in which its keys were first set: \<^verbatim>\<open>Set\<close> of a known key
  changes the value in place, \<^verbatim>\<open>Head\<close> and \<^verbatim>\<open>Tail\<close> are the oldest and the newest entry, and the size counts the
  entries. The order in which the runtime visits the buckets of the dictionary is a parameter.\<close>

theorem ordered_map_is_alist:
  assumes "good_order ord"
  shows "\<exists>om. run_ops (om_step below10 ord zk zv) (om_New below10) ops = Some (om, snd (run_spec (alist_step zk zv) [] ops)) \<and>
    om_rel om (fst (run_spec (alist_step zk zv) [] ops))"
  using ordered_map.run_simulates [where s = "om_New below10" and a = "[]" and ops = ops] assms om_rel_New by blast

theorem ordered_map_is_alist_witness:
  "\<exists>om. run_ops (om_step (\<lambda>_ _. False) (\<lambda>m. sorted_list_of_set (dom m)) (0::nat) ''zero'') (om_New (\<lambda>_ _. False))
     [OSet 7 ''a'', OSet 5 ''b'', OSet 7 ''c'', OHead, OTail, ODelete 7, OGet 7, OHead, OSize] =
     Some (om, [OValue ''zero'' False, OValue ''zero'' False, OValue ''a'' True, OEntry 7 ''c'' True, OEntry 5 ''b'' True,
       OYes True, OValue ''zero'' False, OEntry 5 ''b'' True, ONumber 1])"
proof -
  have "snd (run_spec (alist_step (0::nat) ''zero'') []
     [OSet 7 ''a'', OSet 5 ''b'', OSet 7 ''c'', OHead, OTail, ODelete 7, OGet 7, OHead, OSize]) =
     [OValue ''zero'' False, OValue ''zero'' False, OValue ''a'' True, OEntry 7 ''c'' True, OEntry 5 ''b'' True,
       OYes True, OValue ''zero'' False, OEntry 5 ''b'' True, ONumber 1]" by simp
  with ordered_map_is_alist [OF good_order_sorted, of "\<lambda>_ _. False" "0::nat" "''zero''"
      "[OSet 7 ''a'', OSet 5 ''b'', OSet 7 ''c'', OHead, OTail, ODelete 7, OGet 7, OHead, OSize]"]
  show ?thesis by (elim exE conjE) (intro exI, simp only:)
qed

text \<open>C28: the iterations end. \<^verbatim>\<open>ForEach\<close> shows a consumer that leaves the map alone the entries in insertion order,
  \<^verbatim>\<open>ForEachReverse\<close> in the reverse order, both stop at the first entry for which the consumer returns false, and
  \<^verbatim>\<open>Clone\<close> returns a map with the same entries in the same order.\<close>

theorem ordered_map_iterates:
  assumes "om_rel om xs"
  shows "om_ForEach (\<lambda>om w k v. (om, consumer w k v)) om w = Some (om, visit consumer xs w) \<and>
    om_ForEachReverse (\<lambda>om w k v. (om, consumer w k v)) om w = Some (om, visit consumer (rev xs) w) \<and>
    (\<exists>c. om_Clone below10 zv om = Some c \<and> om_rel c xs)"
proof -
  obtain as where inv: "om_inv om as" and xs: "om_contents (om_heap om) as = xs" using assms by (auto simp: om_rel_def)
  have ends: "om_head om = first_of as None" "om_tail om = last_of as None" using inv by (simp_all add: om_inv_def)
  from om_walk_forward [OF inv, of "[]" as consumer w] om_walk_backward [OF inv, of as "[]" consumer w] om_Clone_ok [OF assms] show ?thesis
    by (simp add: om_ForEach_def om_ForEachReverse_def ends xs)
qed

theorem ordered_map_iterates_witness:
  "let om = fst (the (om_Set 0 (fst (the (om_Set 0 (om_New (\<lambda>_ _. False)) ''b'' (1::int)))) ''a'' 2)) in
    om_ForEach (\<lambda>om w k v. (om, w @ [k], True)) om [] = Some (om, [''b'', ''a''], True) \<and>
    om_ForEachReverse (\<lambda>om w k v. (om, w @ [k], False)) om [] = Some (om, [''a''], False)"
proof -
  have "om_rel (fst (the (om_Set 0 (fst (the (om_Set 0 (om_New (\<lambda>_ _. False)) ''b'' (1::int)))) ''a'' 2)))
      ([] @ [(''b'', 1)] @ [(''a'', 2)])"
    using om_rel_Set [OF om_rel_Set [OF om_rel_New [of "\<lambda>_ _. False"], of "''b''" "0::int" 1], of "''a''" 0 2] by simp
  from ordered_map_iterates [OF this, of "\<lambda>w k v. (w @ [k], True)" "[]"]
    ordered_map_iterates [OF this, of "\<lambda>w k v. (w @ [k], False)" "[]"]
  show ?thesis by (simp add: Let_def)
qed

text \<open>C29: a consumer of \<^verbatim>\<open>ForEach\<close> may delete the entry it is shown: the iteration still ends, it shows every entry
  exactly once and in order, and afterwards exactly the entries that were not deleted are left.\<close>

theorem delete_while_iterating:
  assumes "good_order ord" and "om_rel om xs"
  shows "\<exists>om'. om_ForEach (deleting ord zv P) om [] = Some (om', xs, True) \<and> om_rel om' (filter (\<lambda>(k, v). \<not> P k) xs)"
proof -
  obtain as where inv: "om_inv om as" and xs: "om_contents (om_heap om) as = xs" using assms by (auto simp: om_rel_def)
  have "om_head om = first_of as None" using inv by (simp add: om_inv_def)
  moreover obtain om' as' where "om_walk el_next (deleting ord zv P) (first_of as None) om [] = Some (om', xs, True)"
    "om_inv om' as'" "om_contents (om_heap om') as' = filter (\<lambda>(k, v). \<not> P k) xs"
    using om_walk_deleting [OF assms(1), of om "[]" as zv P "[]"] inv xs by auto
  ultimately show ?thesis using om_relI [of om' as'] by (auto simp: om_ForEach_def om_rel_def)
qed

theorem delete_while_iterating_witness:
  "\<exists>om'. om_ForEach (deleting (\<lambda>m. sorted_list_of_set (dom m)) 0 (\<lambda>k. k = 7))
      (fst (the (om_Set 0 (fst (the (om_Set 0 (om_New (\<lambda>_ _. False)) 7 (1::int)))) (5::nat) 2))) [] =
      Some (om', [(7, 1), (5, 2)], True) \<and> om_rel om' [(5, 2)]"
proof -
  have "om_rel (fst (the (om_Set 0 (fst (the (om_Set 0 (om_New (\<lambda>_ _. False)) 7 (1::int)))) (5::nat) 2)))
      [(7, 1), (5, 2)]"
    using om_rel_Set [OF om_rel_Set [OF om_rel_New [of "\<lambda>_ _. False"], of "7::nat" "0::int" 1], of 5 0 2] by simp
  from delete_while_iterating [OF good_order_sorted this, of 0 "\<lambda>k. k = 7"] show ?thesis by simp
qed

end
