(* ===== verification/List_Heap.thy ===== *)
theory List_Heap
  imports Linked_Segments
begin

text \<open>
  The plain doubly linked list of \<^verbatim>\<open>ds/list_impl.go\<close> on an explicit heap: its elements, the ring that every list forms
  with its sentinel, the operations as sequences of pointer reads and writes, and the invariant that they keep. One heap
  holds the elements of all lists, so that lemmas also say what an operation leaves alone.
\<close>

section \<open>Definitions\<close>

subsection \<open>Elements and lists\<close>

text \<open>The list an element belongs to is named by the address of the list, which is the address of its sentinel
  \<^verbatim>\<open>root\<close>, its first field. The value is a pointer: \<^term>\<open>None\<close> is nil.\<close>

record 'a listElement =
  le_next :: pointer
  le_prev :: pointer
  le_list :: pointer
  le_value :: "'a option"

text \<open>The heap of all elements and sentinels, the field \<^verbatim>\<open>len\<close> of every list, and the next free address.\<close>

record 'a list_store =
  elements :: "addr \<rightharpoonup> 'a listElement"
  lens :: "addr \<rightharpoonup> int"
  fresh :: addr

definition deref :: "'a list_store \<Rightarrow> pointer \<Rightarrow> 'a listElement option" where
  "deref st p = Option.bind p (elements st)"

definition write_el :: "('a listElement \<Rightarrow> 'a listElement) \<Rightarrow> pointer \<Rightarrow> 'a list_store \<Rightarrow> 'a list_store option" where
  "write_el f p st = do {
     a \<leftarrow> p;
     el \<leftarrow> elements st a;
     Some (st\<lparr>elements := (elements st)(a \<mapsto> f el)\<rparr>)
   }"

definition store_next :: "pointer \<Rightarrow> pointer \<Rightarrow> 'a list_store \<Rightarrow> 'a list_store option" where
  "store_next p n = write_el (\<lambda>el. el\<lparr>le_next := n\<rparr>) p"

definition store_prev :: "pointer \<Rightarrow> pointer \<Rightarrow> 'a list_store \<Rightarrow> 'a list_store option" where
  "store_prev p q = write_el (\<lambda>el. el\<lparr>le_prev := q\<rparr>) p"

definition store_list :: "pointer \<Rightarrow> pointer \<Rightarrow> 'a list_store \<Rightarrow> 'a list_store option" where
  "store_list p l = write_el (\<lambda>el. el\<lparr>le_list := l\<rparr>) p"

definition alloc :: "'a option \<Rightarrow> 'a list_store \<Rightarrow> addr \<times> 'a list_store" where
  "alloc v st = (fresh st, st\<lparr>elements := (elements st)(fresh st \<mapsto>
       \<lparr>le_next = None, le_prev = None, le_list = None, le_value = v\<rparr>), fresh := fresh st + 1\<rparr>)"

definition el_Prev :: "'a list_store \<Rightarrow> pointer \<Rightarrow> pointer option" where
  "el_Prev st p = do {
     el \<leftarrow> deref st p;
     Some (if le_list el \<noteq> None \<and> le_prev el \<noteq> le_list el then le_prev el else None)
   }"

definition el_Next :: "'a list_store \<Rightarrow> pointer \<Rightarrow> pointer option" where
  "el_Next st p = do {
     el \<leftarrow> deref st p;
     Some (if le_list el \<noteq> None \<and> le_next el \<noteq> le_list el then le_next el else None)
   }"

definition el_Value :: "'a \<Rightarrow> 'a list_store \<Rightarrow> pointer \<Rightarrow> 'a option" where
  "el_Value zero st p = do {
     el \<leftarrow> deref st p;
     Some (case le_value el of None \<Rightarrow> zero | Some v \<Rightarrow> v)
   }"

subsection \<open>The plain list\<close>

definition list_Init :: "addr \<Rightarrow> 'a list_store \<Rightarrow> 'a list_store option" where
  "list_Init l st = do {
     st \<leftarrow> store_next (Some l) (Some l) st;
     st \<leftarrow> store_prev (Some l) (Some l) st;
     Some (st\<lparr>lens := (lens st)(l \<mapsto> 0)\<rparr>)
   }"

definition newList :: "'a list_store \<Rightarrow> ('a list_store \<times> addr) option" where
  "newList st = do {
     let (l, st) = alloc None st;
     st \<leftarrow> list_Init l (st\<lparr>lens := (lens st)(l \<mapsto> 0)\<rparr>);
     Some (st, l)
   }"

definition list_Front :: "'a list_store \<Rightarrow> addr \<Rightarrow> pointer option" where
  "list_Front st l = do {
     n \<leftarrow> lens st l;
     if n = 0 then Some None else do { root \<leftarrow> deref st (Some l); Some (le_next root) }
   }"

definition list_Back :: "'a list_store \<Rightarrow> addr \<Rightarrow> pointer option" where
  "list_Back st l = do {
     n \<leftarrow> lens st l;
     if n = 0 then Some None else do { root \<leftarrow> deref st (Some l); Some (le_prev root) }
   }"

definition list_Len :: "'a list_store \<Rightarrow> addr \<Rightarrow> int option" where
  "list_Len st l = lens st l"

definition lazyInit :: "addr \<Rightarrow> 'a list_store \<Rightarrow> 'a list_store option" where
  "lazyInit l st = do {
     root \<leftarrow> deref st (Some l);
     if le_next root = None then list_Init l st else Some st
   }"

definition add_len :: "addr \<Rightarrow> int \<Rightarrow> 'a list_store \<Rightarrow> 'a list_store option" where
  "add_len l d st = do { n \<leftarrow> lens st l; Some (st\<lparr>lens := (lens st)(l \<mapsto> n + d)\<rparr>) }"

text \<open>The four pointer writes that put \<open>e\<close> after \<open>at\<close>, shared by \<^verbatim>\<open>insert\<close> and \<^verbatim>\<open>move\<close>.\<close>

definition link_in :: "pointer \<Rightarrow> pointer \<Rightarrow> 'a list_store \<Rightarrow> 'a list_store option" where
  "link_in e at st = do {
     st \<leftarrow> store_prev e at st;
     atEl \<leftarrow> deref st at;
     st \<leftarrow> store_next e (le_next atEl) st;
     el \<leftarrow> deref st e;
     st \<leftarrow> store_next (le_prev el) e st;
     el \<leftarrow> deref st e;
     store_prev (le_next el) e st
   }"

text \<open>The two writes that take \<open>e\<close> out of the ring, shared by \<^verbatim>\<open>remove\<close> and \<^verbatim>\<open>move\<close>.\<close>

definition link_out :: "pointer \<Rightarrow> 'a list_store \<Rightarrow> 'a list_store option" where
  "link_out e st = do {
     el \<leftarrow> deref st e;
     st \<leftarrow> store_next (le_prev el) (le_next el) st;
     el \<leftarrow> deref st e;
     store_prev (le_next el) (le_prev el) st
   }"

definition list_insert :: "addr \<Rightarrow> pointer \<Rightarrow> pointer \<Rightarrow> 'a list_store \<Rightarrow> 'a list_store option" where
  "list_insert l e at st = do {
     st \<leftarrow> link_in e at st;
     st \<leftarrow> store_list e (Some l) st;
     add_len l 1 st
   }"

definition insertValue :: "addr \<Rightarrow> 'a \<Rightarrow> pointer \<Rightarrow> 'a list_store \<Rightarrow> ('a list_store \<times> pointer) option" where
  "insertValue l v at st = do {
     let (e, st) = alloc (Some v) st;
     st \<leftarrow> list_insert l (Some e) at st;
     Some (st, Some e)
   }"

definition list_remove :: "addr \<Rightarrow> pointer \<Rightarrow> 'a list_store \<Rightarrow> 'a list_store option" where
  "list_remove l e st = do {
     st \<leftarrow> link_out e st;
     st \<leftarrow> store_next e None st;
     st \<leftarrow> store_prev e None st;
     st \<leftarrow> store_list e None st;
     add_len l (-1) st
   }"

definition list_move :: "pointer \<Rightarrow> pointer \<Rightarrow> 'a list_store \<Rightarrow> 'a list_store option" where
  "list_move e at st = (if e = at then Some st else do { st \<leftarrow> link_out e st; link_in e at st })"

definition list_PushFront :: "addr \<Rightarrow> 'a \<Rightarrow> 'a list_store \<Rightarrow> ('a list_store \<times> pointer) option" where
  "list_PushFront l v st = do {
     st \<leftarrow> lazyInit l st;
     insertValue l v (Some l) st
   }"

definition list_PushBack :: "addr \<Rightarrow> 'a \<Rightarrow> 'a list_store \<Rightarrow> ('a list_store \<times> pointer) option" where
  "list_PushBack l v st = do {
     st \<leftarrow> lazyInit l st;
     root \<leftarrow> deref st (Some l);
     insertValue l v (le_prev root) st
   }"

text \<open>A nil element makes the type assertion fail, which panics.\<close>

definition list_Remove :: "addr \<Rightarrow> pointer \<Rightarrow> 'a list_store \<Rightarrow> ('a list_store \<times> 'a) option" where
  "list_Remove l e st = do {
     el \<leftarrow> deref st e;
     st \<leftarrow> (if le_list el = Some l then list_remove l e st else Some st);
     el \<leftarrow> deref st e;
     v \<leftarrow> le_value el;
     Some (st, v)
   }"

definition list_InsertBefore :: "addr \<Rightarrow> 'a \<Rightarrow> pointer \<Rightarrow> 'a list_store \<Rightarrow> ('a list_store \<times> pointer) option" where
  "list_InsertBefore l v position st = do {
     el \<leftarrow> deref st position;
     if le_list el \<noteq> Some l then Some (st, None) else insertValue l v (le_prev el) st
   }"

definition list_InsertAfter :: "addr \<Rightarrow> 'a \<Rightarrow> pointer \<Rightarrow> 'a list_store \<Rightarrow> ('a list_store \<times> pointer) option" where
  "list_InsertAfter l v position st = do {
     el \<leftarrow> deref st position;
     if le_list el \<noteq> Some l then Some (st, None) else insertValue l v position st
   }"

definition list_MoveToFront :: "addr \<Rightarrow> pointer \<Rightarrow> 'a list_store \<Rightarrow> 'a list_store option" where
  "list_MoveToFront l e st = do {
     el \<leftarrow> deref st e;
     root \<leftarrow> deref st (Some l);
     if le_list el \<noteq> Some l \<or> le_next root = e then Some st else list_move e (Some l) st
   }"

definition list_MoveToBack :: "addr \<Rightarrow> pointer \<Rightarrow> 'a list_store \<Rightarrow> 'a list_store option" where
  "list_MoveToBack l e st = do {
     el \<leftarrow> deref st e;
     root \<leftarrow> deref st (Some l);
     if le_list el \<noteq> Some l \<or> le_prev root = e then Some st else list_move e (le_prev root) st
   }"

text \<open>The source converts \<^verbatim>\<open>element\<close>, not \<^verbatim>\<open>position\<close>, to get \<^verbatim>\<open>positionTyped\<close>.\<close>

definition list_MoveBefore :: "addr \<Rightarrow> pointer \<Rightarrow> pointer \<Rightarrow> 'a list_store \<Rightarrow> 'a list_store option" where
  "list_MoveBefore l element position st = do {
     typedElement \<leftarrow> deref st element;
     positionTyped \<leftarrow> deref st element;
     if le_list typedElement \<noteq> Some l \<or> element = position \<or> le_list positionTyped \<noteq> Some l then Some st
     else list_move element (le_prev positionTyped) st
   }"

definition list_MoveAfter :: "addr \<Rightarrow> pointer \<Rightarrow> pointer \<Rightarrow> 'a list_store \<Rightarrow> 'a list_store option" where
  "list_MoveAfter l element position st = do {
     typedElement \<leftarrow> deref st element;
     positionTyped \<leftarrow> deref st element;
     if le_list typedElement \<noteq> Some l \<or> element = position \<or> le_list positionTyped \<noteq> Some l then Some st
     else list_move element element st
   }"

fun push_back_loop :: "addr \<Rightarrow> nat \<Rightarrow> pointer \<Rightarrow> 'a list_store \<Rightarrow> 'a list_store option" where
  "push_back_loop l 0 e st = Some st"
| "push_back_loop l (Suc i) e st = do {
     el \<leftarrow> deref st e;
     v \<leftarrow> le_value el;
     root \<leftarrow> deref st (Some l);
     (st, _) \<leftarrow> insertValue l v (le_prev root) st;
     e \<leftarrow> el_Next st e;
     push_back_loop l i e st
   }"

fun push_front_loop :: "addr \<Rightarrow> nat \<Rightarrow> pointer \<Rightarrow> 'a list_store \<Rightarrow> 'a list_store option" where
  "push_front_loop l 0 e st = Some st"
| "push_front_loop l (Suc i) e st = do {
     el \<leftarrow> deref st e;
     v \<leftarrow> le_value el;
     (st, _) \<leftarrow> insertValue l v (Some l) st;
     e \<leftarrow> el_Prev st e;
     push_front_loop l i e st
   }"

definition list_PushBackList :: "addr \<Rightarrow> addr \<Rightarrow> 'a list_store \<Rightarrow> 'a list_store option" where
  "list_PushBackList l other st = do {
     st \<leftarrow> lazyInit l st;
     n \<leftarrow> list_Len st other;
     e \<leftarrow> list_Front st other;
     push_back_loop l (nat n) e st
   }"

definition list_PushFrontList :: "addr \<Rightarrow> addr \<Rightarrow> 'a list_store \<Rightarrow> 'a list_store option" where
  "list_PushFrontList l other st = do {
     st \<leftarrow> lazyInit l st;
     n \<leftarrow> list_Len st other;
     e \<leftarrow> list_Back st other;
     push_front_loop l (nat n) e st
   }"

text \<open>The iterations; the callback does not change the lists. It returns an error to stop.\<close>

partial_function (option) list_walk ::
  "('a list_store \<Rightarrow> pointer \<Rightarrow> pointer option) \<Rightarrow> 'a \<Rightarrow> 'a list_store \<Rightarrow> ('w \<Rightarrow> 'a \<Rightarrow> 'w \<times> 'e option)
     \<Rightarrow> pointer \<Rightarrow> 'w \<Rightarrow> ('w \<times> 'e option) option" where
  "list_walk dir zero st callback e w =
     (if e = None then Some (w, None)
      else do {
        v \<leftarrow> el_Value zero st e;
        let (w, err) = callback w v;
        if err \<noteq> None then Some (w, err)
        else do { e \<leftarrow> dir st e; list_walk dir zero st callback e w }
      })"

definition list_ForEach ::
  "'a \<Rightarrow> 'a list_store \<Rightarrow> addr \<Rightarrow> ('w \<Rightarrow> 'a \<Rightarrow> 'w \<times> 'e option) \<Rightarrow> 'w \<Rightarrow> ('w \<times> 'e option) option" where
  "list_ForEach zero st l callback w = do { e \<leftarrow> list_Front st l; list_walk el_Next zero st callback e w }"

definition list_ForEachReverse ::
  "'a \<Rightarrow> 'a list_store \<Rightarrow> addr \<Rightarrow> ('w \<Rightarrow> 'a \<Rightarrow> 'w \<times> 'e option) \<Rightarrow> 'w \<Rightarrow> ('w \<times> 'e option) option" where
  "list_ForEachReverse zero st l callback w = do { e \<leftarrow> list_Back st l; list_walk el_Prev zero st callback e w }"

definition no_error :: "('w \<Rightarrow> 'a \<Rightarrow> 'w) \<Rightarrow> 'w \<Rightarrow> 'a \<Rightarrow> 'w \<times> unit option" where
  "no_error callback w v = (callback w v, None)"

definition list_Range :: "'a \<Rightarrow> 'a list_store \<Rightarrow> addr \<Rightarrow> ('w \<Rightarrow> 'a \<Rightarrow> 'w) \<Rightarrow> 'w \<Rightarrow> 'w option" where
  "list_Range zero st l callback w = do {
     e \<leftarrow> list_Front st l;
     (w, _) \<leftarrow> list_walk el_Next zero st (no_error callback) e w;
     Some w
   }"

definition list_RangeReverse :: "'a \<Rightarrow> 'a list_store \<Rightarrow> addr \<Rightarrow> ('w \<Rightarrow> 'a \<Rightarrow> 'w) \<Rightarrow> 'w \<Rightarrow> 'w option" where
  "list_RangeReverse zero st l callback w = do {
     e \<leftarrow> list_Back st l;
     (w, _) \<leftarrow> list_walk el_Prev zero st (no_error callback) e w;
     Some w
   }"

definition list_Values :: "'a \<Rightarrow> 'a list_store \<Rightarrow> addr \<Rightarrow> 'a list option" where
  "list_Values zero st l = list_Range zero st l (\<lambda>values v. values @ [v]) []"

subsection \<open>The invariant\<close>

definition links_of :: "'a list_store \<Rightarrow> links" where
  "links_of st a = map_option (\<lambda>el. (le_prev el, le_next el)) (elements st a)"

definition payload :: "'a list_store \<Rightarrow> addr \<rightharpoonup> pointer \<times> 'a option" where
  "payload st a = map_option (\<lambda>el. (le_list el, le_value el)) (elements st a)"

definition vals :: "'a list_store \<Rightarrow> addr \<rightharpoonup> 'a" where
  "vals st a = Option.bind (elements st a) le_value"

text \<open>\<open>R\<close> gives for every list the addresses of its elements in order.\<close>

definition list_inv :: "'a list_store \<Rightarrow> (addr \<rightharpoonup> addr list) \<Rightarrow> bool" where
  "list_inv st R \<longleftrightarrow>
     dom R = dom (lens st) \<and>
     (\<forall>l as. R l = Some as \<longrightarrow>
        cyc (links_of st) (l # as) \<and> lens st l = Some (int (length as)) \<and> payload st l = Some (None, None) \<and>
        (\<forall>a \<in> set as. \<exists>v. payload st a = Some (Some l, Some v))) \<and>
     (\<forall>a l v. payload st a = Some (Some l, v) \<longrightarrow> (\<exists>as. R l = Some as \<and> a \<in> set as)) \<and>
     (\<forall>a p. payload st a = Some (p, None) \<longrightarrow> a \<in> dom (lens st)) \<and>
     (\<forall>a. fresh st \<le> a \<longrightarrow> elements st a = None)"

section \<open>Lemmas\<close>

subsection \<open>The invariant\<close>

lemma payload_Some: "elements st a = Some el \<Longrightarrow> payload st a = Some (le_list el, le_value el)"
  by (simp add: payload_def)

lemma links_of_Some: "elements st a = Some el \<Longrightarrow> links_of st a = Some (le_prev el, le_next el)"
  by (simp add: links_of_def)

lemma links_of_SomeD: "links_of st a = Some (p, n) \<Longrightarrow> \<exists>el. elements st a = Some el \<and> le_prev el = p \<and> le_next el = n"
  by (auto simp: links_of_def)

lemma vals_payload: "vals st a = Option.bind (payload st a) snd"
  by (cases "elements st a") (simp_all add: vals_def payload_def)

lemma list_invD:
  assumes "list_inv st R" and "R l = Some as"
  shows "cyc (links_of st) (l # as)" and "lens st l = Some (int (length as))" and "payload st l = Some (None, None)"
    and "a \<in> set as \<Longrightarrow> \<exists>v. payload st a = Some (Some l, Some v)"
  using assms unfolding list_inv_def by blast+

lemma list_inv_owner: "list_inv st R \<Longrightarrow> payload st a = Some (Some l, v) \<Longrightarrow> \<exists>as. R l = Some as \<and> a \<in> set as"
  unfolding list_inv_def by blast

lemma list_inv_disjoint:
  assumes "list_inv st R" and "R l = Some as" and "R l' = Some as'" and "l \<noteq> l'"
  shows "set (l # as) \<inter> set (l' # as') = {}"
  using list_invD(3,4) [OF assms(1,2)] list_invD(3,4) [OF assms(1,3)] assms(4) by force

text \<open>The invariant after a change of one list \<open>l\<close> around one element \<open>e\<close>.\<close>

lemma list_inv_update:
  assumes inv: "list_inv st R" and l: "R l = Some as"
    and lens: "lens st' = (lens st)(l \<mapsto> int (length as'))"
    and ring: "cyc (links_of st') (l # as')"
    and links: "\<And>x. x \<notin> set (l # as) \<Longrightarrow> x \<noteq> e \<Longrightarrow> links_of st' x = links_of st x"
    and payload: "payload st' = (payload st)(e \<mapsto> (if e \<in> set as' then Some l else None, Some v))"
    and same: "set as' - {e} = set as - {e}"
    and e: "e \<notin> dom R" "\<And>l' w. payload st e = Some (Some l', w) \<Longrightarrow> l' = l"
    and fresh: "\<And>a. fresh st' \<le> a \<Longrightarrow> elements st' a = None"
  shows "list_inv st' (R(l \<mapsto> as'))"
proof -
  have dom: "dom R = dom (lens st)" using inv by (simp add: list_inv_def)
  have own: "cyc (links_of st') (l' # bs) \<and> lens st' l' = Some (int (length bs)) \<and> payload st' l' = Some (None, None) \<and>
      (\<forall>a \<in> set bs. \<exists>v. payload st' a = Some (Some l', Some v))" if "(R(l \<mapsto> as')) l' = Some bs" for l' bs
  proof (cases "l' = l")
    case True
    then have "bs = as'" using that by simp
    moreover have "payload st' a = Some (Some l, Some v) \<or> a \<in> set as \<and> a \<noteq> e" if "a \<in> set as'" for a
      using that payload same by (cases "a = e") auto
    moreover have "l \<noteq> e" using e(1) l by blast
    ultimately show ?thesis using True lens ring payload list_invD [OF inv l] by fastforce
  next
    case False
    then have bs: "R l' = Some bs" using that by simp
    have "e \<notin> set bs" using list_invD(4) [OF inv bs, of e] e(2) False by blast
    moreover have "e \<noteq> l'" using e(1) bs by blast
    moreover have "x \<notin> set (l # as)" if "x \<in> set (l' # bs)" for x
      using list_inv_disjoint [OF inv l bs] False that by blast
    ultimately have "links_of st' x = links_of st x" if "x \<in> set (l' # bs)" for x using links that by auto
    then have "cyc (links_of st') (l' # bs)" using cyc_cong [of "l' # bs" "links_of st'"] list_invD(1) [OF inv bs] by blast
    then show ?thesis using False lens payload list_invD [OF inv bs] \<open>e \<notin> set bs\<close> \<open>e \<noteq> l'\<close> by auto
  qed
  have "\<exists>bs. (R(l \<mapsto> as')) l' = Some bs \<and> a \<in> set bs" if "payload st' a = Some (Some l', w)" for a l' w
  proof (cases "a = e")
    case True
    then show ?thesis using that payload by (auto split: if_splits)
  next
    case False
    then have "payload st a = Some (Some l', w)" using that payload by simp
    from list_inv_owner [OF inv this] obtain bs where "R l' = Some bs" "a \<in> set bs" by blast
    then show ?thesis using same l False by (cases "l' = l") auto
  qed
  moreover have "a \<in> dom (lens st')" if "payload st' a = Some (p, None)" for a p
  proof -
    have "payload st a = Some (p, None)" using that payload by (auto split: if_splits)
    then show ?thesis using inv lens by (auto simp: list_inv_def)
  qed
  ultimately show ?thesis using own dom lens fresh unfolding list_inv_def by (simp add: insert_absorb)
qed

subsection \<open>Pointer writes\<close>

lemma deref_Some [simp]: "deref st (Some a) = elements st a" "deref st None = None"
  by (simp_all add: deref_def)

lemma link_in_ok:
  assumes "links_of st at = Some (p, Some n)" and "links_of st n \<noteq> None" and "links_of st e \<noteq> None" and "e \<noteq> at" "e \<noteq> n"
  shows "\<exists>st'. link_in (Some e) (Some at) st = Some st' \<and> links_of st' = link_after e at n (links_of st) \<and>
    payload st' = payload st \<and> lens st' = lens st \<and> fresh st' = fresh st"
proof -
  obtain ae ne ee where els: "elements st at = Some ae" "le_next ae = Some n" "elements st n = Some ne" "elements st e = Some ee"
    using assms(1-3) by (auto simp: links_of_def)
  then show ?thesis using assms(4,5)
    by (auto simp: link_in_def store_next_def store_prev_def write_el_def link_after_def set_next_def set_prev_def
        links_of_def payload_def fun_eq_iff)
qed

lemma link_out_ok:
  assumes "links_of st e = Some (Some p, Some n)" and "links_of st p \<noteq> None" and "links_of st n \<noteq> None" and "e \<noteq> p" "e \<noteq> n"
  shows "\<exists>st'. link_out (Some e) st = Some st' \<and> links_of st' = link_over p n (links_of st) \<and>
    payload st' = payload st \<and> lens st' = lens st \<and> fresh st' = fresh st"
proof -
  obtain pe ne ee where els: "elements st e = Some ee" "le_prev ee = Some p" "le_next ee = Some n"
      "elements st p = Some pe" "elements st n = Some ne"
    using assms(1-3) by (auto simp: links_of_def)
  then show ?thesis using assms(4,5)
    by (auto simp: link_out_def store_next_def store_prev_def write_el_def link_over_def set_next_def set_prev_def
        links_of_def payload_def fun_eq_iff)
qed

subsection \<open>Rings in the heap\<close>

lemma store_list_ok:
  assumes "links_of st e \<noteq> None"
  shows "\<exists>st'. store_list (Some e) q st = Some st' \<and> links_of st' = links_of st \<and>
    payload st' = (payload st)(e \<mapsto> (q, snd (the (payload st e)))) \<and> lens st' = lens st \<and> fresh st' = fresh st \<and>
    dom (elements st') = dom (elements st)"
  using assms by (auto simp: links_of_def payload_def store_list_def write_el_def fun_eq_iff)

lemma add_len_ok:
  "lens st l = Some n \<Longrightarrow> add_len l d st = Some (st\<lparr>lens := (lens st)(l \<mapsto> n + d)\<rparr>)"
  by (simp add: add_len_def)

lemma links_of_lens [simp]: "links_of (st\<lparr>lens := x\<rparr>) = links_of st" "payload (st\<lparr>lens := x\<rparr>) = payload st"
  by (simp_all add: links_of_def payload_def fun_eq_iff)

lemma links_payload_dom: "links_of st a = None \<longleftrightarrow> elements st a = None" "payload st a = None \<longleftrightarrow> elements st a = None"
  by (simp_all add: links_of_def payload_def)

lemma ring_position:
  obtains ds where "l # bs = ds @ [last (l # bs)]" "last_of bs (Some l) = Some (last (l # bs))"
  using append_butlast_last_id [of "l # bs"] by (metis last_ConsL last_ConsR last_of_def list.distinct(1))

lemma cyc_allocated: "cyc L as \<Longrightarrow> a \<in> set as \<Longrightarrow> L a \<noteq> None"
  unfolding cyc_def using seg_allocated by blast

text \<open>Linking an element that is outside of a ring into it.\<close>

lemma link_in_ring:
  assumes ring: "cyc (links_of st) (l # bs @ cs)" and e: "e \<notin> set (l # bs @ cs)" "links_of st e \<noteq> None"
  shows "\<exists>st'. link_in (Some e) (last_of bs (Some l)) st = Some st' \<and> cyc (links_of st') (l # bs @ e # cs) \<and>
    (\<forall>x. x \<notin> set (l # bs @ cs) \<longrightarrow> x \<noteq> e \<longrightarrow> links_of st' x = links_of st x) \<and>
    payload st' = payload st \<and> lens st' = lens st \<and> fresh st' = fresh st"
proof -
  obtain ds where ds: "l # bs = ds @ [last (l # bs)]" "last_of bs (Some l) = Some (last (l # bs))" by (rule ring_position)
  let ?x = "last (l # bs)" and ?n = "hd (cs @ ds @ [last (l # bs)])"
  have all: "l # bs @ ys = ds @ ?x # ys" for ys using ds(1) by (metis append.assoc append_Cons append_Nil)
  have ring': "cyc (links_of st) (ds @ ?x # cs)" using ring unfolding all .
  have e': "e \<notin> set (ds @ ?x # cs)" using e(1) unfolding all .
  have n: "?n \<in> set (ds @ ?x # cs)" by (cases cs; cases ds) auto
  have "first_of (cs @ ds @ [?x]) None = Some ?n" by (cases cs; cases ds) auto
  then have at: "links_of st ?x = Some (last_of (?x # cs @ ds) None, Some ?n)" using cyc_lookup_mid [OF ring'] by simp
  have "links_of st ?n \<noteq> None" using cyc_allocated [OF ring' n] .
  moreover have "e \<noteq> ?x" using e' by simp
  moreover have "e \<noteq> ?n" using e' n by metis
  ultimately obtain st' where st': "link_in (Some e) (Some ?x) st = Some st'"
      "links_of st' = link_after e ?x ?n (links_of st)" "payload st' = payload st" "lens st' = lens st" "fresh st' = fresh st"
    using link_in_ok [OF at _ e(2)] by blast
  have "cyc (links_of st') (l # bs @ e # cs)" using cyc_link_after [OF ring' e'] st'(2) by (simp only: all)
  moreover have "links_of st' x = links_of st x" if "x \<notin> set (ds @ ?x # cs)" "x \<noteq> e" for x
  proof -
    have "x \<noteq> ?n" using that n by metis
    moreover have "x \<noteq> ?x" using that by simp
    ultimately show ?thesis using that(2) st'(2) by (simp add: link_after_other)
  qed
  ultimately show ?thesis using st' unfolding ds(2) all by blast
qed

lemma link_out_ring:
  assumes ring: "cyc (links_of st) (l # bs @ e # cs)"
  shows "\<exists>st'. link_out (Some e) st = Some st' \<and> cyc (links_of st') (l # bs @ cs) \<and>
    (\<forall>x. x \<notin> set (l # bs @ cs) \<longrightarrow> links_of st' x = links_of st x) \<and>
    payload st' = payload st \<and> lens st' = lens st \<and> fresh st' = fresh st"
proof -
  let ?ys = "cs @ l # bs"
  have ring': "cyc (links_of st) ((l # bs) @ e # cs)" using ring by simp
  have ends: "last_of (e # ?ys) None = Some (last ?ys)" "first_of (?ys @ [e]) None = Some (hd ?ys)"
    by (cases cs; simp add: last_of_def)+
  have "?ys \<noteq> []" by simp
  then have pn: "last ?ys \<in> set ?ys" "hd ?ys \<in> set ?ys" using last_in_set hd_in_set by blast+
  have "e \<notin> set ?ys" using ring by (auto simp: cyc_def)
  then have ne: "e \<noteq> last ?ys" "e \<noteq> hd ?ys" using pn by metis+
  have at: "links_of st e = Some (Some (last ?ys), Some (hd ?ys))" using cyc_lookup_mid [OF ring'] ends by simp
  have "x \<in> set ?ys \<Longrightarrow> links_of st x \<noteq> None" for x using cyc_allocated [OF ring', of x] by auto
  then have "links_of st (last ?ys) \<noteq> None" "links_of st (hd ?ys) \<noteq> None" using pn by blast+
  from link_out_ok [OF at this ne] obtain st' where st': "link_out (Some e) st = Some st'"
      "links_of st' = link_over (last ?ys) (hd ?ys) (links_of st)" "payload st' = payload st" "lens st' = lens st"
      "fresh st' = fresh st" by blast
  have "cyc (links_of st') (l # bs @ cs)" using cyc_link_over [OF ring'] st'(2) by simp
  moreover have "links_of st' x = links_of st x" if "x \<notin> set (l # bs @ cs)" for x
  proof -
    have "x \<notin> set ?ys" using that by auto
    then have "x \<noteq> last ?ys" "x \<noteq> hd ?ys" using pn by metis+
    then show ?thesis using st'(2) by (simp add: link_over_other)
  qed
  ultimately show ?thesis using st' by blast
qed

lemma alloc_ok:
  assumes "list_inv st R"
  shows "links_of (snd (alloc v st)) = (links_of st)(fresh st \<mapsto> (None, None))"
    and "payload (snd (alloc v st)) = (payload st)(fresh st \<mapsto> (None, v))"
    and "lens (snd (alloc v st)) = lens st" and "fresh (snd (alloc v st)) = fresh st + 1" and "fst (alloc v st) = fresh st"
    and "links_of st (fresh st) = None" and "payload st (fresh st) = None"
  using assms by (auto simp: alloc_def links_of_def payload_def list_inv_def fun_eq_iff)

lemma insertValue_ok:
  assumes inv: "list_inv st R" and l: "R l = Some (bs @ cs)"
  shows "\<exists>st'. insertValue l v (last_of bs (Some l)) st = Some (st', Some (fresh st)) \<and>
    list_inv st' (R(l \<mapsto> bs @ fresh st # cs)) \<and> fresh st' = fresh st + 1 \<and> vals st' = (vals st)(fresh st \<mapsto> v)"
proof -
  let ?f = "fresh st" and ?st = "snd (alloc (Some v) st)"
  note al = alloc_ok(1-5) [OF inv, of "Some v"] alloc_ok(6,7) [OF inv]
  have ring: "cyc (links_of st) (l # bs @ cs)" using list_invD(1) [OF inv l] .
  have f: "?f \<notin> set (l # bs @ cs)" using cyc_allocated [OF ring] al(6) by blast
  have "cyc (links_of ?st) (l # bs @ cs)" using ring f unfolding al(1) by simp
  from link_in_ring [OF this f] al(1) obtain st1 where st1: "link_in (Some ?f) (last_of bs (Some l)) ?st = Some st1"
      "cyc (links_of st1) (l # bs @ ?f # cs)"
      "\<And>x. x \<notin> set (l # bs @ cs) \<Longrightarrow> x \<noteq> ?f \<Longrightarrow> links_of st1 x = links_of ?st x"
      "payload st1 = payload ?st" "lens st1 = lens ?st" "fresh st1 = fresh ?st" by auto
  have "links_of st1 ?f \<noteq> None" using st1(4) al(2) by (metis fun_upd_same links_payload_dom option.distinct(1))
  from store_list_ok [OF this, of "Some l"] obtain st2 where st2: "store_list (Some ?f) (Some l) st1 = Some st2"
      "links_of st2 = links_of st1" "payload st2 = (payload st1)(?f \<mapsto> (Some l, snd (the (payload st1 ?f))))"
      "lens st2 = lens st1" "fresh st2 = fresh st1" by blast
  have len: "lens st2 l = Some (int (length (bs @ cs)))" using list_invD(2) [OF inv l] st1(5) st2(4) al(3) by simp
  define st' where "st' = st2\<lparr>lens := (lens st2)(l \<mapsto> int (length (bs @ cs)) + 1)\<rparr>"
  have pay: "payload st' = (payload st)(?f \<mapsto> (Some l, Some v))" using st2(3) st1(4) al(2) by (simp add: st'_def)
  have none: "elements st' a = None" if "fresh st' \<le> a" for a
  proof -
    have "?f < a" using that st1(6) st2(5) al(4) by (simp add: st'_def)
    then have "payload st' a = None" using inv by (simp add: pay list_inv_def links_payload_dom)
    then show ?thesis by (simp add: links_payload_dom)
  qed
  have "list_inv st' (R(l \<mapsto> bs @ ?f # cs))"
  proof (rule list_inv_update [OF inv l, where e = ?f and v = v])
    show "?f \<notin> dom R" using list_invD(3) [OF inv] al(7) by fastforce
  qed (use st1 st2 al pay none in \<open>auto simp: st'_def\<close>)
  moreover have "insertValue l v (last_of bs (Some l)) st = Some (st', Some ?f)"
    using st1(1) st2(1) al(5) len by (simp add: insertValue_def list_insert_def add_len_def st'_def case_prod_beta)
  ultimately show ?thesis using pay st1(6) st2(5) al(4)
    by (auto simp: vals_payload fun_eq_iff st'_def)
qed

subsection \<open>Removing, moving and creating\<close>

lemma detach_ok:
  assumes "links_of st e \<noteq> None"
  shows "\<exists>st'. (do { st \<leftarrow> store_next (Some e) None st; st \<leftarrow> store_prev (Some e) None st; store_list (Some e) None st }) = Some st' \<and>
    links_of st' = (links_of st)(e \<mapsto> (None, None)) \<and>
    payload st' = (payload st)(e \<mapsto> (None, snd (the (payload st e)))) \<and> lens st' = lens st \<and> fresh st' = fresh st"
  using assms by (auto simp: links_of_def payload_def store_list_def store_next_def store_prev_def write_el_def fun_eq_iff)

lemma list_remove_detach:
  "list_remove l e st = do {
     st \<leftarrow> link_out e st;
     st \<leftarrow> do { st \<leftarrow> store_next e None st; st \<leftarrow> store_prev e None st; store_list e None st };
     add_len l (-1) st
   }"
  by (simp add: list_remove_def)

lemma list_inv_none: "list_inv st R \<Longrightarrow> payload st' = (payload st)(e \<mapsto> x) \<Longrightarrow> payload st e \<noteq> None \<Longrightarrow> fresh st \<le> a \<Longrightarrow>
    elements st' a = None"
  unfolding list_inv_def by (metis fun_upd_other links_payload_dom(2))

lemma list_inv_not_root: "list_inv st R \<Longrightarrow> payload st e = Some (p, Some v) \<Longrightarrow> e \<notin> dom R"
  using list_invD(3) by fastforce

lemma list_remove_ok:
  assumes inv: "list_inv st R" and l: "R l = Some (bs @ e # cs)"
  shows "\<exists>st'. list_remove l (Some e) st = Some st' \<and> list_inv st' (R(l \<mapsto> bs @ cs)) \<and> fresh st' = fresh st \<and> vals st' = vals st"
proof -
  have ring: "cyc (links_of st) (l # bs @ e # cs)" using list_invD(1) [OF inv l] .
  then have e: "e \<notin> set (l # bs @ cs)" by (auto simp: cyc_def)
  obtain v where v: "payload st e = Some (Some l, Some v)" using list_invD(4) [OF inv l, of e] by auto
  from link_out_ring [OF ring] obtain st1 where st1: "link_out (Some e) st = Some st1" "cyc (links_of st1) (l # bs @ cs)"
      "\<And>x. x \<notin> set (l # bs @ cs) \<Longrightarrow> links_of st1 x = links_of st x"
      "payload st1 = payload st" "lens st1 = lens st" "fresh st1 = fresh st" by blast
  have "links_of st1 e \<noteq> None" using st1(4) v by (metis links_payload_dom option.distinct(1))
  from detach_ok [OF this] obtain st2 where st2:
      "do { st \<leftarrow> store_next (Some e) None st1; st \<leftarrow> store_prev (Some e) None st; store_list (Some e) None st } = Some st2"
      "links_of st2 = (links_of st1)(e \<mapsto> (None, None))"
      "payload st2 = (payload st1)(e \<mapsto> (None, snd (the (payload st1 e))))" "lens st2 = lens st1" "fresh st2 = fresh st1"
    by blast
  have len: "lens st2 l = Some (int (length (bs @ e # cs)))" using list_invD(2) [OF inv l] st1(5) st2(4) by simp
  define st' where "st' = st2\<lparr>lens := (lens st2)(l \<mapsto> int (length (bs @ e # cs)) - 1)\<rparr>"
  have pay: "payload st' = (payload st)(e \<mapsto> (None, Some v))" using st2(3) st1(4) v by (simp add: st'_def)
  have ring': "cyc (links_of st') (l # bs @ cs)" using st2(2) st1(2) e by (simp add: st'_def)
  have "list_inv st' (R(l \<mapsto> bs @ cs))"
  proof (rule list_inv_update [OF inv l _ ring', where e = e and v = v])
    show "e \<notin> dom R" by (rule list_inv_not_root [OF inv v])
    show "elements st' a = None" if "fresh st' \<le> a" for a
      using list_inv_none [OF inv pay] v that st1(6) st2(5) by (simp add: st'_def)
  qed (use st1 st2 pay e v in \<open>auto simp: st'_def\<close>)
  moreover have "list_remove l (Some e) st = Some st'"
    using st1(1) st2(1) len unfolding list_remove_detach st1(1) by (simp only: bind.bind_lunit st2(1)) (simp add: add_len_def st'_def)
  ultimately show ?thesis using pay st1(6) st2(5) v
    by (auto simp: vals_payload fun_eq_iff st'_def)
qed

lemma list_move_ok:
  assumes inv: "list_inv st R" and l: "R l = Some as" and as: "as = bs' @ e # cs'" and bs: "bs' @ cs' = bs @ cs"
  shows "\<exists>st'. list_move (Some e) (last_of bs (Some l)) st = Some st' \<and> list_inv st' (R(l \<mapsto> bs @ e # cs)) \<and>
    fresh st' = fresh st \<and> vals st' = vals st"
proof -
  have ring: "cyc (links_of st) (l # bs' @ e # cs')" using list_invD(1) [OF inv l] as by simp
  then have "e \<notin> set (l # bs' @ cs')" by (auto simp: cyc_def)
  then have e: "e \<notin> set (l # bs @ cs)" unfolding bs .
  obtain v where v: "payload st e = Some (Some l, Some v)" using list_invD(4) [OF inv l, of e] as by auto
  from link_out_ring [OF ring] obtain st1 where st1: "link_out (Some e) st = Some st1" "cyc (links_of st1) (l # bs @ cs)"
      "\<And>x. x \<notin> set (l # bs @ cs) \<Longrightarrow> links_of st1 x = links_of st x"
      "payload st1 = payload st" "lens st1 = lens st" "fresh st1 = fresh st" unfolding bs by blast
  have "links_of st1 e \<noteq> None" using st1(4) v by (metis links_payload_dom option.distinct(1))
  from link_in_ring [OF st1(2) e this] obtain st' where st': "link_in (Some e) (last_of bs (Some l)) st1 = Some st'"
      "cyc (links_of st') (l # bs @ e # cs)"
      "\<And>x. x \<notin> set (l # bs @ cs) \<Longrightarrow> x \<noteq> e \<Longrightarrow> links_of st' x = links_of st1 x"
      "payload st' = payload st1" "lens st' = lens st1" "fresh st' = fresh st1" by blast
  have pay: "payload st' = (payload st)(e \<mapsto> (Some l, Some v))" using st'(4) st1(4) v by (simp add: fun_upd_idem)
  have sets: "set as = insert e (set (bs @ cs))" "length as = length (bs @ e # cs)"
    using as arg_cong [OF bs, of set] arg_cong [OF bs, of length] by auto
  have "list_inv st' (R(l \<mapsto> bs @ e # cs))"
  proof (rule list_inv_update [OF inv l _ st'(2), where e = e and v = v])
    show "e \<notin> dom R" by (rule list_inv_not_root [OF inv v])
    show "elements st' a = None" if "fresh st' \<le> a" for a
      using list_inv_none [OF inv pay] v that st1(6) st'(6) by simp
    show "lens st' = (lens st)(l \<mapsto> int (length (bs @ e # cs)))"
      using list_invD(2) [OF inv l] st1(5) st'(5) sets(2) by (simp add: fun_upd_idem)
  qed (use st1 st' pay v sets in auto)
  moreover have "last_of bs (Some l) \<noteq> Some e" using e by (auto simp: last_of_def split: if_splits)
  then have "list_move (Some e) (last_of bs (Some l)) st = Some st'" using st1(1) st'(1) by (simp add: list_move_def)
  ultimately show ?thesis using pay st1(6) st'(6) v by (auto simp: vals_payload fun_eq_iff)
qed

lemma newList_ok:
  assumes inv: "list_inv st R"
  shows "\<exists>st'. newList st = Some (st', fresh st) \<and> list_inv st' (R(fresh st \<mapsto> [])) \<and> fresh st' = fresh st + 1 \<and> vals st' = vals st"
proof -
  let ?f = "fresh st"
  define st' where "st' = st\<lparr>elements := (elements st)(?f \<mapsto> \<lparr>le_next = Some ?f, le_prev = Some ?f, le_list = None, le_value = None\<rparr>),
    lens := (lens st)(?f \<mapsto> 0), fresh := ?f + 1\<rparr>"
  have none: "elements st ?f = None" using inv by (simp add: list_inv_def)
  have "newList st = Some (st', ?f)"
    by (simp add: newList_def alloc_def list_Init_def store_next_def store_prev_def write_el_def st'_def)
  moreover have links: "links_of st' = (links_of st)(?f \<mapsto> (Some ?f, Some ?f))"
    by (simp add: st'_def links_of_def fun_eq_iff)
  have pay: "payload st' = (payload st)(?f \<mapsto> (None, None))" by (simp add: st'_def payload_def fun_eq_iff)
  have out: "?f \<notin> set (l # as)" if "R l = Some as" for l as
    using cyc_allocated [OF list_invD(1) [OF inv that], of ?f] none by (auto simp: links_payload_dom)
  have root: "?f \<notin> dom R" using out by fastforce
  have "list_inv st' (R(?f \<mapsto> []))"
    unfolding list_inv_def
  proof (intro conjI allI impI)
    fix l as assume as: "(R(?f \<mapsto> [])) l = Some as"
    show "cyc (links_of st') (l # as)" "lens st' l = Some (int (length as))" "payload st' l = Some (None, None)"
      "\<forall>a\<in>set as. \<exists>v. payload st' a = Some (Some l, Some v)"
      using as list_invD [OF inv, of l as] out [of l as] links pay
      by (auto simp: cyc_def st'_def split: if_splits)
  next
    fix a l v assume "payload st' a = Some (Some l, v)"
    then show "\<exists>as. (R(?f \<mapsto> [])) l = Some as \<and> a \<in> set as"
      using list_inv_owner [OF inv, of a l v] pay root by (auto split: if_splits)
  qed (use inv pay in \<open>auto simp: list_inv_def st'_def split: if_splits\<close>)
  ultimately show ?thesis using none by (auto simp: st'_def vals_def fun_eq_iff)
qed

subsection \<open>Reading\<close>

lemma list_el:
  assumes inv: "list_inv st R" and l: "R l = Some (bs @ e # cs)"
  shows "\<exists>el v. elements st e = Some el \<and> le_list el = Some l \<and> le_value el = Some v \<and> vals st e = Some v \<and>
    le_prev el = last_of bs (Some l) \<and> le_next el = first_of cs (Some l)"
proof -
  obtain v where v: "payload st e = Some (Some l, Some v)" using list_invD(4) [OF inv l, of e] by auto
  have "cyc (links_of st) ((l # bs) @ e # cs)" using list_invD(1) [OF inv l] by simp
  from cyc_lookup_mid [OF this] have "links_of st e = Some (last_of bs (Some l), first_of cs (Some l))" by simp
  with v show ?thesis by (auto simp: payload_def links_of_def vals_def)
qed

lemma list_root:
  assumes inv: "list_inv st R" and l: "R l = Some as"
  shows "\<exists>el. elements st l = Some el \<and> le_prev el = last_of as (Some l) \<and> le_next el = first_of as (Some l)"
  using cyc_lookup [OF list_invD(1) [OF inv l]] by (auto simp: links_of_def)

lemma lazyInit_ok: "list_inv st R \<Longrightarrow> R l = Some as \<Longrightarrow> lazyInit l st = Some st"
  using list_root [of st R l as] by (cases as) (auto simp: lazyInit_def)

lemma list_Front_ok: "list_inv st R \<Longrightarrow> R l = Some as \<Longrightarrow> list_Front st l = Some (first_of as None)"
  using list_root [of st R l as] list_invD(2) [of st R l as] by (cases as) (auto simp: list_Front_def)

lemma list_Back_ok: "list_inv st R \<Longrightarrow> R l = Some as \<Longrightarrow> list_Back st l = Some (last_of as None)"
  using list_root [of st R l as] list_invD(2) [of st R l as] by (cases as rule: rev_cases) (auto simp: list_Back_def)

lemma list_distinct: "list_inv st R \<Longrightarrow> R l = Some as \<Longrightarrow> distinct (l # as)"
  using list_invD(1) by (auto simp: cyc_def)

lemma el_Next_ok:
  assumes "list_inv st R" and "R l = Some (bs @ e # cs)"
  shows "el_Next st (Some e) = Some (first_of cs None)"
  using list_el [OF assms] list_distinct [OF assms] by (cases cs) (auto simp: el_Next_def)

lemma el_Prev_ok:
  assumes "list_inv st R" and "R l = Some (bs @ e # cs)"
  shows "el_Prev st (Some e) = Some (last_of bs None)"
  using list_el [OF assms] list_distinct [OF assms] by (cases bs rule: rev_cases) (auto simp: el_Prev_def)

lemma list_PushFront_ok:
  assumes inv: "list_inv st R" and l: "R l = Some as"
  shows "\<exists>st'. list_PushFront l v st = Some (st', Some (fresh st)) \<and> list_inv st' (R(l \<mapsto> fresh st # as)) \<and>
    fresh st' = fresh st + 1 \<and> vals st' = (vals st)(fresh st \<mapsto> v)"
  using insertValue_ok [OF inv, of l "[]" as v] l lazyInit_ok [OF inv l] by (auto simp: list_PushFront_def)

lemma list_PushBack_ok:
  assumes inv: "list_inv st R" and l: "R l = Some as"
  shows "\<exists>st'. list_PushBack l v st = Some (st', Some (fresh st)) \<and> list_inv st' (R(l \<mapsto> as @ [fresh st])) \<and>
    fresh st' = fresh st + 1 \<and> vals st' = (vals st)(fresh st \<mapsto> v)"
  using insertValue_ok [OF inv, of l as "[]" v] l lazyInit_ok [OF inv l] list_root [OF inv l]
  by (auto simp: list_PushBack_def)

subsection \<open>Copying a list into another\<close>

lemma vals_extend:
  assumes "n \<notin> fst ` set zs"
  shows "V(n \<mapsto> v) ++ map_of zs = V ++ map_of ((n, v) # zs)"
proof -
  have "map_of zs n = None" using assms by (simp add: map_of_eq_None_iff)
  then show ?thesis by (auto simp: fun_eq_iff map_add_def split: option.splits)
qed

lemma list_not_fresh: "list_inv st R \<Longrightarrow> R l = Some as \<Longrightarrow> fresh st \<notin> set as"
  using list_invD(1) cyc_allocated alloc_ok(6) by (metis list.set_intros(2))

lemma push_back_loop_ok:
  "list_inv st R \<Longrightarrow> R l = Some as \<Longrightarrow> R other = Some (bs @ cs @ ds) \<Longrightarrow>
    \<exists>st'. push_back_loop l (length cs) (first_of cs x) st = Some st' \<and>
      list_inv st' (R(l \<mapsto> as @ [fresh st ..< fresh st + length cs])) \<and> fresh st' = fresh st + length cs \<and>
      vals st' = vals st ++ map_of (zip [fresh st ..< fresh st + length cs] (map (\<lambda>a. the (vals st a)) cs))"
proof (induction cs arbitrary: st R as bs ds x)
  case Nil
  then show ?case by (simp add: fun_upd_idem)
next
  case (Cons c cs)
  note inv = Cons.prems(1)
  let ?f = "fresh st" and ?ds = "if other = l then ds @ [fresh st] else ds"
  obtain el v where el: "elements st c = Some el" "le_value el = Some v" "vals st c = Some v"
    using list_el [OF inv, of other bs c "cs @ ds"] Cons.prems(3) by auto
  obtain root where root: "elements st l = Some root" "le_prev root = last_of as (Some l)"
    using list_root [OF inv Cons.prems(2)] by auto
  obtain st1 where st1: "insertValue l v (last_of as (Some l)) st = Some (st1, Some ?f)"
      "list_inv st1 (R(l \<mapsto> as @ [?f]))" "fresh st1 = ?f + 1" "vals st1 = (vals st)(?f \<mapsto> v)"
    using insertValue_ok [OF inv, of l as "[]" v] Cons.prems(2) by auto
  let ?R = "R(l \<mapsto> as @ [?f])"
  have R: "?R other = Some ((bs @ [c]) @ cs @ ?ds)" using Cons.prems by auto
  have nxt: "el_Next st1 (Some c) = Some (first_of cs (first_of ?ds None))"
    using el_Next_ok [OF st1(2), of other bs c "cs @ ?ds"] R by simp
  have prem: "?R l = Some (as @ [?f])" by simp
  from Cons.IH [OF st1(2) prem R, of "first_of ?ds None", unfolded st1(3)] obtain st' where st':
    "push_back_loop l (length cs) (first_of cs (first_of ?ds None)) st1 = Some st'"
    "list_inv st' (?R(l \<mapsto> (as @ [?f]) @ [?f + 1 ..< ?f + 1 + length cs]))" "fresh st' = ?f + 1 + length cs"
    "vals st' = vals st1 ++ map_of (zip [?f + 1 ..< ?f + 1 + length cs] (map (\<lambda>a. the (vals st1 a)) cs))"
    by blast
  have "?f \<notin> set cs" using list_not_fresh [OF inv Cons.prems(3)] by simp
  then have same: "map (\<lambda>a. the (vals st1 a)) cs = map (\<lambda>a. the (vals st a)) cs" using st1(4) by auto
  have up: "[?f ..< Suc (?f + n)] = ?f # [Suc ?f ..< Suc (?f + n)]" for n by (rule upt_conv_Cons) simp
  let ?zs = "zip [?f + 1 ..< ?f + 1 + length cs] (map (\<lambda>a. the (vals st a)) cs)"
  have "vals st' = vals st1 ++ map_of ?zs" unfolding st'(4) same ..
  also have "\<dots> = vals st ++ map_of ((?f, v) # ?zs)" unfolding st1(4) by (rule vals_extend) (auto dest!: set_zip_leftD)
  also have "(?f, v) # ?zs = zip [?f ..< ?f + length (c # cs)] (map (\<lambda>a. the (vals st a)) (c # cs))"
    using el(3) by (simp add: up del: upt_Suc)
  finally have vals: "vals st' = vals st ++ map_of (zip [?f ..< ?f + length (c # cs)] (map (\<lambda>a. the (vals st a)) (c # cs)))" .
  have run: "push_back_loop l (length (c # cs)) (first_of (c # cs) x) st = Some st'"
    using el root st1(1) nxt st'(1) by simp
  have inv': "list_inv st' (R(l \<mapsto> as @ [?f ..< ?f + length (c # cs)]))" using st'(2) by (simp add: up del: upt_Suc)
  show ?case by (intro exI [of _ st'] conjI run inv' vals) (simp add: st'(3))
qed

lemma push_front_loop_ok:
  "list_inv st R \<Longrightarrow> R l = Some as \<Longrightarrow> R other = Some (ds @ cs @ bs) \<Longrightarrow>
    \<exists>st'. push_front_loop l (length cs) (last_of cs x) st = Some st' \<and>
      list_inv st' (R(l \<mapsto> rev [fresh st ..< fresh st + length cs] @ as)) \<and> fresh st' = fresh st + length cs \<and>
      vals st' = vals st ++ map_of (zip [fresh st ..< fresh st + length cs] (map (\<lambda>a. the (vals st a)) (rev cs)))"
proof (induction cs arbitrary: st R as bs ds x rule: rev_induct)
  case Nil
  then show ?case by (simp add: fun_upd_idem)
next
  case (snoc c cs)
  note inv = snoc.prems(1)
  let ?f = "fresh st" and ?ds = "if other = l then fresh st # ds else ds"
  obtain el v where el: "elements st c = Some el" "le_value el = Some v" "vals st c = Some v"
    using list_el [OF inv, of other "ds @ cs" c bs] snoc.prems(3) by auto
  obtain st1 where st1: "insertValue l v (Some l) st = Some (st1, Some ?f)"
      "list_inv st1 (R(l \<mapsto> ?f # as))" "fresh st1 = ?f + 1" "vals st1 = (vals st)(?f \<mapsto> v)"
    using insertValue_ok [OF inv, of l "[]" as v] snoc.prems(2) by auto
  let ?R = "R(l \<mapsto> ?f # as)"
  have R: "?R other = Some (?ds @ cs @ [c] @ bs)" using snoc.prems by auto
  have prev: "el_Prev st1 (Some c) = Some (last_of cs (last_of ?ds None))"
    using el_Prev_ok [OF st1(2), of other "?ds @ cs" c bs] R by simp
  have prem: "?R l = Some (?f # as)" by simp
  from snoc.IH [OF st1(2) prem R, of "last_of ?ds None", unfolded st1(3)] obtain st' where st':
    "push_front_loop l (length cs) (last_of cs (last_of ?ds None)) st1 = Some st'"
    "list_inv st' (?R(l \<mapsto> rev [?f + 1 ..< ?f + 1 + length cs] @ ?f # as))" "fresh st' = ?f + 1 + length cs"
    "vals st' = vals st1 ++ map_of (zip [?f + 1 ..< ?f + 1 + length cs] (map (\<lambda>a. the (vals st1 a)) (rev cs)))"
    by blast
  have "?f \<notin> set cs" using list_not_fresh [OF inv snoc.prems(3)] by simp
  then have same: "map (\<lambda>a. the (vals st1 a)) (rev cs) = map (\<lambda>a. the (vals st a)) (rev cs)" using st1(4) by auto
  have up: "[?f ..< Suc (?f + n)] = ?f # [Suc ?f ..< Suc (?f + n)]" for n by (rule upt_conv_Cons) simp
  let ?zs = "zip [?f + 1 ..< ?f + 1 + length cs] (map (\<lambda>a. the (vals st a)) (rev cs))"
  have "vals st' = vals st1 ++ map_of ?zs" unfolding st'(4) same ..
  also have "\<dots> = vals st ++ map_of ((?f, v) # ?zs)" unfolding st1(4) by (rule vals_extend) (auto dest!: set_zip_leftD)
  also have "(?f, v) # ?zs = zip [?f ..< ?f + length (cs @ [c])] (map (\<lambda>a. the (vals st a)) (rev (cs @ [c])))"
    using el(3) by (simp add: up del: upt_Suc)
  finally have vals: "vals st' = vals st ++ map_of (zip [?f ..< ?f + length (cs @ [c])] (map (\<lambda>a. the (vals st a)) (rev (cs @ [c]))))" .
  have run: "push_front_loop l (length (cs @ [c])) (last_of (cs @ [c]) x) st = Some st'"
    using el st1(1) prev st'(1) by simp
  have inv': "list_inv st' (R(l \<mapsto> rev [?f ..< ?f + length (cs @ [c])] @ as))" using st'(2) by (simp add: up del: upt_Suc)
  show ?case by (intro exI [of _ st'] conjI run inv' vals) (simp add: st'(3))
qed

end
