(* ===== verification/List_Impl.thy ===== *)
theory List_Impl
  imports List_Heap Refinement Go_Locks
begin

text \<open>
  The lists of \<^verbatim>\<open>ds/list_impl.go\<close> as their clients see them: the plain list and the thread-safe list, every method a
  call, and finite sequences of named elements as the specification of both.
\<close>

section \<open>Definitions\<close>

subsection \<open>Calls\<close>

text \<open>The calls of a client: lists and elements are named by their addresses. A call that names something that is not
  a list, or not an element, is ill typed and not made.\<close>

datatype 'a list_op = LNew | LPushFront addr 'a | LPushBack addr 'a | LRemove addr addr
  | LInsertBefore addr 'a addr | LInsertAfter addr 'a addr | LMoveToFront addr addr | LMoveToBack addr addr
  | LMoveBefore addr addr addr | LMoveAfter addr addr addr | LPushBackList addr addr | LPushFrontList addr addr
  | LFront addr | LBack addr | LNext addr | LPrev addr | LElementValue addr | LLen addr | LValues addr

datatype 'a list_result = RDone | RHandle pointer | RValue 'a | RLen int | RValues "'a list" | RIllTyped

fun lists_of :: "'a list_op \<Rightarrow> addr list" where
  "lists_of (LPushFront l v) = [l]" | "lists_of (LPushBack l v) = [l]" | "lists_of (LRemove l e) = [l]"
| "lists_of (LInsertBefore l v e) = [l]" | "lists_of (LInsertAfter l v e) = [l]"
| "lists_of (LMoveToFront l e) = [l]" | "lists_of (LMoveToBack l e) = [l]"
| "lists_of (LMoveBefore l e p) = [l]" | "lists_of (LMoveAfter l e p) = [l]"
| "lists_of (LPushBackList l k) = [l, k]" | "lists_of (LPushFrontList l k) = [l, k]"
| "lists_of (LFront l) = [l]" | "lists_of (LBack l) = [l]" | "lists_of (LLen l) = [l]" | "lists_of (LValues l) = [l]"
| "lists_of _ = []"

fun elements_of :: "'a list_op \<Rightarrow> addr list" where
  "elements_of (LRemove l e) = [e]" | "elements_of (LInsertBefore l v e) = [e]" | "elements_of (LInsertAfter l v e) = [e]"
| "elements_of (LMoveToFront l e) = [e]" | "elements_of (LMoveToBack l e) = [e]"
| "elements_of (LMoveBefore l e p) = [e, p]" | "elements_of (LMoveAfter l e p) = [e, p]"
| "elements_of (LNext e) = [e]" | "elements_of (LPrev e) = [e]" | "elements_of (LElementValue e) = [e]"
| "elements_of _ = []"

definition well_typed :: "(addr \<Rightarrow> bool) \<Rightarrow> (addr \<Rightarrow> bool) \<Rightarrow> 'a list_op \<Rightarrow> bool" where
  "well_typed is_list is_element op \<longleftrightarrow> list_all is_list (lists_of op) \<and> list_all is_element (elements_of op)"

definition handle :: "('s \<times> pointer) option \<Rightarrow> ('s \<times> 'a list_result) option" where
  "handle = map_option (\<lambda>(st, p). (st, RHandle p))"

definition query :: "'s \<Rightarrow> ('b \<Rightarrow> 'a list_result) \<Rightarrow> 'b option \<Rightarrow> ('s \<times> 'a list_result) option" where
  "query st r = map_option (\<lambda>x. (st, r x))"

definition done_with :: "'s option \<Rightarrow> ('s \<times> 'a list_result) option" where
  "done_with = map_option (\<lambda>st. (st, RDone))"

fun list_call :: "'a \<Rightarrow> 'a list_store \<Rightarrow> 'a list_op \<Rightarrow> ('a list_store \<times> 'a list_result) option" where
  "list_call zero st LNew = map_option (\<lambda>(st, l). (st, RHandle (Some l))) (newList st)"
| "list_call zero st (LPushFront l v) = handle (list_PushFront l v st)"
| "list_call zero st (LPushBack l v) = handle (list_PushBack l v st)"
| "list_call zero st (LRemove l e) = map_option (\<lambda>(st, v). (st, RValue v)) (list_Remove l (Some e) st)"
| "list_call zero st (LInsertBefore l v e) = handle (list_InsertBefore l v (Some e) st)"
| "list_call zero st (LInsertAfter l v e) = handle (list_InsertAfter l v (Some e) st)"
| "list_call zero st (LMoveToFront l e) = done_with (list_MoveToFront l (Some e) st)"
| "list_call zero st (LMoveToBack l e) = done_with (list_MoveToBack l (Some e) st)"
| "list_call zero st (LMoveBefore l e p) = done_with (list_MoveBefore l (Some e) (Some p) st)"
| "list_call zero st (LMoveAfter l e p) = done_with (list_MoveAfter l (Some e) (Some p) st)"
| "list_call zero st (LPushBackList l k) = done_with (list_PushBackList l k st)"
| "list_call zero st (LPushFrontList l k) = done_with (list_PushFrontList l k st)"
| "list_call zero st (LFront l) = query st RHandle (list_Front st l)"
| "list_call zero st (LBack l) = query st RHandle (list_Back st l)"
| "list_call zero st (LNext e) = query st RHandle (el_Next st (Some e))"
| "list_call zero st (LPrev e) = query st RHandle (el_Prev st (Some e))"
| "list_call zero st (LElementValue e) = query st RValue (el_Value zero st (Some e))"
| "list_call zero st (LLen l) = query st RLen (list_Len st l)"
| "list_call zero st (LValues l) = query st RValues (list_Values zero st l)"

definition list_step :: "'a \<Rightarrow> 'a list_store \<Rightarrow> 'a list_op \<Rightarrow> ('a list_store \<times> 'a list_result) option" where
  "list_step zero st op =
     (if well_typed (\<lambda>l. lens st l \<noteq> None) (\<lambda>e. elements st e \<noteq> None \<and> lens st e = None) op then list_call zero st op
      else Some (st, RIllTyped))"

definition empty_store :: "'a list_store" where
  "empty_store = \<lparr>elements = Map.empty, lens = Map.empty, fresh = 0\<rparr>"

subsection \<open>Specification: finite sequences of elements\<close>

text \<open>The next free name, the elements of every list in order, and the value of every element, in a list or not.\<close>

record 'a lists_spec =
  next_name :: addr
  sequences :: "addr \<rightharpoonup> addr list"
  element_value :: "addr \<rightharpoonup> 'a"

definition before :: "addr \<Rightarrow> addr list \<Rightarrow> addr list" where
  "before e as = takeWhile (\<lambda>a. a \<noteq> e) as"

definition from_on :: "addr \<Rightarrow> addr list \<Rightarrow> addr list" where
  "from_on e as = dropWhile (\<lambda>a. a \<noteq> e) as"

definition spec_insert :: "addr \<Rightarrow> 'a \<Rightarrow> (addr list \<Rightarrow> addr list) \<Rightarrow> 'a lists_spec \<Rightarrow> 'a lists_spec \<times> 'a list_result" where
  "spec_insert l v f a =
     (\<lparr>next_name = next_name a + 1, sequences = (sequences a)(l \<mapsto> f (the (sequences a l))),
       element_value = (element_value a)(next_name a \<mapsto> v)\<rparr>, RHandle (Some (next_name a)))"

definition spec_change :: "addr \<Rightarrow> (addr list \<Rightarrow> addr list) \<Rightarrow> 'a lists_spec \<Rightarrow> 'a lists_spec" where
  "spec_change l f a = a\<lparr>sequences := (sequences a)(l \<mapsto> f (the (sequences a l)))\<rparr>"

definition spec_copy :: "addr \<Rightarrow> addr list \<Rightarrow> (addr list \<Rightarrow> addr list \<Rightarrow> addr list) \<Rightarrow> 'a lists_spec \<Rightarrow> 'a lists_spec" where
  "spec_copy l es f a =
     (let names = [next_name a ..< next_name a + length es] in
      \<lparr>next_name = next_name a + length es, sequences = (sequences a)(l \<mapsto> f names (the (sequences a l))),
        element_value = element_value a ++ map_of (zip names (map (\<lambda>e. the (element_value a e)) es))\<rparr>)"

text \<open>The sequence that an element is in: the lists are disjoint and their names are below the next free one.\<close>

definition sequence_of :: "addr \<Rightarrow> 'a lists_spec \<Rightarrow> addr list" where
  "sequence_of e a = concat (map (\<lambda>l. case sequences a l of None \<Rightarrow> [] | Some as \<Rightarrow> if e \<in> set as then as else [])
     [0 ..< next_name a])"

fun lists_call :: "'a lists_spec \<Rightarrow> 'a list_op \<Rightarrow> 'a lists_spec \<times> 'a list_result" where
  "lists_call a LNew =
     (a\<lparr>next_name := next_name a + 1, sequences := (sequences a)(next_name a \<mapsto> [])\<rparr>, RHandle (Some (next_name a)))"
| "lists_call a (LPushFront l v) = spec_insert l v (\<lambda>as. next_name a # as) a"
| "lists_call a (LPushBack l v) = spec_insert l v (\<lambda>as. as @ [next_name a]) a"
| "lists_call a (LRemove l e) = (spec_change l (remove1 e) a, RValue (the (element_value a e)))"
| "lists_call a (LInsertBefore l v e) =
     (if e \<in> set (the (sequences a l)) then spec_insert l v (\<lambda>as. before e as @ next_name a # from_on e as) a
      else (a, RHandle None))"
| "lists_call a (LInsertAfter l v e) =
     (if e \<in> set (the (sequences a l)) then spec_insert l v (\<lambda>as. before e as @ e # next_name a # tl (from_on e as)) a
      else (a, RHandle None))"
| "lists_call a (LMoveToFront l e) = (spec_change l (\<lambda>as. if e \<in> set as then e # remove1 e as else as) a, RDone)"
| "lists_call a (LMoveToBack l e) = (spec_change l (\<lambda>as. if e \<in> set as then remove1 e as @ [e] else as) a, RDone)"
| "lists_call a (LMoveBefore l e p) = (a, RDone)"
| "lists_call a (LMoveAfter l e p) = (a, RDone)"
| "lists_call a (LPushBackList l k) = (spec_copy l (the (sequences a k)) (\<lambda>names as. as @ names) a, RDone)"
| "lists_call a (LPushFrontList l k) = (spec_copy l (rev (the (sequences a k))) (\<lambda>names as. rev names @ as) a, RDone)"
| "lists_call a (LFront l) = (a, RHandle (first_of (the (sequences a l)) None))"
| "lists_call a (LBack l) = (a, RHandle (last_of (the (sequences a l)) None))"
| "lists_call a (LNext e) = (a, RHandle (first_of (tl (from_on e (sequence_of e a))) None))"
| "lists_call a (LPrev e) = (a, RHandle (last_of (before e (sequence_of e a)) None))"
| "lists_call a (LElementValue e) = (a, RValue (the (element_value a e)))"
| "lists_call a (LLen l) = (a, RLen (int (length (the (sequences a l)))))"
| "lists_call a (LValues l) = (a, RValues (map (\<lambda>e. the (element_value a e)) (the (sequences a l))))"

definition lists_step :: "'a lists_spec \<Rightarrow> 'a list_op \<Rightarrow> 'a lists_spec \<times> 'a list_result" where
  "lists_step a op =
     (if well_typed (\<lambda>l. sequences a l \<noteq> None) (\<lambda>e. element_value a e \<noteq> None) op then lists_call a op else (a, RIllTyped))"

definition no_lists :: "'a lists_spec" where
  "no_lists = \<lparr>next_name = 0, sequences = Map.empty, element_value = Map.empty\<rparr>"

definition list_rel :: "'a list_store \<Rightarrow> 'a lists_spec \<Rightarrow> bool" where
  "list_rel st a \<longleftrightarrow> list_inv st (sequences a) \<and> fresh st = next_name a \<and> vals st = element_value a"

fun until_error :: "('w \<Rightarrow> 'a \<Rightarrow> 'w \<times> 'e option) \<Rightarrow> 'a list \<Rightarrow> 'w \<Rightarrow> 'w \<times> 'e option" where
  "until_error callback [] w = (w, None)"
| "until_error callback (v # vs) w =
     (let (w, err) = callback w v in if err \<noteq> None then (w, err) else until_error callback vs w)"

subsection \<open>The thread-safe list\<close>

text \<open>The thread-safe list takes the writer lock for the methods that change a list and the reader lock for the
  others; the methods of an element take no lock. While it holds its own writer lock, \<^verbatim>\<open>PushBackList\<close> calls
  \<^verbatim>\<open>Len\<close> and \<^verbatim>\<open>Front\<close> of the other list, which take the lock of that list.\<close>

record 'a ts_lists =
  ts_store :: "'a list_store"
  ts_locks :: "addr \<Rightarrow> RWMutex"

definition on_lock ::
  "(RWMutex \<Rightarrow> ('a list_store \<times> 'b) option \<Rightarrow> (RWMutex \<times> 'a list_store \<times> 'b) option) \<Rightarrow> addr
     \<Rightarrow> ('a list_store \<Rightarrow> ('a list_store \<times> 'b) option) \<Rightarrow> 'a ts_lists \<Rightarrow> ('a ts_lists \<times> 'b) option" where
  "on_lock guard l body t = do {
     (m, st, r) \<leftarrow> guard (ts_locks t l) (body (ts_store t));
     Some (\<lparr>ts_store = st, ts_locks = (ts_locks t)(l := m)\<rparr>, r)
   }"

definition ts_PushBackList :: "addr \<Rightarrow> addr \<Rightarrow> 'a ts_lists \<Rightarrow> 'a ts_lists option" where
  "ts_PushBackList l other t = do {
     m \<leftarrow> Lock (ts_locks t l);
     let t = t\<lparr>ts_locks := (ts_locks t)(l := m)\<rparr>;
     st \<leftarrow> lazyInit l (ts_store t);
     (m, n) \<leftarrow> with_RLock (ts_locks t other) (list_Len st other);
     (m, e) \<leftarrow> with_RLock m (list_Front st other);
     st \<leftarrow> push_back_loop l (nat n) e st;
     m \<leftarrow> Unlock (ts_locks t l);
     Some \<lparr>ts_store = st, ts_locks = (ts_locks t)(l := m)\<rparr>
   }"

definition ts_PushFrontList :: "addr \<Rightarrow> addr \<Rightarrow> 'a ts_lists \<Rightarrow> 'a ts_lists option" where
  "ts_PushFrontList l other t = do {
     m \<leftarrow> Lock (ts_locks t l);
     let t = t\<lparr>ts_locks := (ts_locks t)(l := m)\<rparr>;
     st \<leftarrow> lazyInit l (ts_store t);
     (m, n) \<leftarrow> with_RLock (ts_locks t other) (list_Len st other);
     (m, e) \<leftarrow> with_RLock m (list_Back st other);
     st \<leftarrow> push_front_loop l (nat n) e st;
     m \<leftarrow> Unlock (ts_locks t l);
     Some \<lparr>ts_store = st, ts_locks = (ts_locks t)(l := m)\<rparr>
   }"

fun threadSafe_call :: "'a \<Rightarrow> 'a ts_lists \<Rightarrow> 'a list_op \<Rightarrow> ('a ts_lists \<times> 'a list_result) option" where
  "threadSafe_call zero t (LPushBackList l k) = done_with (ts_PushBackList l k t)"
| "threadSafe_call zero t (LPushFrontList l k) = done_with (ts_PushFrontList l k t)"
| "threadSafe_call zero t (LFront l) = on_lock with_RLock l (\<lambda>st. list_call zero st (LFront l)) t"
| "threadSafe_call zero t (LBack l) = on_lock with_RLock l (\<lambda>st. list_call zero st (LBack l)) t"
| "threadSafe_call zero t (LLen l) = on_lock with_RLock l (\<lambda>st. list_call zero st (LLen l)) t"
| "threadSafe_call zero t (LValues l) = on_lock with_RLock l (\<lambda>st. list_call zero st (LValues l)) t"
| "threadSafe_call zero t op =
     (case lists_of op of
        l # _ \<Rightarrow> on_lock with_Lock l (\<lambda>st. list_call zero st op) t
      | [] \<Rightarrow> map_option (\<lambda>(st, r). (t\<lparr>ts_store := st\<rparr>, r)) (list_call zero (ts_store t) op))"

definition threadSafe_step :: "'a \<Rightarrow> 'a ts_lists \<Rightarrow> 'a list_op \<Rightarrow> ('a ts_lists \<times> 'a list_result) option" where
  "threadSafe_step zero t op =
     (if well_typed (\<lambda>l. lens (ts_store t) l \<noteq> None) (\<lambda>e. elements (ts_store t) e \<noteq> None \<and> lens (ts_store t) e = None) op
      then threadSafe_call zero t op else Some (t, RIllTyped))"

definition empty_ts :: "'a ts_lists" where
  "empty_ts = \<lparr>ts_store = empty_store, ts_locks = (\<lambda>_. free_lock)\<rparr>"

fun self_copy :: "'a list_op \<Rightarrow> bool" where
  "self_copy (LPushBackList l k) \<longleftrightarrow> l = k"
| "self_copy (LPushFrontList l k) \<longleftrightarrow> l = k"
| "self_copy _ \<longleftrightarrow> False"

section \<open>Lemmas\<close>

subsection \<open>Elements of the specification and of the heap\<close>

lemma split_at:
  assumes "e \<in> set as" and "distinct as"
  obtains bs cs where "as = bs @ e # cs" "before e as = bs" "from_on e as = e # cs" "remove1 e as = bs @ cs"
proof -
  obtain bs cs where as: "as = bs @ e # cs" "e \<notin> set bs" using assms(1) by (meson split_list_first)
  then have "before e as = bs" "from_on e as = e # cs" "remove1 e as = bs @ cs"
    by (auto simp: before_def from_on_def takeWhile_append dropWhile_append remove1_append)
  with as that show thesis by blast
qed

lemma concat_single:
  "distinct xs \<Longrightarrow> (\<And>x. x \<noteq> l \<Longrightarrow> f x = []) \<Longrightarrow> concat (map f xs) = (if l \<in> set xs then f l else [])"
proof (induction xs)
  case (Cons a xs)
  then show ?case by (cases "a = l") auto
qed simp

lemma sequence_of_in:
  assumes rel: "list_rel st a" and l: "sequences a l = Some as" and e: "e \<in> set as"
  shows "sequence_of e a = as"
proof -
  have inv: "list_inv st (sequences a)" and fr: "fresh st = next_name a" using rel by (simp_all add: list_rel_def)
  have "l < next_name a"
    using list_root [OF inv l] inv fr unfolding list_inv_def by (metis leI option.distinct(1))
  moreover have "e \<notin> set bs" if "sequences a k = Some bs" "k \<noteq> l" for k bs
    using list_inv_disjoint [OF inv l that(1)] that(2) e by auto
  ultimately show ?thesis unfolding sequence_of_def
    by (subst concat_single [where l = l]) (auto simp: l e split: option.splits)
qed

lemma sequence_of_out: "(\<And>l as. sequences a l = Some as \<Longrightarrow> e \<notin> set as) \<Longrightarrow> sequence_of e a = []"
  by (auto simp: sequence_of_def split: option.splits)

text \<open>An element is in the list it names, or in none.\<close>

lemma element_cases:
  assumes rel: "list_rel st a" and e: "element_value a e \<noteq> None"
  obtains (listed) l as bs cs el v where "sequences a l = Some as" "as = bs @ e # cs" "elements st e = Some el" "le_list el = Some l"
      "le_value el = Some v" "element_value a e = Some v" "le_prev el = last_of bs (Some l)" "le_next el = first_of cs (Some l)"
      "sequence_of e a = as" "before e as = bs" "from_on e as = e # cs" "remove1 e as = bs @ cs"
      "\<And>k ks. sequences a k = Some ks \<Longrightarrow> e \<in> set ks \<Longrightarrow> k = l"
  | (loose) el v where "elements st e = Some el" "le_list el = None" "le_value el = Some v" "element_value a e = Some v"
      "sequence_of e a = []" "\<And>k ks. sequences a k = Some ks \<Longrightarrow> e \<notin> set ks"
proof -
  have inv: "list_inv st (sequences a)" and vals: "vals st = element_value a" using rel by (simp_all add: list_rel_def)
  obtain el v where el: "elements st e = Some el" "le_value el = Some v" using e vals [symmetric] by (auto simp: vals_def bind_eq_Some_conv)
  have ev: "element_value a e = Some v" using el vals [symmetric] by (simp add: vals_def)
  have pay: "payload st e = Some (le_list el, Some v)" using el by (simp add: payload_def)
  show thesis
  proof (cases "le_list el")
    case None
    then have "e \<notin> set ks" if "sequences a k = Some ks" for k ks using list_invD(4) [OF inv that, of e] pay by auto
    then show thesis using loose el None ev sequence_of_out by blast
  next
    case (Some l)
    then obtain as where as: "sequences a l = Some as" "e \<in> set as" using list_inv_owner [OF inv] pay by metis
    then have "distinct as" using list_distinct [OF inv] by simp
    from split_at [OF as(2) this] obtain bs cs where bs: "as = bs @ e # cs" "before e as = bs" "from_on e as = e # cs"
        "remove1 e as = bs @ cs" .
    have "k = l" if "sequences a k = Some ks" "e \<in> set ks" for k ks
      using list_invD(4) [OF inv that] pay Some by simp
    moreover have "le_prev el = last_of bs (Some l)" "le_next el = first_of cs (Some l)"
      using list_el [OF inv, of l bs e cs] as(1) bs(1) el by auto
    ultimately show thesis using listed [OF as(1) bs(1) el(1) Some el(2) ev _ _ sequence_of_in [OF rel as] bs(2-4)] by blast
  qed
qed

lemma list_walk_nil [simp]: "list_walk dir zero st callback None w = Some (w, None)"
  by (subst list_walk.simps) simp

lemma list_walk_el:
  "elements st e = Some el \<Longrightarrow> le_value el = Some v \<Longrightarrow> dir st (Some e) = Some p \<Longrightarrow>
    list_walk dir zero st callback (Some e) w =
      (let (w, err) = callback w v in if err \<noteq> None then Some (w, err) else list_walk dir zero st callback p w)"
  by (subst list_walk.simps) (simp add: el_Value_def Let_def case_prod_beta)

lemma list_walk_forward:
  assumes inv: "list_inv st R" and l: "R l = Some as"
  shows "as = bs @ cs \<Longrightarrow> list_walk el_Next zero st callback (first_of cs None) w =
    Some (until_error callback (map (\<lambda>e. the (vals st e)) cs) w)"
proof (induction cs arbitrary: bs w)
  case (Cons e cs)
  then have R: "R l = Some (bs @ e # cs)" using l by simp
  obtain el v where el: "elements st e = Some el" "le_value el = Some v" "vals st e = Some v" using list_el [OF inv R] by auto
  have IH: "list_walk el_Next zero st callback (first_of cs None) w = Some (until_error callback (map (\<lambda>e. the (vals st e)) cs) w)"
    for w using Cons.IH [of "bs @ [e]"] Cons.prems by simp
  show ?case using el IH
    by (simp add: list_walk_el [where dir = el_Next, OF el(1,2) el_Next_ok [OF inv R]] Let_def case_prod_beta)
qed simp

lemma list_walk_backward:
  assumes inv: "list_inv st R" and l: "R l = Some as"
  shows "as = bs @ cs \<Longrightarrow> list_walk el_Prev zero st callback (last_of bs None) w =
    Some (until_error callback (map (\<lambda>e. the (vals st e)) (rev bs)) w)"
proof (induction bs arbitrary: cs w rule: rev_induct)
  case (snoc e bs)
  then have R: "R l = Some (bs @ e # cs)" using l by simp
  obtain el v where el: "elements st e = Some el" "le_value el = Some v" "vals st e = Some v" using list_el [OF inv R] by auto
  have IH: "list_walk el_Prev zero st callback (last_of bs None) w = Some (until_error callback (map (\<lambda>e. the (vals st e)) (rev bs)) w)"
    for w using snoc.IH [of "e # cs"] snoc.prems by simp
  show ?case using el IH
    by (simp add: list_walk_el [where dir = el_Prev, OF el(1,2) el_Prev_ok [OF inv R]] Let_def case_prod_beta)
qed simp

lemma until_error_fold: "until_error (no_error f) vs w = (fold (\<lambda>v w. f w v) vs w, None)"
  by (induction vs arbitrary: w) (simp_all add: no_error_def)

lemma collect_fold: "fold (\<lambda>v w. w @ [v]) vs w = w @ vs"
  by (induction vs arbitrary: w) simp_all

lemma list_Values_ok:
  assumes "list_inv st R" and "R l = Some as"
  shows "list_Values zero st l = Some (map (\<lambda>e. the (vals st e)) as)"
  using list_walk_forward [OF assms, of "[]" as zero "no_error (\<lambda>values v. values @ [v])" "[]"] list_Front_ok [OF assms]
  by (simp add: list_Values_def list_Range_def until_error_fold collect_fold)

subsection \<open>Every call simulates the specification\<close>

lemma list_relI: "list_inv st (sequences a) \<Longrightarrow> fresh st = next_name a \<Longrightarrow> vals st = element_value a \<Longrightarrow> list_rel st a"
  by (simp add: list_rel_def)

lemma list_relD:
  assumes "list_rel st a"
  shows "list_inv st (sequences a)" "fresh st = next_name a" "vals st = element_value a"
  using assms by (simp_all add: list_rel_def)

lemma spec_insert_ok:
  assumes "\<exists>st'. f = Some (st', Some (next_name a)) \<and> list_inv st' ((sequences a)(l \<mapsto> g as)) \<and>
      fresh st' = next_name a + 1 \<and> vals st' = (element_value a)(next_name a \<mapsto> v)" and "sequences a l = Some as"
  shows "\<exists>st'. handle f = Some (st', snd (spec_insert l v g a)) \<and> list_rel st' (fst (spec_insert l v g a))"
  using assms by (auto simp: handle_def spec_insert_def list_rel_def)

lemma list_call_insert:
  assumes rel: "list_rel st a" and l: "sequences a l = Some as"
  shows "\<exists>st'. handle (list_PushFront l v st) = Some (st', snd (lists_call a (LPushFront l v))) \<and>
      list_rel st' (fst (lists_call a (LPushFront l v)))"
    and "\<exists>st'. handle (list_PushBack l v st) = Some (st', snd (lists_call a (LPushBack l v))) \<and>
      list_rel st' (fst (lists_call a (LPushBack l v)))"
  using list_PushFront_ok [OF list_relD(1) [OF rel] l, of v] list_PushBack_ok [OF list_relD(1) [OF rel] l, of v]
    list_relD(2,3) [OF rel] l
  by (auto intro!: spec_insert_ok)

lemma list_call_insert_at:
  assumes rel: "list_rel st a" and l: "sequences a l = Some as" and e: "element_value a e \<noteq> None"
  shows "\<exists>st'. handle (list_InsertBefore l v (Some e) st) = Some (st', snd (lists_call a (LInsertBefore l v e))) \<and>
      list_rel st' (fst (lists_call a (LInsertBefore l v e)))"
    and "\<exists>st'. handle (list_InsertAfter l v (Some e) st) = Some (st', snd (lists_call a (LInsertAfter l v e))) \<and>
      list_rel st' (fst (lists_call a (LInsertAfter l v e)))"
proof -
  note D = list_relD [OF rel]
  have both: "(\<exists>st'. handle (list_InsertBefore l v (Some e) st) = Some (st', snd (lists_call a (LInsertBefore l v e))) \<and>
      list_rel st' (fst (lists_call a (LInsertBefore l v e)))) \<and>
    (\<exists>st'. handle (list_InsertAfter l v (Some e) st) = Some (st', snd (lists_call a (LInsertAfter l v e))) \<and>
      list_rel st' (fst (lists_call a (LInsertAfter l v e))))"
  proof (cases rule: element_cases [OF rel e])
    case (1 k ks bs cs el w)
    show ?thesis
    proof (cases "k = l")
      case True
      then have as: "as = bs @ e # cs" "ks = as" using 1(1-12) l by auto
      have "\<exists>st'. list_InsertBefore l v (Some e) st = Some (st', Some (next_name a)) \<and>
          list_inv st' ((sequences a)(l \<mapsto> before e as @ next_name a # from_on e as)) \<and>
          fresh st' = next_name a + 1 \<and> vals st' = (element_value a)(next_name a \<mapsto> v)"
        using insertValue_ok [OF D(1), of l bs "e # cs" v] l 1(1-12) as True D(2,3) by (simp add: list_InsertBefore_def)
      moreover have "\<exists>st'. list_InsertAfter l v (Some e) st = Some (st', Some (next_name a)) \<and>
          list_inv st' ((sequences a)(l \<mapsto> before e as @ e # next_name a # tl (from_on e as))) \<and>
          fresh st' = next_name a + 1 \<and> vals st' = (element_value a)(next_name a \<mapsto> v)"
        using insertValue_ok [OF D(1), of l "bs @ [e]" cs v] l 1(1-12) as True D(2,3) by (simp add: list_InsertAfter_def)
      ultimately show ?thesis using l as by (auto intro!: spec_insert_ok)
    next
      case False
      then have "e \<notin> set as" using 1(13) l by blast
      then show ?thesis using 1(1-12) False l rel by (simp add: list_InsertBefore_def list_InsertAfter_def handle_def)
    qed
  next
    case (2 el w)
    then show ?thesis using l rel by (simp add: list_InsertBefore_def list_InsertAfter_def handle_def)
  qed
  then show "\<exists>st'. handle (list_InsertBefore l v (Some e) st) = Some (st', snd (lists_call a (LInsertBefore l v e))) \<and>
      list_rel st' (fst (lists_call a (LInsertBefore l v e)))"
    and "\<exists>st'. handle (list_InsertAfter l v (Some e) st) = Some (st', snd (lists_call a (LInsertAfter l v e))) \<and>
      list_rel st' (fst (lists_call a (LInsertAfter l v e)))" by blast+
qed

lemma list_call_remove:
  assumes rel: "list_rel st a" and l: "sequences a l = Some as" and e: "element_value a e \<noteq> None"
  shows "\<exists>st'. list_Remove l (Some e) st = Some (st', the (element_value a e)) \<and> list_rel st' (spec_change l (remove1 e) a)"
proof -
  note D = list_relD [OF rel]
  show ?thesis
  proof (cases rule: element_cases [OF rel e])
    case (1 k ks bs cs el w)
    show ?thesis
    proof (cases "k = l")
      case True
      then have as: "as = bs @ e # cs" "remove1 e as = bs @ cs" using 1(1-12) l by auto
      obtain st' where st': "list_remove l (Some e) st = Some st'" "list_inv st' ((sequences a)(l \<mapsto> bs @ cs))"
          "fresh st' = fresh st" "vals st' = vals st"
        using list_remove_ok [OF D(1), of l bs e cs] l as by blast
      have "vals st' e = Some w" using st'(4) D(3) 1(6) by simp
      then obtain el' where "elements st' e = Some el'" "le_value el' = Some w" by (auto simp: vals_def bind_eq_Some_conv)
      then have "list_Remove l (Some e) st = Some (st', the (element_value a e))"
        using st'(1) 1(1-12) True by (simp add: list_Remove_def)
      moreover have "list_rel st' (spec_change l (remove1 e) a)"
        using st' D l as by (intro list_relI) (simp_all add: spec_change_def)
      ultimately show ?thesis by blast
    next
      case False
      then have "remove1 e as = as" using 1(13) l by (metis remove1_idem)
      then show ?thesis using 1(1-12) False l rel by (simp add: list_Remove_def spec_change_def fun_upd_idem)
    qed
  next
    case (2 el w)
    then have "remove1 e as = as" using l by (metis remove1_idem)
    then show ?thesis using 2 l rel by (simp add: list_Remove_def spec_change_def fun_upd_idem)
  qed
qed

lemma spec_change_id: "sequences a l = Some as \<Longrightarrow> f as = as \<Longrightarrow> spec_change l f a = a"
  by (simp add: spec_change_def fun_upd_idem)

lemma spec_change_ok:
  assumes "list_rel st a" and "sequences a l = Some as"
    and "\<exists>st'. m = Some st' \<and> list_inv st' ((sequences a)(l \<mapsto> f as)) \<and> fresh st' = fresh st \<and> vals st' = vals st"
  shows "\<exists>st'. m = Some st' \<and> list_rel st' (spec_change l f a)"
  using assms by (auto simp: list_rel_def spec_change_def)

lemma list_call_move_ends:
  assumes rel: "list_rel st a" and l: "sequences a l = Some as" and e: "element_value a e \<noteq> None"
  shows "(\<exists>st'. list_MoveToFront l (Some e) st = Some st' \<and>
      list_rel st' (spec_change l (\<lambda>as. if e \<in> set as then e # remove1 e as else as) a)) \<and>
    (\<exists>st'. list_MoveToBack l (Some e) st = Some st' \<and>
      list_rel st' (spec_change l (\<lambda>as. if e \<in> set as then remove1 e as @ [e] else as) a))"
    (is "?front \<and> ?rear")
proof -
  note D = list_relD [OF rel]
  obtain root where root: "elements st l = Some root" "le_prev root = last_of as (Some l)" "le_next root = first_of as (Some l)"
    using list_root [OF D(1) l] by blast
  show ?thesis
  proof (cases rule: element_cases [OF rel e])
    case (1 k ks bs cs el w)
    show ?thesis
    proof (cases "k = l")
      case True
      then have as: "as = bs @ e # cs" "remove1 e as = bs @ cs" "e \<in> set as" using 1(1-12) l by auto
      have dist: "e \<notin> set bs" "e \<notin> set cs" "l \<noteq> e" using list_distinct [OF D(1) l] as(1) by auto
      have ?front
      proof (cases bs)
        case Nil
        then show ?thesis using rel root as 1(1-12) True l
          by (simp add: list_MoveToFront_def spec_change_id [where as = as])
      next
        case (Cons b bs')
        then have "list_MoveToFront l (Some e) st = list_move (Some e) (last_of [] (Some l)) st"
          using root 1(1-12) True as dist by (auto simp: list_MoveToFront_def)
        then show ?thesis using list_move_ok [OF D(1) l as(1), of "[]" "bs @ cs"] as
          by (intro spec_change_ok [OF rel l]) simp
      qed
      moreover have ?rear
      proof (cases cs rule: rev_cases)
        case Nil
        then show ?thesis using rel root as 1(1-12) True l
          by (simp add: list_MoveToBack_def spec_change_id [where as = as])
      next
        case (snoc cs' c)
        then have "list_MoveToBack l (Some e) st = list_move (Some e) (last_of (bs @ cs) (Some l)) st"
          using root 1(1-12) True as dist by (auto simp: list_MoveToBack_def)
        then show ?thesis using list_move_ok [OF D(1) l as(1), of "bs @ cs" "[]"] as
          by (intro spec_change_ok [OF rel l]) simp
      qed
      ultimately show ?thesis ..
    next
      case False
      then have "e \<notin> set as" using 1(13) l by blast
      then show ?thesis using 1(1-12) False root l rel
        by (simp add: list_MoveToFront_def list_MoveToBack_def spec_change_id [where as = as])
    qed
  next
    case (2 el w)
    then show ?thesis using root l rel
      by (simp add: list_MoveToFront_def list_MoveToBack_def spec_change_id [where as = as])
  qed
qed

lemma list_call_move_beside:
  assumes rel: "list_rel st a" and l: "sequences a l = Some as" and e: "element_value a e \<noteq> None"
  shows "(\<exists>st'. list_MoveBefore l (Some e) p st = Some st' \<and> list_rel st' a) \<and> list_MoveAfter l (Some e) p st = Some st"
proof -
  note D = list_relD [OF rel]
  show ?thesis
  proof (cases rule: element_cases [OF rel e])
    case (1 k ks bs cs el w)
    show ?thesis
    proof (cases "k = l \<and> p \<noteq> Some e")
      case True
      then have as: "as = bs @ e # cs" using 1(1-12) l by auto
      have "\<exists>st'. list_move (Some e) (last_of bs (Some l)) st = Some st' \<and> list_rel st' (spec_change l (\<lambda>as. as) a)"
        using list_move_ok [OF D(1) l as, of bs cs] l as by (intro spec_change_ok [OF rel l]) simp
      then show ?thesis using 1(1-12) True l
        by (auto simp: list_MoveBefore_def list_MoveAfter_def list_move_def [of "Some e" "Some e"] spec_change_id)
    next
      case False
      then show ?thesis using 1(1-12) rel by (auto simp: list_MoveBefore_def list_MoveAfter_def)
    qed
  next
    case (2 el w)
    then show ?thesis using rel by (simp add: list_MoveBefore_def list_MoveAfter_def)
  qed
qed

lemma list_call_copy:
  assumes rel: "list_rel st a" and l: "sequences a l = Some as" and k: "sequences a k = Some ks"
  shows "(\<exists>st'. list_PushBackList l k st = Some st' \<and> list_rel st' (spec_copy l ks (\<lambda>names as. as @ names) a)) \<and>
    (\<exists>st'. list_PushFrontList l k st = Some st' \<and> list_rel st' (spec_copy l (rev ks) (\<lambda>names as. rev names @ as) a))"
proof -
  note D = list_relD [OF rel]
  have n: "list_Len st k = Some (int (length ks))" using list_invD(2) [OF D(1) k] by (simp add: list_Len_def)
  note facts = n lazyInit_ok [OF D(1) l] list_Front_ok [OF D(1) k] list_Back_ok [OF D(1) k]
  show ?thesis
    using push_back_loop_ok [OF D(1) l, of k "[]" ks "[]" None] push_front_loop_ok [OF D(1) l, of k "[]" ks "[]" None] k facts
    by (auto simp: list_PushBackList_def list_PushFrontList_def list_rel_def spec_copy_def Let_def D(2,3) l)
qed

lemma list_call_element:
  assumes rel: "list_rel st a" and e: "element_value a e \<noteq> None"
  shows "el_Next st (Some e) = Some (first_of (tl (from_on e (sequence_of e a))) None)"
    and "el_Prev st (Some e) = Some (last_of (before e (sequence_of e a)) None)"
    and "el_Value zero st (Some e) = Some (the (element_value a e))"
proof -
  have "el_Next st (Some e) = Some (first_of (tl (from_on e (sequence_of e a))) None) \<and>
    el_Prev st (Some e) = Some (last_of (before e (sequence_of e a)) None) \<and>
    el_Value zero st (Some e) = Some (the (element_value a e))"
  proof (cases rule: element_cases [OF rel e])
    case (1 k ks bs cs el w)
    then have R: "sequences a k = Some (bs @ e # cs)" by blast
    show ?thesis using el_Next_ok [OF list_relD(1) [OF rel] R] el_Prev_ok [OF list_relD(1) [OF rel] R] 1(1-12)
      by (simp add: el_Value_def)
  next
    case (2 el w)
    then show ?thesis by (simp add: el_Next_def el_Prev_def el_Value_def from_on_def before_def)
  qed
  then show "el_Next st (Some e) = Some (first_of (tl (from_on e (sequence_of e a))) None)"
    "el_Prev st (Some e) = Some (last_of (before e (sequence_of e a)) None)"
    "el_Value zero st (Some e) = Some (the (element_value a e))" by blast+
qed

lemma list_rel_types:
  assumes "list_rel st a"
  shows "lens st l \<noteq> None \<longleftrightarrow> sequences a l \<noteq> None"
    and "elements st e \<noteq> None \<and> lens st e = None \<longleftrightarrow> element_value a e \<noteq> None"
proof -
  have inv: "list_inv st (sequences a)" and v: "element_value a = vals st" using assms by (simp_all add: list_rel_def)
  then have dom: "dom (sequences a) = dom (lens st)" by (simp add: list_inv_def)
  then show "lens st l \<noteq> None \<longleftrightarrow> sequences a l \<noteq> None" by (auto simp: domIff)
  show "elements st e \<noteq> None \<and> lens st e = None \<longleftrightarrow> element_value a e \<noteq> None"
  proof (cases "lens st e")
    case None
    have "le_value el \<noteq> None" if "elements st e = Some el" for el
    proof
      assume "le_value el = None"
      then have "payload st e = Some (le_list el, None)" using that by (simp add: payload_def)
      then show False using inv None by (auto simp: list_inv_def)
    qed
    then show ?thesis using None by (cases "elements st e") (auto simp: v vals_def)
  next
    case (Some n)
    then obtain as where "sequences a e = Some as" using dom by (metis domD domI)
    then have "payload st e = Some (None, None)" using list_invD(3) [OF inv] by blast
    then show ?thesis using Some by (simp add: v vals_payload)
  qed
qed

lemma well_typed_rel:
  "list_rel st a \<Longrightarrow> well_typed (\<lambda>l. lens st l \<noteq> None) (\<lambda>e. elements st e \<noteq> None \<and> lens st e = None) op \<longleftrightarrow>
    well_typed (\<lambda>l. sequences a l \<noteq> None) (\<lambda>e. element_value a e \<noteq> None) op"
  unfolding well_typed_def by (simp only: list_rel_types)

lemma list_call_simulates:
  assumes rel: "list_rel st a" and ty: "well_typed (\<lambda>l. sequences a l \<noteq> None) (\<lambda>e. element_value a e \<noteq> None) op"
  shows "\<exists>st'. list_call zero st op = Some (st', snd (lists_call a op)) \<and> list_rel st' (fst (lists_call a op))"
proof (cases op)
  case LNew
  then show ?thesis using newList_ok [OF list_relD(1) [OF rel]] list_relD(2,3) [OF rel]
    by (auto simp: list_rel_def)
next
  case (LPushFront l v)
  then show ?thesis using ty list_call_insert(1) [OF rel, of l _ v] by (auto simp: well_typed_def)
next
  case (LPushBack l v)
  then show ?thesis using ty list_call_insert(2) [OF rel, of l _ v] by (auto simp: well_typed_def)
next
  case (LRemove l e)
  then show ?thesis using ty list_call_remove [OF rel, of l _ e] by (auto simp: well_typed_def)
next
  case (LInsertBefore l v e)
  then obtain as where "sequences a l = Some as" "element_value a e \<noteq> None" using ty by (auto simp: well_typed_def)
  from list_call_insert_at(1) [OF rel this, of v] show ?thesis by (simp only: LInsertBefore list_call.simps)
next
  case (LInsertAfter l v e)
  then obtain as where "sequences a l = Some as" "element_value a e \<noteq> None" using ty by (auto simp: well_typed_def)
  from list_call_insert_at(2) [OF rel this, of v] show ?thesis by (simp only: LInsertAfter list_call.simps)
next
  case (LMoveToFront l e)
  then obtain as where "sequences a l = Some as" "element_value a e \<noteq> None" using ty by (auto simp: well_typed_def)
  from list_call_move_ends [OF rel this] show ?thesis by (auto simp: LMoveToFront done_with_def)
next
  case (LMoveToBack l e)
  then obtain as where "sequences a l = Some as" "element_value a e \<noteq> None" using ty by (auto simp: well_typed_def)
  from list_call_move_ends [OF rel this] show ?thesis by (auto simp: LMoveToBack done_with_def)
next
  case (LMoveBefore l e p)
  then obtain as where "sequences a l = Some as" "element_value a e \<noteq> None" using ty by (auto simp: well_typed_def)
  from list_call_move_beside [OF rel this] show ?thesis by (auto simp: LMoveBefore done_with_def)
next
  case (LMoveAfter l e p)
  then obtain as where "sequences a l = Some as" "element_value a e \<noteq> None" using ty by (auto simp: well_typed_def)
  from list_call_move_beside [OF rel this] rel show ?thesis by (auto simp: LMoveAfter done_with_def)
next
  case (LPushBackList l k)
  then obtain as ks where "sequences a l = Some as" "sequences a k = Some ks" using ty by (auto simp: well_typed_def)
  from list_call_copy [OF rel this] this show ?thesis by (auto simp: LPushBackList done_with_def)
next
  case (LPushFrontList l k)
  then obtain as ks where "sequences a l = Some as" "sequences a k = Some ks" using ty by (auto simp: well_typed_def)
  from list_call_copy [OF rel this] this show ?thesis by (auto simp: LPushFrontList done_with_def)
next
  case (LFront l)
  then show ?thesis using ty rel list_Front_ok [OF list_relD(1) [OF rel], of l] by (auto simp: well_typed_def query_def)
next
  case (LBack l)
  then show ?thesis using ty rel list_Back_ok [OF list_relD(1) [OF rel], of l] by (auto simp: well_typed_def query_def)
next
  case (LNext e)
  then show ?thesis using ty rel list_call_element(1) [OF rel, of e] by (simp add: well_typed_def query_def)
next
  case (LPrev e)
  then show ?thesis using ty rel list_call_element(2) [OF rel, of e] by (simp add: well_typed_def query_def)
next
  case (LElementValue e)
  then show ?thesis using ty rel list_call_element(3) [OF rel, of e] by (simp add: well_typed_def query_def)
next
  case (LLen l)
  then show ?thesis using ty rel list_invD(2) [OF list_relD(1) [OF rel], of l]
    by (auto simp: well_typed_def query_def list_Len_def)
next
  case (LValues l)
  then show ?thesis using ty rel list_Values_ok [OF list_relD(1) [OF rel], of l] list_relD(3) [OF rel]
    by (auto simp: well_typed_def query_def)
qed

interpretation plain_lists: data_simulation "list_step zero" lists_step list_rel
proof
  fix st :: "'a list_store" and a op
  assume rel: "list_rel st a"
  show "\<exists>st'. list_step zero st op = Some (st', snd (lists_step a op)) \<and> list_rel st' (fst (lists_step a op))"
    unfolding list_step_def lists_step_def well_typed_rel [OF rel]
    using list_call_simulates [OF rel] rel by simp
qed

lemma list_rel_empty: "list_rel empty_store no_lists"
  by (simp add: list_rel_def list_inv_def empty_store_def no_lists_def payload_def vals_def fun_eq_iff)

text \<open>With all locks free a call of the thread-safe list is the call of the plain list, unless it copies a list into
  itself.\<close>

lemma ts_copy_free:
  assumes "ts_locks t = (\<lambda>_. free_lock)" and "l \<noteq> k"
  shows "ts_PushBackList l k t = map_option (\<lambda>st. t\<lparr>ts_store := st\<rparr>) (list_PushBackList l k (ts_store t))"
    and "ts_PushFrontList l k t = map_option (\<lambda>st. t\<lparr>ts_store := st\<rparr>) (list_PushFrontList l k (ts_store t))"
proof -
  obtain st where t: "t = \<lparr>ts_store = st, ts_locks = (\<lambda>_. free_lock)\<rparr>" using assms(1) by (cases t) simp
  have idem: "(\<lambda>_. free_lock)(l := free_lock) = (\<lambda>_. free_lock)" by (simp add: fun_eq_iff)
  show "ts_PushBackList l k t = map_option (\<lambda>st. t\<lparr>ts_store := st\<rparr>) (list_PushBackList l k (ts_store t))"
    "ts_PushFrontList l k t = map_option (\<lambda>st. t\<lparr>ts_store := st\<rparr>) (list_PushFrontList l k (ts_store t))"
    using assms(2)
    by (simp_all add: t ts_PushBackList_def ts_PushFrontList_def list_PushBackList_def list_PushFrontList_def Lock_free
        map_conv_bind_option o_def idem)
qed

lemma on_lock_free:
  assumes "ts_locks t = (\<lambda>_. free_lock)"
  shows "on_lock with_Lock l body t = map_option (\<lambda>(st, r). (t\<lparr>ts_store := st\<rparr>, r)) (body (ts_store t))"
    and "on_lock with_RLock l body t = map_option (\<lambda>(st, r). (t\<lparr>ts_store := st\<rparr>, r)) (body (ts_store t))"
proof -
  obtain st where t: "t = \<lparr>ts_store = st, ts_locks = (\<lambda>_. free_lock)\<rparr>" using assms(1) by (cases t) simp
  have idem: "(\<lambda>_. free_lock)(l := free_lock) = (\<lambda>_. free_lock)" by (simp add: fun_eq_iff)
  show "on_lock with_Lock l body t = map_option (\<lambda>(st, r). (t\<lparr>ts_store := st\<rparr>, r)) (body (ts_store t))"
    "on_lock with_RLock l body t = map_option (\<lambda>(st, r). (t\<lparr>ts_store := st\<rparr>, r)) (body (ts_store t))"
    by (cases "body st"; simp add: t on_lock_def idem case_prod_beta)+
qed

lemma threadSafe_call_free:
  assumes free: "ts_locks t = (\<lambda>_. free_lock)" and "\<not> self_copy op"
  shows "threadSafe_call zero t op = map_option (\<lambda>(st, r). (t\<lparr>ts_store := st\<rparr>, r)) (list_call zero (ts_store t) op)"
  using assms(2)
  by (cases op) (simp_all add: on_lock_free [OF free] ts_copy_free [OF free] done_with_def option.map_comp o_def)

interpretation ts_lists: data_simulation
  "\<lambda>t op. if self_copy op then Some (t, RIllTyped) else threadSafe_step zero t op"
  "\<lambda>a op. if self_copy op then (a, RIllTyped) else lists_step a op"
  "\<lambda>t a. ts_locks t = (\<lambda>_. free_lock) \<and> list_rel (ts_store t) a"
proof
  fix t :: "'a ts_lists" and a op
  assume t: "ts_locks t = (\<lambda>_. free_lock) \<and> list_rel (ts_store t) a"
  then have rel: "list_rel (ts_store t) a" by simp
  have "\<exists>t'. threadSafe_step zero t op = Some (t', snd (lists_step a op)) \<and>
      ts_locks t' = (\<lambda>_. free_lock) \<and> list_rel (ts_store t') (fst (lists_step a op))" if "\<not> self_copy op"
    unfolding threadSafe_step_def lists_step_def well_typed_rel [OF rel]
    using list_call_simulates [OF rel, of op zero] t that threadSafe_call_free [of t op zero] by auto
  then show "\<exists>t'. (if self_copy op then Some (t, RIllTyped) else threadSafe_step zero t op) =
       Some (t', snd (if self_copy op then (a, RIllTyped) else lists_step a op)) \<and>
     ts_locks t' = (\<lambda>_. free_lock) \<and> list_rel (ts_store t') (fst (if self_copy op then (a, RIllTyped) else lists_step a op))"
    using t by simp
qed

lemma self_copy_blocks:
  assumes "ts_locks t = (\<lambda>_. free_lock)" and "list_rel (ts_store t) a" and "sequences a l = Some as"
  shows "threadSafe_step zero t (LPushBackList l l) = None" and "threadSafe_step zero t (LPushFrontList l l) = None"
proof -
  have "lens (ts_store t) l \<noteq> None" using list_rel_types(1) [OF assms(2), of l] assms(3) by simp
  then show "threadSafe_step zero t (LPushBackList l l) = None" and "threadSafe_step zero t (LPushFrontList l l) = None"
    using lazyInit_ok [OF list_relD(1) [OF assms(2)] assms(3)] assms(1)
    by (simp_all add: threadSafe_step_def well_typed_def done_with_def ts_PushBackList_def ts_PushFrontList_def Lock_free with_RLock_held)
qed

section \<open>Properties\<close>




text \<open>the iterations over a list end and show the values in order, or in reverse order; \<^verbatim>\<open>ForEach\<close> and
  \<^verbatim>\<open>ForEachReverse\<close> stop at the first error of the callback and return it, \<^verbatim>\<open>Range\<close> and \<^verbatim>\<open>RangeReverse\<close> show every
  value.\<close>

theorem list_iterations_end:
  fixes callback :: "'w \<Rightarrow> 'a \<Rightarrow> 'w \<times> 'e option"
  assumes "list_rel st a" and "sequences a l = Some as"
  defines "vs \<equiv> map (\<lambda>e. the (element_value a e)) as"
  shows "list_ForEach zero st l callback w = Some (until_error callback vs w) \<and>
    list_ForEachReverse zero st l callback w = Some (until_error callback (rev vs) w) \<and>
    list_Range zero st l f w = Some (foldl f w vs) \<and>
    list_RangeReverse zero st l f w = Some (foldl f w (rev vs))"
proof -
  note D = list_relD [OF assms(1)]
  show ?thesis
    using list_Front_ok [OF D(1) assms(2)] list_Back_ok [OF D(1) assms(2)]
      list_walk_forward [OF D(1) assms(2), of "[]" as zero callback w] list_walk_backward [OF D(1) assms(2), of as "[]" zero callback w]
      list_walk_forward [OF D(1) assms(2), of "[]" as zero "no_error f" w] list_walk_backward [OF D(1) assms(2), of as "[]" zero "no_error f" w]
    by (simp add: list_ForEach_def list_ForEachReverse_def list_Range_def list_RangeReverse_def until_error_fold
        foldl_conv_fold vs_def D(3) rev_map)
qed

theorem list_iterations_end_witness:
  "\<exists>st a. list_rel st a \<and> sequences a 0 = Some [1, 2] \<and>
     list_ForEach 0 st 0 (\<lambda>w (v :: int). (w @ [v], if v = 7 then Some ''stop'' else None)) [] = Some ([7], Some ''stop'') \<and>
     list_RangeReverse 0 st 0 (\<lambda>w v. w @ [v]) [] = Some [8, 7]"
proof -
  let ?a = "fst (run_spec lists_step no_lists [LNew, LPushBack 0 (7 :: int), LPushBack 0 8])"
  obtain st where "list_rel st ?a"
    using plain_lists.run_simulates [OF list_rel_empty, of 0 "[LNew, LPushBack 0 (7 :: int), LPushBack 0 8]"] by blast
  moreover have "sequences ?a 0 = Some [1, 2]" "element_value ?a 1 = Some 7" "element_value ?a 2 = Some 8"
    by (simp_all add: lists_step_def no_lists_def well_typed_def spec_insert_def)
  ultimately show ?thesis
    using list_iterations_end [of st ?a 0 "[1, 2]" 0 "\<lambda>w (v :: int). (w @ [v], if v = 7 then Some ''stop'' else None)" "[]" "\<lambda>w v. w @ [v]"]
    by (intro exI [of _ st] exI [of _ ?a]) simp
qed

section \<open>Observations\<close>

text \<open>Asked to move the second element before the first, \<^verbatim>\<open>MoveBefore\<close> leaves the list as it is.\<close>

lemma move_before_does_nothing:
  "\<exists>st. run_ops (list_step ''zero'') empty_store [LNew, LPushBack 0 ''a'', LPushBack 0 ''b'', LMoveBefore 0 2 1, LValues 0] =
     Some (st, [RHandle (Some 0), RHandle (Some 1), RHandle (Some 2), RDone, RValues [''a'', ''b'']])"
proof -
  let ?ops = "[LNew, LPushBack 0 ''a'', LPushBack 0 ''b'', LMoveBefore 0 2 1, LValues 0]"
  have "snd (run_spec lists_step no_lists ?ops) =
      [RHandle (Some 0), RHandle (Some 1), RHandle (Some 2), RDone, RValues [''a'', ''b'']]" by code_simp
  then show ?thesis using plain_lists.run_simulates [OF list_rel_empty, of "''zero''" ?ops] by auto
qed

text \<open>\<^verbatim>\<open>Init\<close> empties a list but leaves its former elements marked as members; removing one of them afterwards makes the
  length negative.\<close>

lemma remove_after_init_negative:
  "map_option (\<lambda>(st, _). list_Len st 0)
     (do {
        (st, l) \<leftarrow> newList empty_store;
        (st, e) \<leftarrow> list_PushBack l ''a'' st;
        st \<leftarrow> list_Init l st;
        list_Remove l e st
      }) = Some (Some (- 1))"
  by code_simp

end
