(* ===== verification/Go_Heap.thy ===== *)
theory Go_Heap
  imports Hive_Prelude "HOL-Library.Multiset"
begin

text \<open>
  Binary heaps as \<^verbatim>\<open>container/heap\<close> of the standard library keeps them: the interface that an implementation provides,
  the operations on it, the contract of an implementation, and what the operations do for every implementation that keeps
  the contract.
\<close>

section \<open>Definitions\<close>

text \<open>The interface \<^verbatim>\<open>heap.Interface\<close>: the five methods on a state. An index out of range is \<^term>\<open>None\<close>.\<close>

record ('s, 'x) heap_Interface =
  h_Len :: "'s \<Rightarrow> nat"
  h_Less :: "'s \<Rightarrow> nat \<Rightarrow> nat \<Rightarrow> bool option"
  h_Swap :: "'s \<Rightarrow> nat \<Rightarrow> nat \<Rightarrow> 's option"
  h_Push :: "'s \<Rightarrow> 'x \<Rightarrow> 's option"
  h_Pop :: "'s \<Rightarrow> ('s \<times> 'x) option"

function heap_up :: "('s, 'x) heap_Interface \<Rightarrow> 's \<Rightarrow> nat \<Rightarrow> 's option" where
  "heap_up h s j =
     (let i = (j - 1) div 2 in
      if i = j then Some s
      else do {
        less \<leftarrow> h_Less h s j i;
        if \<not> less then Some s
        else do { s \<leftarrow> h_Swap h s i j; heap_up h s i }
      })"
  by pat_completeness auto
termination by (relation "measure (\<lambda>(h, s, j). j)") auto

text \<open>The second result is the last position of the element that was moved down from \<open>i\<close>.\<close>

function heap_down :: "('s, 'x) heap_Interface \<Rightarrow> 's \<Rightarrow> nat \<Rightarrow> nat \<Rightarrow> ('s \<times> nat) option" where
  "heap_down h s i n =
     (let j1 = 2 * i + 1 in
      if n \<le> j1 then Some (s, i)
      else do {
        right \<leftarrow> (if j1 + 1 < n then h_Less h s (j1 + 1) j1 else Some False);
        let j = (if right then j1 + 1 else j1);
        less \<leftarrow> h_Less h s j i;
        if \<not> less then Some (s, i)
        else do { s \<leftarrow> h_Swap h s i j; heap_down h s j n }
      })"
  by pat_completeness auto
termination by (relation "measure (\<lambda>(h, s, i, n). n - i)") auto

declare heap_up.simps [simp del] heap_down.simps [simp del]

fun heap_init_loop :: "('s, 'x) heap_Interface \<Rightarrow> 's \<Rightarrow> nat \<Rightarrow> nat \<Rightarrow> 's option" where
  "heap_init_loop h s 0 n = Some s"
| "heap_init_loop h s (Suc i) n = do { (s, _) \<leftarrow> heap_down h s i n; heap_init_loop h s i n }"

definition heap_Init :: "('s, 'x) heap_Interface \<Rightarrow> 's \<Rightarrow> 's option" where
  "heap_Init h s = heap_init_loop h s (h_Len h s div 2) (h_Len h s)"

definition heap_Push :: "('s, 'x) heap_Interface \<Rightarrow> 's \<Rightarrow> 'x \<Rightarrow> 's option" where
  "heap_Push h s x = do { s \<leftarrow> h_Push h s x; heap_up h s (h_Len h s - 1) }"

definition heap_Pop :: "('s, 'x) heap_Interface \<Rightarrow> 's \<Rightarrow> ('s \<times> 'x) option" where
  "heap_Pop h s = do {
     let n = h_Len h s - 1;
     s \<leftarrow> h_Swap h s 0 n;
     (s, _) \<leftarrow> heap_down h s 0 n;
     h_Pop h s
   }"

definition heap_Remove :: "('s, 'x) heap_Interface \<Rightarrow> 's \<Rightarrow> nat \<Rightarrow> ('s \<times> 'x) option" where
  "heap_Remove h s i = do {
     let n = h_Len h s - 1;
     s \<leftarrow> (if n \<noteq> i then do {
              s \<leftarrow> h_Swap h s i n;
              (s, k) \<leftarrow> heap_down h s i n;
              if \<not> i < k then heap_up h s i else Some s
            } else Some s);
     h_Pop h s
   }"

text \<open>The heap order on the first \<open>n\<close> items, and the order with a gap at position \<open>i\<close>.\<close>

definition swapped :: "'a list \<Rightarrow> nat \<Rightarrow> nat \<Rightarrow> 'a list" where
  "swapped xs i j = xs[i := xs ! j, j := xs ! i]"

definition is_heap :: "('a \<Rightarrow> 'a \<Rightarrow> bool) \<Rightarrow> nat \<Rightarrow> 'a list \<Rightarrow> bool" where
  "is_heap lt n xs \<longleftrightarrow> (\<forall>k<n. 0 < k \<longrightarrow> \<not> lt (xs ! k) (xs ! ((k - 1) div 2)))"

definition heap_except :: "('a \<Rightarrow> 'a \<Rightarrow> bool) \<Rightarrow> nat \<Rightarrow> nat \<Rightarrow> 'a list \<Rightarrow> bool" where
  "heap_except lt n i xs \<longleftrightarrow>
     (\<forall>k<n. 0 < k \<longrightarrow> k \<noteq> i \<longrightarrow> (k - 1) div 2 \<noteq> i \<longrightarrow> \<not> lt (xs ! k) (xs ! ((k - 1) div 2))) \<and>
     (0 < i \<longrightarrow> (\<forall>c<n. 0 < c \<longrightarrow> (c - 1) div 2 = i \<longrightarrow> \<not> lt (xs ! c) (xs ! ((i - 1) div 2))))"

definition below_ok :: "('a \<Rightarrow> 'a \<Rightarrow> bool) \<Rightarrow> nat \<Rightarrow> nat \<Rightarrow> 'a list \<Rightarrow> bool" where
  "below_ok lt n i xs \<longleftrightarrow> (\<forall>c<n. 0 < c \<longrightarrow> (c - 1) div 2 = i \<longrightarrow> \<not> lt (xs ! c) (xs ! i))"

definition above_ok :: "('a \<Rightarrow> 'a \<Rightarrow> bool) \<Rightarrow> nat \<Rightarrow> 'a list \<Rightarrow> bool" where
  "above_ok lt i xs \<longleftrightarrow> (0 < i \<longrightarrow> \<not> lt (xs ! i) (xs ! ((i - 1) div 2)))"

section \<open>Orders and positions\<close>

locale weak_order =
  fixes lt :: "'a \<Rightarrow> 'a \<Rightarrow> bool"
  assumes lt_asym: "lt a b \<Longrightarrow> \<not> lt b a"
    and ge_trans: "\<not> lt a b \<Longrightarrow> \<not> lt b c \<Longrightarrow> \<not> lt a c"
begin

lemma lt_ge_trans: "lt a b \<Longrightarrow> \<not> lt c b \<Longrightarrow> \<not> lt c a"
  using lt_asym ge_trans by blast

lemma is_heap_parts: "is_heap lt n xs \<longleftrightarrow> heap_except lt n i xs \<and> below_ok lt n i xs \<and> (i < n \<longrightarrow> above_ok lt i xs)"
proof
  assume heap: "is_heap lt n xs"
  have "\<not> lt (xs ! c) (xs ! ((i - 1) div 2))" if "c < n" "0 < c" "(c - 1) div 2 = i" "0 < i" for c
  proof -
    have "\<not> lt (xs ! c) (xs ! i)" using heap that unfolding is_heap_def by blast
    moreover have "i < n" using that by linarith
    then have "\<not> lt (xs ! i) (xs ! ((i - 1) div 2))" using heap that unfolding is_heap_def by blast
    ultimately show ?thesis by (rule ge_trans)
  qed
  with heap show "heap_except lt n i xs \<and> below_ok lt n i xs \<and> (i < n \<longrightarrow> above_ok lt i xs)"
    unfolding is_heap_def heap_except_def below_ok_def above_ok_def by blast
next
  assume "heap_except lt n i xs \<and> below_ok lt n i xs \<and> (i < n \<longrightarrow> above_ok lt i xs)"
  then show "is_heap lt n xs" unfolding is_heap_def heap_except_def below_ok_def above_ok_def by metis
qed

lemma heap_root_least: "is_heap lt n xs \<Longrightarrow> k < n \<Longrightarrow> \<not> lt (xs ! k) (xs ! 0)"
proof (induction k rule: less_induct)
  case (less k)
  show ?case
  proof (cases "k = 0")
    case True
    then show ?thesis using lt_asym by blast
  next
    case False
    then have p: "(k - 1) div 2 < k" by linarith
    then have "\<not> lt (xs ! ((k - 1) div 2)) (xs ! 0)" using less p by simp
    moreover have "\<not> lt (xs ! k) (xs ! ((k - 1) div 2))" using less False unfolding is_heap_def by blast
    ultimately show ?thesis using ge_trans by blast
  qed
qed

text \<open>One step up: the gap moves to the parent.\<close>

lemma up_step:
  assumes ex: "heap_except lt n j xs" and below: "below_ok lt n j xs" and j: "0 < j" "j < n" "n \<le> length xs"
    and lt: "lt (xs ! j) (xs ! ((j - 1) div 2))"
  defines "i \<equiv> (j - 1) div 2"
  shows "heap_except lt n i (swapped xs i j) \<and> below_ok lt n i (swapped xs i j)"
proof -
  have ij: "i < j" "i < n" using j by (auto simp: i_def)
  have at: "swapped xs i j ! i = xs ! j" "swapped xs i j ! j = xs ! i" "\<And>k. k \<noteq> i \<Longrightarrow> k \<noteq> j \<Longrightarrow> swapped xs i j ! k = xs ! k"
    using ij j by (auto simp: swapped_def nth_list_update)
  have edge: "\<not> lt (xs ! k) (xs ! ((k - 1) div 2))" if "k < n" "0 < k" "k \<noteq> j" "(k - 1) div 2 \<noteq> j" for k
    using ex that unfolding heap_except_def by blast
  have child: "\<not> lt (xs ! c) (xs ! i)" if "c < n" "0 < c" "(c - 1) div 2 = j" for c
    using ex j that unfolding heap_except_def i_def by blast
  have sib: "\<not> lt (xs ! c) (xs ! i)" if "c < n" "0 < c" "(c - 1) div 2 = i" "c \<noteq> j" for c
    using edge [of c] that ij by simp
  have up: "\<not> lt (xs ! i) (xs ! ((i - 1) div 2))" if "0 < i" using edge [of i] that ij j by fastforce
  have ltij: "lt (xs ! j) (xs ! i)" using lt by (simp add: i_def)
  have "below_ok lt n i (swapped xs i j)" unfolding below_ok_def
  proof (intro allI impI)
    fix c assume c: "c < n" "0 < c" "(c - 1) div 2 = i"
    then have "c \<noteq> i" by linarith
    then show "\<not> lt (swapped xs i j ! c) (swapped xs i j ! i)"
      using at(1,2) at(3) [of c] lt_asym [OF ltij] lt_ge_trans [OF ltij] sib [OF c] by (cases "c = j") simp_all
  qed
  moreover have "\<not> lt (swapped xs i j ! k) (swapped xs i j ! ((k - 1) div 2))"
    if k: "k < n" "0 < k" "k \<noteq> i" "(k - 1) div 2 \<noteq> i" for k
  proof -
    have "k \<noteq> j" using k(4) by (auto simp: i_def)
    then show ?thesis using at(2) at(3) [of k] at(3) [of "(k - 1) div 2"] child [of k] edge [of k] k
      by (cases "(k - 1) div 2 = j") simp_all
  qed
  moreover have "\<not> lt (swapped xs i j ! c) (swapped xs i j ! ((i - 1) div 2))"
    if c: "c < n" "0 < c" "(c - 1) div 2 = i" "0 < i" for c
  proof -
    have "(i - 1) div 2 \<noteq> i" "(i - 1) div 2 \<noteq> j" "c \<noteq> i" using c ij by linarith+
    then show ?thesis using at(2) at(3) [of c] at(3) [of "(i - 1) div 2"] up [OF c(4)] ge_trans [OF sib [OF c(1-3)] up [OF c(4)]]
      by (cases "c = j") simp_all
  qed
  ultimately show ?thesis unfolding heap_except_def by blast
qed

text \<open>One step down: the gap moves to the least child.\<close>

lemma down_step:
  assumes ex: "heap_except lt n i xs" and j: "0 < j" "j < n" "(j - 1) div 2 = i" "n \<le> length xs"
    and least: "\<And>c. c < n \<Longrightarrow> 0 < c \<Longrightarrow> (c - 1) div 2 = i \<Longrightarrow> \<not> lt (xs ! c) (xs ! j)"
    and lt: "lt (xs ! j) (xs ! i)"
  shows "heap_except lt n j (swapped xs i j) \<and> above_ok lt j (swapped xs i j)"
proof -
  have ij: "i < j" "i < n" using j by auto
  have at: "swapped xs i j ! i = xs ! j" "swapped xs i j ! j = xs ! i" "\<And>k. k \<noteq> i \<Longrightarrow> k \<noteq> j \<Longrightarrow> swapped xs i j ! k = xs ! k"
    using ij j by (auto simp: swapped_def nth_list_update)
  have edge: "\<not> lt (xs ! k) (xs ! ((k - 1) div 2))" if "k < n" "0 < k" "k \<noteq> i" "(k - 1) div 2 \<noteq> i" for k
    using ex that unfolding heap_except_def by blast
  have up: "\<not> lt (xs ! j) (xs ! ((i - 1) div 2))" if "0 < i" using ex that j unfolding heap_except_def by blast
  have "\<not> lt (swapped xs i j ! k) (swapped xs i j ! ((k - 1) div 2))"
    if k: "k < n" "0 < k" "k \<noteq> j" "(k - 1) div 2 \<noteq> j" for k
  proof (cases "k = i")
    case True
    then have "(i - 1) div 2 \<noteq> i" "(i - 1) div 2 \<noteq> j" using k ij by linarith+
    then show ?thesis using True at(1) at(3) [of "(i - 1) div 2"] up k by simp
  next
    case False
    then show ?thesis using at(1) at(3) [of k] at(3) [of "(k - 1) div 2"] least [of k] edge [of k] k
      by (cases "(k - 1) div 2 = i") simp_all
  qed
  moreover have "\<not> lt (swapped xs i j ! c) (swapped xs i j ! ((j - 1) div 2))" if c: "c < n" "0 < c" "(c - 1) div 2 = j" for c
  proof -
    have "c \<noteq> i" "c \<noteq> j" using c ij by linarith+
    then show ?thesis unfolding j(3) using at(1) at(3) [of c] edge [of c] c ij by simp
  qed
  moreover have "above_ok lt j (swapped xs i j)" unfolding above_ok_def j(3) using at lt_asym [OF lt] by simp
  ultimately show ?thesis unfolding heap_except_def by blast
qed

end

text \<open>The contract of an implementation of the interface: the items of a state, and what each method does to them. The
  relation \<open>keeps\<close> says what a swap leaves alone.\<close>

locale heap_contract = weak_order lt for lt :: "'a \<Rightarrow> 'a \<Rightarrow> bool" +
  fixes h :: "('s, 'x) heap_Interface"
    and items :: "'s \<Rightarrow> 'a list"
    and inv :: "'s \<Rightarrow> bool"
    and keeps :: "'s \<Rightarrow> 's \<Rightarrow> bool"
    and can_push :: "'s \<Rightarrow> 'x \<Rightarrow> bool"
    and item :: "'s \<Rightarrow> 'x \<Rightarrow> 'a"
    and out :: "'a \<Rightarrow> 'x"
  assumes len_law: "inv s \<Longrightarrow> h_Len h s = length (items s)"
    and less_law: "inv s \<Longrightarrow> i < length (items s) \<Longrightarrow> j < length (items s) \<Longrightarrow> h_Less h s i j = Some (lt (items s ! i) (items s ! j))"
    and swap_law: "inv s \<Longrightarrow> i < length (items s) \<Longrightarrow> j < length (items s) \<Longrightarrow>
      \<exists>s'. h_Swap h s i j = Some s' \<and> inv s' \<and> items s' = swapped (items s) i j \<and> keeps s s'"
    and push_law: "inv s \<Longrightarrow> can_push s x \<Longrightarrow> \<exists>s'. h_Push h s x = Some s' \<and> inv s' \<and> items s' = items s @ [item s x]"
    and pop_law: "inv s \<Longrightarrow> items s \<noteq> [] \<Longrightarrow>
      \<exists>s'. h_Pop h s = Some (s', out (last (items s))) \<and> inv s' \<and> items s' = butlast (items s)"
    and keeps_refl: "keeps s s"
    and keeps_trans: "keeps s s' \<Longrightarrow> keeps s' s'' \<Longrightarrow> keeps s s''"

lemma length_swapped [simp]: "length (swapped xs i j) = length xs"
  by (simp add: swapped_def)

lemma mset_swapped: "i < length xs \<Longrightarrow> j < length xs \<Longrightarrow> mset (swapped xs i j) = mset xs"
  unfolding swapped_def by (rule mset_swap)

lemma nth_swapped_other: "k \<noteq> i \<Longrightarrow> k \<noteq> j \<Longrightarrow> swapped xs i j ! k = xs ! k"
  by (simp add: swapped_def)

context heap_contract
begin

lemma up_ok:
  "inv s \<Longrightarrow> j < n \<Longrightarrow> n \<le> length (items s) \<Longrightarrow> heap_except lt n j (items s) \<Longrightarrow> below_ok lt n j (items s) \<Longrightarrow>
    \<exists>s'. heap_up h s j = Some s' \<and> inv s' \<and> keeps s s' \<and> mset (items s') = mset (items s) \<and> is_heap lt n (items s') \<and>
      (\<forall>m\<ge>n. items s' ! m = items s ! m)"
proof (induction j arbitrary: s rule: less_induct)
  case (less j)
  let ?i = "(j - 1) div 2"
  show ?case
  proof (cases "j = 0 \<or> \<not> lt (items s ! j) (items s ! ?i)")
    case True
    then have "heap_up h s j = Some s"
      using less.prems less_law [of s j ?i] by (subst heap_up.simps) (auto simp: Let_def)
    moreover have "is_heap lt n (items s)" using True less.prems by (auto simp: is_heap_parts [of n _ j] above_ok_def)
    ultimately show ?thesis using less.prems keeps_refl by blast
  next
    case False
    then have i: "?i < j" "?i < length (items s)" "j < length (items s)" using less.prems by linarith+
    obtain s1 where s1: "h_Swap h s ?i j = Some s1" "inv s1" "items s1 = swapped (items s) ?i j" "keeps s s1"
      using swap_law [OF less.prems(1) i(2,3)] by blast
    have "heap_up h s j = heap_up h s1 ?i"
      using False i s1(1) less_law [OF less.prems(1) i(3,2)] by (subst heap_up.simps) (auto simp: Let_def)
    moreover have "heap_except lt n ?i (items s1) \<and> below_ok lt n ?i (items s1)"
      using up_step [OF less.prems(4,5), folded s1(3)] False less.prems s1(3) by simp
    then obtain s' where "heap_up h s1 ?i = Some s'" "inv s'" "keeps s1 s'" "mset (items s') = mset (items s1)"
        "is_heap lt n (items s')" "\<forall>m\<ge>n. items s' ! m = items s1 ! m"
      using less.IH [OF i(1) s1(2)] i less.prems s1(3) by auto
    moreover have "items s1 ! m = items s ! m" if "n \<le> m" for m
      using that i less.prems s1(3) nth_swapped_other [of m ?i j] by auto
    ultimately show ?thesis using keeps_trans [OF s1(4)] s1(3) mset_swapped [OF i(2,3)] by auto
  qed
qed

lemma down_ok:
  "inv s \<Longrightarrow> n \<le> length (items s) \<Longrightarrow> heap_except lt n i (items s) \<Longrightarrow>
    \<exists>s' k. heap_down h s i n = Some (s', k) \<and> inv s' \<and> keeps s s' \<and> mset (items s') = mset (items s) \<and>
      heap_except lt n k (items s') \<and> below_ok lt n k (items s') \<and> i \<le> k \<and>
      (if k = i then s' = s else above_ok lt k (items s')) \<and>
      (\<forall>m\<ge>n. items s' ! m = items s ! m)"
proof (induction "n - i" arbitrary: s i rule: less_induct)
  case less
  note prems = less.prems
  let ?xs = "items s" and ?j1 = "2 * i + 1"
  show ?case
  proof (cases "n \<le> ?j1")
    case True
    have "below_ok lt n i ?xs" using True by (auto simp: below_ok_def)
    moreover have "heap_down h s i n = Some (s, i)" using True by (subst heap_down.simps) simp
    ultimately show ?thesis using prems keeps_refl by auto
  next
    case False
    define j where "j = (if ?j1 + 1 < n \<and> lt (?xs ! (?j1 + 1)) (?xs ! ?j1) then ?j1 + 1 else ?j1)"
    have j: "0 < j" "j < n" "(j - 1) div 2 = i" "i < j" using False by (auto simp: j_def)
    have bounds: "i < length ?xs" "j < length ?xs" "?j1 < length ?xs" using j False prems by linarith+
    have least: "\<not> lt (?xs ! c) (?xs ! j)" if c: "c < n" "0 < c" "(c - 1) div 2 = i" for c
    proof -
      have "c = ?j1 \<or> c = ?j1 + 1" using c by linarith
      then show ?thesis using c(1) lt_asym [of "?xs ! c" "?xs ! j"] lt_asym [of "?xs ! c" "?xs ! c"] unfolding j_def by auto
    qed
    have step: "heap_down h s i n =
        (if \<not> lt (?xs ! j) (?xs ! i) then Some (s, i) else do { s \<leftarrow> h_Swap h s i j; heap_down h s j n })"
    proof -
      have "h_Less h s j i = Some (lt (?xs ! j) (?xs ! i))" using less_law [OF prems(1) bounds(2,1)] .
      moreover have "?j1 + 1 < n \<Longrightarrow> h_Less h s (?j1 + 1) ?j1 = Some (lt (?xs ! (?j1 + 1)) (?xs ! ?j1))"
        using less_law [OF prems(1), of "?j1 + 1" ?j1] prems bounds by simp
      ultimately show ?thesis using False by (subst heap_down.simps) (auto simp: j_def Let_def)
    qed
    show ?thesis
    proof (cases "lt (?xs ! j) (?xs ! i)")
      case False
      have "below_ok lt n i ?xs" unfolding below_ok_def using ge_trans least False by blast
      then show ?thesis using step False prems keeps_refl by auto
    next
      case True
      obtain s1 where s1: "h_Swap h s i j = Some s1" "inv s1" "items s1 = swapped ?xs i j" "keeps s s1"
        using swap_law [OF prems(1) bounds(1,2)] by blast
      have d: "heap_except lt n j (items s1) \<and> above_ok lt j (items s1)"
        using down_step [OF prems(3) j(1-3) prems(2) least True] s1(3) by simp
      have "n - j < n - i" using j by linarith
      from less.hyps [OF this s1(2)] d prems s1(3) obtain s' k where s': "heap_down h s1 j n = Some (s', k)" "inv s'" "keeps s1 s'"
          "mset (items s') = mset (items s1)" "heap_except lt n k (items s')" "below_ok lt n k (items s')" "j \<le> k"
          "if k = j then s' = s1 else above_ok lt k (items s')" "\<forall>m\<ge>n. items s' ! m = items s1 ! m" by auto
      then have above: "above_ok lt k (items s')" using d by (auto split: if_splits)
      have "items s1 ! m = ?xs ! m" if "n \<le> m" for m
        using that j s1(3) nth_swapped_other [of m i j] by auto
      then show ?thesis using step True s1 s' above keeps_trans [OF s1(4) s'(3)] mset_swapped [OF bounds(1,2)] j(4)
        by auto
    qed
  qed
qed

lemma heap_except_end:
  assumes "length xs = n" and heap: "is_heap lt n xs"
  shows "heap_except lt (Suc n) n (xs @ [x])"
proof -
  have "\<not> lt ((xs @ [x]) ! k) ((xs @ [x]) ! ((k - 1) div 2))" if "k < n" "0 < k" for k
  proof -
    have "(k - 1) div 2 < n" using that by linarith
    then show ?thesis using heap that \<open>length xs = n\<close> by (simp add: is_heap_def nth_append)
  qed
  then show ?thesis unfolding heap_except_def by (auto simp: less_Suc_eq)
qed

lemma heap_Push_ok:
  assumes "inv s" and "can_push s x" and "is_heap lt (length (items s)) (items s)"
  shows "\<exists>s1 s'. h_Push h s x = Some s1 \<and> heap_Push h s x = Some s' \<and> keeps s1 s' \<and> inv s' \<and>
    mset (items s') = add_mset (item s x) (mset (items s)) \<and> is_heap lt (length (items s')) (items s')"
proof -
  let ?n = "length (items s)"
  obtain s1 where s1: "h_Push h s x = Some s1" "inv s1" "items s1 = items s @ [item s x]" using push_law [OF assms(1,2)] by blast
  have "heap_except lt (Suc ?n) ?n (items s1)" using heap_except_end [OF refl assms(3)] s1(3) by simp
  moreover have "below_ok lt (Suc ?n) ?n (items s1)" by (auto simp: below_ok_def)
  ultimately obtain s' where "heap_up h s1 ?n = Some s'" "inv s'" "keeps s1 s'" "mset (items s') = mset (items s1)"
      "is_heap lt (Suc ?n) (items s')"
    using up_ok [OF s1(2), of ?n "Suc ?n"] s1(3) by auto
  moreover then have "length (items s') = Suc ?n" using mset_eq_length s1(3) by fastforce
  ultimately show ?thesis using s1 len_law [OF s1(2)] by (simp add: heap_Push_def)
qed

lemma is_heap_butlast: "is_heap lt (length xs - 1) xs \<Longrightarrow> is_heap lt (length (butlast xs)) (butlast xs)"
  unfolding is_heap_def by (auto simp: nth_butlast)

text \<open>Taking out the item at position \<open>i\<close>: swap it with the last one and repair the order in front of it.\<close>

lemma take_out:
  assumes inv: "inv s" and heap: "is_heap lt (length (items s)) (items s)" and i: "i < length (items s)"
  defines "n \<equiv> length (items s) - 1"
  shows "\<exists>s1 s2 k. h_Swap h s i n = Some s1 \<and> heap_down h s1 i n = Some (s2, k) \<and> inv s2 \<and> keeps s s2 \<and> i \<le> k \<and>
    mset (items s2) = mset (items s) \<and> items s2 ! n = items s ! i \<and>
    heap_except lt n k (items s2) \<and> below_ok lt n k (items s2) \<and> (k \<noteq> i \<longrightarrow> above_ok lt k (items s2))"
proof -
  have n: "n < length (items s)" "n \<le> length (items s)" using i by (auto simp: n_def)
  obtain s1 where s1: "h_Swap h s i n = Some s1" "inv s1" "items s1 = swapped (items s) i n" "keeps s s1"
    using swap_law [OF inv i n(1)] by blast
  have old: "heap_except lt n i (items s)" using heap is_heap_parts [of "length (items s)" "items s" i] n
    unfolding heap_except_def by auto
  have same: "items s1 ! k = items s ! k" if "k \<noteq> i" "k < n" for k using that s1(3) nth_swapped_other [of k i n] by auto
  have "heap_except lt n i (items s1)"
    unfolding heap_except_def
  proof (intro conjI allI impI)
    fix k assume k: "k < n" "0 < k" "k \<noteq> i" "(k - 1) div 2 \<noteq> i"
    then have "(k - 1) div 2 < n" by linarith
    then show "\<not> lt (items s1 ! k) (items s1 ! ((k - 1) div 2))"
      using old same [of k] same [of "(k - 1) div 2"] k unfolding heap_except_def by simp
  next
    fix c assume c: "0 < i" "c < n" "0 < c" "(c - 1) div 2 = i"
    then have "c \<noteq> i" "(i - 1) div 2 < n" "(i - 1) div 2 \<noteq> i" by linarith+
    then show "\<not> lt (items s1 ! c) (items s1 ! ((i - 1) div 2))"
      using old same [of c] same [of "(i - 1) div 2"] c unfolding heap_except_def by simp
  qed
  from down_ok [OF s1(2) _ this] n s1(3) obtain s2 k where "heap_down h s1 i n = Some (s2, k)" "inv s2" "keeps s1 s2"
      "mset (items s2) = mset (items s1)" "heap_except lt n k (items s2)" "below_ok lt n k (items s2)" "i \<le> k"
      "if k = i then s2 = s1 else above_ok lt k (items s2)" "\<forall>m\<ge>n. items s2 ! m = items s1 ! m" by auto
  moreover have "items s1 ! n = items s ! i" using s1(3) i n by (simp add: swapped_def nth_list_update)
  ultimately show ?thesis using s1 keeps_trans [OF s1(4)] mset_swapped [OF i n(1)] by auto
qed

lemma pop_last:
  assumes inv: "inv s2" and ms: "mset (items s2) = mset xs" and xs: "xs \<noteq> []" and lst: "items s2 ! (length xs - 1) = x"
    and heap: "is_heap lt (length xs - 1) (items s2)"
  shows "\<exists>s'. h_Pop h s2 = Some (s', out x) \<and> inv s' \<and> mset xs = add_mset x (mset (items s')) \<and>
    is_heap lt (length (items s')) (items s')"
proof -
  have len: "length (items s2) = length xs" using ms mset_eq_length by blast
  then have ne: "items s2 \<noteq> []" using xs by auto
  then have lst': "last (items s2) = x" using lst len by (simp add: last_conv_nth)
  obtain s' where s': "h_Pop h s2 = Some (s', out (last (items s2)))" "inv s'" "items s' = butlast (items s2)"
    using pop_law [OF inv ne] by blast
  have "mset (items s2) = add_mset x (mset (butlast (items s2)))"
    using append_butlast_last_id [OF ne] lst' by (metis mset_append mset.simps add_mset_add_single union_commute add.right_neutral)
  moreover have "is_heap lt (length (items s')) (items s')" using is_heap_butlast [of "items s2"] heap len s'(3) by simp
  ultimately show ?thesis using s' ms lst' by simp
qed

lemma heap_Pop_ok:
  assumes inv: "inv s" and heap: "is_heap lt (length (items s)) (items s)" and ne: "items s \<noteq> []"
  shows "\<exists>s2 s'. heap_Pop h s = Some (s', out (items s ! 0)) \<and> keeps s s2 \<and> inv s2 \<and> mset (items s2) = mset (items s) \<and>
    h_Pop h s2 = Some (s', out (items s ! 0)) \<and> inv s' \<and>
    mset (items s) = add_mset (items s ! 0) (mset (items s')) \<and> is_heap lt (length (items s')) (items s')"
proof -
  let ?n = "length (items s) - 1"
  have "0 < length (items s)" using ne by simp
  from take_out [OF inv heap this] obtain s1 s2 k where s2: "h_Swap h s 0 ?n = Some s1" "heap_down h s1 0 ?n = Some (s2, k)"
    "inv s2" "keeps s s2" "mset (items s2) = mset (items s)" "items s2 ! ?n = items s ! 0"
    "heap_except lt ?n k (items s2)" "below_ok lt ?n k (items s2)" "k \<noteq> 0 \<longrightarrow> above_ok lt k (items s2)" by blast
  have "is_heap lt ?n (items s2)" using s2(7-9) is_heap_parts [of ?n "items s2" k] by (auto simp: above_ok_def)
  from pop_last [OF s2(3,5) ne s2(6) this] s2 show ?thesis using len_law [OF inv] by (auto simp: heap_Pop_def)
qed

lemma heap_Remove_ok:
  assumes inv: "inv s" and heap: "is_heap lt (length (items s)) (items s)" and i: "i < length (items s)"
  shows "\<exists>s2 s'. heap_Remove h s i = Some (s', out (items s ! i)) \<and> keeps s s2 \<and> inv s2 \<and> mset (items s2) = mset (items s) \<and>
    h_Pop h s2 = Some (s', out (items s ! i)) \<and> inv s' \<and>
    mset (items s) = add_mset (items s ! i) (mset (items s')) \<and> is_heap lt (length (items s')) (items s')"
proof -
  let ?n = "length (items s) - 1"
  have ne: "items s \<noteq> []" using i by auto
  have "\<exists>s2. (if ?n \<noteq> i then do { s \<leftarrow> h_Swap h s i ?n; (s, k) \<leftarrow> heap_down h s i ?n;
      if \<not> i < k then heap_up h s i else Some s } else Some s) = Some s2 \<and> inv s2 \<and> keeps s s2 \<and>
      mset (items s2) = mset (items s) \<and> items s2 ! ?n = items s ! i \<and> is_heap lt ?n (items s2)"
  proof (cases "?n = i")
    case True
    have "is_heap lt ?n (items s)" using heap by (simp add: is_heap_def)
    then show ?thesis using True inv keeps_refl by simp
  next
    case False
    from take_out [OF inv heap i] obtain s1 s2 k where s2: "h_Swap h s i ?n = Some s1" "heap_down h s1 i ?n = Some (s2, k)"
      "inv s2" "keeps s s2" "i \<le> k" "mset (items s2) = mset (items s)" "items s2 ! ?n = items s ! i"
      "heap_except lt ?n k (items s2)" "below_ok lt ?n k (items s2)" "k \<noteq> i \<longrightarrow> above_ok lt k (items s2)" by blast
    show ?thesis
    proof (cases "k = i")
      case True
      have "i < ?n" "?n \<le> length (items s2)" using False i mset_eq_length [OF s2(6)] by auto
      from up_ok [OF s2(3) this] s2 True obtain s3 where "heap_up h s2 i = Some s3" "inv s3" "keeps s2 s3"
        "mset (items s3) = mset (items s2)" "is_heap lt ?n (items s3)" "items s3 ! ?n = items s2 ! ?n" by auto
      then show ?thesis using False s2 True keeps_trans [OF s2(4)] by auto
    next
      case k: False
      then have "is_heap lt ?n (items s2)" using s2 is_heap_parts [of ?n "items s2" k] by auto
      then show ?thesis using False k s2 by auto
    qed
  qed
  then obtain s2 where s2: "(if ?n \<noteq> i then do { s \<leftarrow> h_Swap h s i ?n; (s, k) \<leftarrow> heap_down h s i ?n;
      if \<not> i < k then heap_up h s i else Some s } else Some s) = Some s2" "inv s2" "keeps s s2"
      "mset (items s2) = mset (items s)" "items s2 ! ?n = items s ! i" "is_heap lt ?n (items s2)" by blast
  have "heap_Remove h s i = h_Pop h s2" unfolding heap_Remove_def len_law [OF inv] Let_def s2(1) by simp
  with pop_last [OF s2(2,4) ne s2(5,6)] s2(2-4) show ?thesis by auto
qed

end

end
