(* ===== verification/Priority_Queue.thy ===== *)
theory Priority_Queue
  imports Go_Heap Refinement
begin

text \<open>
  The heap of \<^verbatim>\<open>ds/generalheap\<close>, the priority queue of \<^verbatim>\<open>ds/priorityqueue\<close> on it, and the comparisons of
  \<^verbatim>\<open>runtime/timed\<close>. Each method of the queue holds its mutex for the whole body, so a call is one step.
\<close>

section \<open>Definitions\<close>

subsection \<open>The general heap\<close>

type_synonym element_ref = nat

record ('k, 'v) HeapElement =
  he_Value :: 'v
  he_Key :: 'k
  he_index :: int

text \<open>A heap is a slice of pointers to elements; the elements live in the store. A pointer that is not allocated is nil.\<close>

record ('k, 'v) general_heap =
  heap_slice :: "element_ref list"
  he_store :: "element_ref \<rightharpoonup> ('k, 'v) HeapElement"
  he_fresh :: element_ref

definition set_index :: "element_ref \<Rightarrow> int \<Rightarrow> ('k, 'v) general_heap \<Rightarrow> ('k, 'v) general_heap option" where
  "set_index a i s = do {
     el \<leftarrow> he_store s a;
     Some (s\<lparr>he_store := (he_store s)(a \<mapsto> el\<lparr>he_index := i\<rparr>)\<rparr>)
   }"

definition Heap_Len :: "('k, 'v) general_heap \<Rightarrow> nat" where
  "Heap_Len s = length (heap_slice s)"

definition Heap_Less :: "('k \<Rightarrow> 'k \<Rightarrow> int) \<Rightarrow> ('k, 'v) general_heap \<Rightarrow> nat \<Rightarrow> nat \<Rightarrow> bool option" where
  "Heap_Less CompareTo s i j = do {
     a \<leftarrow> slice_index (heap_slice s) (int i);
     b \<leftarrow> slice_index (heap_slice s) (int j);
     ea \<leftarrow> he_store s a;
     eb \<leftarrow> he_store s b;
     Some (CompareTo (he_Key ea) (he_Key eb) < 0)
   }"

definition Heap_Swap :: "('k, 'v) general_heap \<Rightarrow> nat \<Rightarrow> nat \<Rightarrow> ('k, 'v) general_heap option" where
  "Heap_Swap s i j = do {
     a \<leftarrow> slice_index (heap_slice s) (int i);
     b \<leftarrow> slice_index (heap_slice s) (int j);
     let s = s\<lparr>heap_slice := (heap_slice s)[i := b, j := a]\<rparr>;
     s \<leftarrow> set_index (heap_slice s ! i) (int i) s;
     set_index (heap_slice s ! j) (int j) s
   }"

definition Heap_Push :: "('k, 'v) general_heap \<Rightarrow> element_ref \<Rightarrow> ('k, 'v) general_heap option" where
  "Heap_Push s data = do {
     let s = s\<lparr>heap_slice := heap_slice s @ [data]\<rparr>;
     set_index data (int (length (heap_slice s)) - 1) s
   }"

definition Heap_Pop :: "('k, 'v) general_heap \<Rightarrow> (('k, 'v) general_heap \<times> element_ref) option" where
  "Heap_Pop s = do {
     let n = int (length (heap_slice s));
     data \<leftarrow> slice_index (heap_slice s) (n - 1);
     rest \<leftarrow> slice_range (heap_slice s) 0 (n - 1);
     s \<leftarrow> set_index data (- 1) (s\<lparr>heap_slice := rest\<rparr>);
     Some (s, data)
   }"

definition general_Heap :: "('k \<Rightarrow> 'k \<Rightarrow> int) \<Rightarrow> (('k, 'v) general_heap, element_ref) heap_Interface" where
  "general_Heap CompareTo =
     \<lparr>h_Len = Heap_Len, h_Less = Heap_Less CompareTo, h_Swap = Heap_Swap, h_Push = Heap_Push, h_Pop = Heap_Pop\<rparr>"

subsection \<open>The priority queue\<close>

definition PriorityQueue_New :: "('k, 'v) general_heap" where
  "PriorityQueue_New = \<lparr>heap_slice = [], he_store = Map.empty, he_fresh = 0\<rparr>"

text \<open>The result stands for the closure that removes the element again.\<close>

definition PriorityQueue_Push ::
  "('k \<Rightarrow> 'k \<Rightarrow> int) \<Rightarrow> ('k, 'v) general_heap \<Rightarrow> 'v \<Rightarrow> 'k \<Rightarrow> (('k, 'v) general_heap \<times> element_ref) option" where
  "PriorityQueue_Push CompareTo s element priority = do {
     let heapElement = he_fresh s;
     let s = s\<lparr>he_store := (he_store s)(heapElement \<mapsto> \<lparr>he_Value = element, he_Key = priority, he_index = 0\<rparr>),
               he_fresh := heapElement + 1\<rparr>;
     s \<leftarrow> heap_Push (general_Heap CompareTo) s heapElement;
     Some (s, heapElement)
   }"

definition PriorityQueue_remove ::
  "('k \<Rightarrow> 'k \<Rightarrow> int) \<Rightarrow> ('k, 'v) general_heap \<Rightarrow> element_ref \<Rightarrow> ('k, 'v) general_heap option" where
  "PriorityQueue_remove CompareTo s heapElement = do {
     el \<leftarrow> he_store s heapElement;
     if he_index el \<noteq> - 1
     then if he_index el < 0 then None
          else map_option fst (heap_Remove (general_Heap CompareTo) s (nat (he_index el)))
     else Some s
   }"

definition PriorityQueue_Peek :: "'v \<Rightarrow> ('k, 'v) general_heap \<Rightarrow> ('v \<times> bool) option" where
  "PriorityQueue_Peek zero s =
     (if Heap_Len s \<noteq> 0
      then do { a \<leftarrow> slice_index (heap_slice s) 0; el \<leftarrow> he_store s a; Some (he_Value el, True) }
      else Some (zero, False))"

definition PriorityQueue_Pop ::
  "('k \<Rightarrow> 'k \<Rightarrow> int) \<Rightarrow> 'v \<Rightarrow> ('k, 'v) general_heap \<Rightarrow> (('k, 'v) general_heap \<times> 'v \<times> bool) option" where
  "PriorityQueue_Pop CompareTo zero s =
     (if Heap_Len s \<noteq> 0
      then do { (s, a) \<leftarrow> heap_Pop (general_Heap CompareTo) s; el \<leftarrow> he_store s a; Some (s, he_Value el, True) }
      else Some (s, zero, False))"

text \<open>The loop of \<^verbatim>\<open>PopUntil\<close> and \<^verbatim>\<open>PopAll\<close>: pop while the key of the root satisfies the condition.\<close>

partial_function (option) pop_while ::
  "('k \<Rightarrow> 'k \<Rightarrow> int) \<Rightarrow> ('k \<Rightarrow> bool) \<Rightarrow> ('k, 'v) general_heap \<Rightarrow> 'v list \<Rightarrow> (('k, 'v) general_heap \<times> 'v list) option" where
  "pop_while CompareTo cond s values =
     (if Heap_Len s = 0 then Some (s, values)
      else do {
        a \<leftarrow> slice_index (heap_slice s) 0;
        el \<leftarrow> he_store s a;
        if \<not> cond (he_Key el) then Some (s, values)
        else do {
          (s, a) \<leftarrow> heap_Pop (general_Heap CompareTo) s;
          el \<leftarrow> he_store s a;
          pop_while CompareTo cond s (values @ [he_Value el])
        }
      })"

definition PriorityQueue_PopUntil ::
  "('k \<Rightarrow> 'k \<Rightarrow> int) \<Rightarrow> ('k, 'v) general_heap \<Rightarrow> 'k \<Rightarrow> (('k, 'v) general_heap \<times> 'v list) option" where
  "PriorityQueue_PopUntil CompareTo s priority = pop_while CompareTo (\<lambda>k. CompareTo k priority \<le> 0) s []"

definition PriorityQueue_PopAll ::
  "('k \<Rightarrow> 'k \<Rightarrow> int) \<Rightarrow> ('k, 'v) general_heap \<Rightarrow> (('k, 'v) general_heap \<times> 'v list) option" where
  "PriorityQueue_PopAll CompareTo s = pop_while CompareTo (\<lambda>_. True) s []"

definition PriorityQueue_Size :: "('k, 'v) general_heap \<Rightarrow> nat" where
  "PriorityQueue_Size s = Heap_Len s"

definition PriorityQueue_IsEmpty :: "('k, 'v) general_heap \<Rightarrow> bool" where
  "PriorityQueue_IsEmpty s \<longleftrightarrow> Heap_Len s = 0"

text \<open>The comparisons of the \<^verbatim>\<open>timed\<close> package; a time is its number of nanoseconds.\<close>

definition HeapKey_CompareTo :: "int \<Rightarrow> int \<Rightarrow> int" where
  "HeapKey_CompareTo t other = (if t < other then - 1 else if t > other then 1 else 0)"

definition timeAscending_CompareTo :: "int \<Rightarrow> int \<Rightarrow> int" where
  "timeAscending_CompareTo t other = (if t < other then - 1 else if t > other then 1 else 0)"

definition timeDescending_CompareTo :: "int \<Rightarrow> int \<Rightarrow> int" where
  "timeDescending_CompareTo t other = (if t < other then 1 else if t > other then - 1 else 0)"

definition timed_CompareTo :: "bool list \<Rightarrow> int \<Rightarrow> int \<Rightarrow> int" where
  "timed_CompareTo ascending =
     (if (case ascending of [] \<Rightarrow> False | b # _ \<Rightarrow> b) then timeAscending_CompareTo else timeDescending_CompareTo)"

subsection \<open>Calls and specification\<close>

datatype ('k, 'v) pq_op = QPush 'v 'k | QRemove element_ref | QPeek | QPop | QPopUntil 'k | QPopAll | QSize | QIsEmpty

datatype 'v pq_result = QHandle element_ref | QValue 'v bool | QValues "'v list" | QNumber nat | QFlag bool | QNone

text \<open>Only closures that \<^verbatim>\<open>Push\<close> returned can be called.\<close>

fun pq_step ::
  "('k \<Rightarrow> 'k \<Rightarrow> int) \<Rightarrow> 'v \<Rightarrow> ('k, 'v) general_heap \<Rightarrow> ('k, 'v) pq_op \<Rightarrow> (('k, 'v) general_heap \<times> 'v pq_result) option" where
  "pq_step cmp zero s (QPush v k) = map_option (\<lambda>(s, a). (s, QHandle a)) (PriorityQueue_Push cmp s v k)"
| "pq_step cmp zero s (QRemove a) =
     (if he_store s a = None then Some (s, QNone) else map_option (\<lambda>s. (s, QNone)) (PriorityQueue_remove cmp s a))"
| "pq_step cmp zero s QPeek = map_option (\<lambda>(v, ok). (s, QValue v ok)) (PriorityQueue_Peek zero s)"
| "pq_step cmp zero s QPop = map_option (\<lambda>(s, v, ok). (s, QValue v ok)) (PriorityQueue_Pop cmp zero s)"
| "pq_step cmp zero s (QPopUntil k) = map_option (\<lambda>(s, vs). (s, QValues vs)) (PriorityQueue_PopUntil cmp s k)"
| "pq_step cmp zero s QPopAll = map_option (\<lambda>(s, vs). (s, QValues vs)) (PriorityQueue_PopAll cmp s)"
| "pq_step cmp zero s QSize = Some (s, QNumber (PriorityQueue_Size s))"
| "pq_step cmp zero s QIsEmpty = Some (s, QFlag (PriorityQueue_IsEmpty s))"

definition good_compare :: "('k \<Rightarrow> 'k \<Rightarrow> int) \<Rightarrow> bool" where
  "good_compare cmp \<longleftrightarrow> (\<forall>a b. cmp a b < 0 \<longleftrightarrow> 0 < cmp b a) \<and> (\<forall>a b c. cmp a b \<le> 0 \<longrightarrow> cmp b c \<le> 0 \<longrightarrow> cmp a c \<le> 0)"

text \<open>The specification: the queued entries by name, and the next free name. Among equal priorities any entry may come
  first.\<close>

type_synonym ('k, 'v) queued = "element_ref \<rightharpoonup> 'k \<times> 'v"

definition first_served :: "('k \<Rightarrow> 'k \<Rightarrow> int) \<Rightarrow> ('k, 'v) queued \<Rightarrow> element_ref \<Rightarrow> 'v \<Rightarrow> bool" where
  "first_served cmp A a v \<longleftrightarrow> (\<exists>k. A a = Some (k, v) \<and> (\<forall>b k' v'. A b = Some (k', v') \<longrightarrow> cmp k k' \<le> 0))"

definition served_in_order :: "('k \<Rightarrow> 'k \<Rightarrow> int) \<Rightarrow> ('k \<Rightarrow> bool) \<Rightarrow> ('k, 'v) queued \<Rightarrow> 'v list \<Rightarrow> ('k, 'v) queued \<Rightarrow> bool" where
  "served_in_order cmp cond A vs A' \<longleftrightarrow>
     (\<exists>as. distinct as \<and> set as = {a. \<exists>k v. A a = Some (k, v) \<and> cond k} \<and>
        sorted_wrt (\<lambda>a b. cmp (fst (the (A a))) (fst (the (A b))) \<le> 0) as \<and>
        vs = map (\<lambda>a. snd (the (A a))) as \<and> A' = A |` (- set as))"

fun pq_allows ::
  "('k \<Rightarrow> 'k \<Rightarrow> int) \<Rightarrow> 'v \<Rightarrow> element_ref \<times> ('k, 'v) queued \<Rightarrow> ('k, 'v) pq_op \<Rightarrow> element_ref \<times> ('k, 'v) queued
     \<Rightarrow> 'v pq_result \<Rightarrow> bool" where
  "pq_allows cmp zero (n, A) (QPush v k) (n', A') r \<longleftrightarrow> n' = n + 1 \<and> A' = A(n \<mapsto> (k, v)) \<and> r = QHandle n"
| "pq_allows cmp zero (n, A) (QRemove a) (n', A') r \<longleftrightarrow> n' = n \<and> A' = A(a := None) \<and> r = QNone"
| "pq_allows cmp zero (n, A) QPeek (n', A') r \<longleftrightarrow> n' = n \<and> A' = A \<and>
     (if A = Map.empty then r = QValue zero False else \<exists>a v. first_served cmp A a v \<and> r = QValue v True)"
| "pq_allows cmp zero (n, A) QPop (n', A') r \<longleftrightarrow> n' = n \<and>
     (if A = Map.empty then A' = A \<and> r = QValue zero False
      else \<exists>a v. first_served cmp A a v \<and> r = QValue v True \<and> A' = A(a := None))"
| "pq_allows cmp zero (n, A) (QPopUntil p) (n', A') r \<longleftrightarrow> n' = n \<and>
     (\<exists>vs. served_in_order cmp (\<lambda>k. cmp k p \<le> 0) A vs A' \<and> r = QValues vs)"
| "pq_allows cmp zero (n, A) QPopAll (n', A') r \<longleftrightarrow> n' = n \<and>
     (\<exists>vs. served_in_order cmp (\<lambda>_. True) A vs A' \<and> r = QValues vs)"
| "pq_allows cmp zero (n, A) QSize (n', A') r \<longleftrightarrow> n' = n \<and> A' = A \<and> r = QNumber (card (dom A))"
| "pq_allows cmp zero (n, A) QIsEmpty (n', A') r \<longleftrightarrow> n' = n \<and> A' = A \<and> r = QFlag (A = Map.empty)"

definition heap_items :: "('k, 'v) general_heap \<Rightarrow> (element_ref \<times> 'k \<times> 'v) list" where
  "heap_items s = map (\<lambda>a. let el = the (he_store s a) in (a, he_Key el, he_Value el)) (heap_slice s)"

definition item_lt :: "('k \<Rightarrow> 'k \<Rightarrow> int) \<Rightarrow> element_ref \<times> 'k \<times> 'v \<Rightarrow> element_ref \<times> 'k \<times> 'v \<Rightarrow> bool" where
  "item_lt cmp x y \<longleftrightarrow> good_compare cmp \<and> cmp (fst (snd x)) (fst (snd y)) < 0"

definition indexed :: "('k, 'v) general_heap \<Rightarrow> bool" where
  "indexed s \<longleftrightarrow> distinct (heap_slice s) \<and>
     (\<forall>i < length (heap_slice s). \<exists>el. he_store s (heap_slice s ! i) = Some el \<and> he_index el = int i)"

definition heap_keeps :: "('k, 'v) general_heap \<Rightarrow> ('k, 'v) general_heap \<Rightarrow> bool" where
  "heap_keeps s s' \<longleftrightarrow> set (heap_slice s') = set (heap_slice s) \<and> he_fresh s' = he_fresh s \<and>
     (\<forall>a. a \<notin> set (heap_slice s) \<longrightarrow> he_store s' a = he_store s a)"

definition pq_inv :: "('k \<Rightarrow> 'k \<Rightarrow> int) \<Rightarrow> ('k, 'v) general_heap \<Rightarrow> bool" where
  "pq_inv cmp s \<longleftrightarrow> indexed s \<and> is_heap (item_lt cmp) (length (heap_items s)) (heap_items s) \<and>
     (\<forall>a el. he_store s a = Some el \<longrightarrow> a \<notin> set (heap_slice s) \<longrightarrow> he_index el = - 1) \<and>
     (\<forall>a. he_fresh s \<le> a \<longrightarrow> he_store s a = None)"

definition pq_queued :: "('k, 'v) general_heap \<Rightarrow> ('k, 'v) queued" where
  "pq_queued s = map_of (heap_items s)"

definition pq_rel :: "('k \<Rightarrow> 'k \<Rightarrow> int) \<Rightarrow> ('k, 'v) general_heap \<Rightarrow> element_ref \<times> ('k, 'v) queued \<Rightarrow> bool" where
  "pq_rel cmp s nA \<longleftrightarrow> good_compare cmp \<and> pq_inv cmp s \<and> nA = (he_fresh s, pq_queued s)"

section \<open>Lemmas\<close>

subsection \<open>The general heap keeps the contract\<close>

lemma length_heap_items [simp]: "length (heap_items s) = length (heap_slice s)"
  by (simp add: heap_items_def)

lemma heap_items_nth: "i < length (heap_slice s) \<Longrightarrow> he_store s (heap_slice s ! i) = Some el \<Longrightarrow>
    heap_items s ! i = (heap_slice s ! i, he_Key el, he_Value el)"
  by (simp add: heap_items_def)

lemma map_fst_heap_items [simp]: "map fst (heap_items s) = heap_slice s"
  by (simp add: heap_items_def Let_def comp_def)

lemma heap_items_store:
  assumes "heap_slice s' = sl" and "\<And>a. a \<in> set sl \<Longrightarrow> map_option (\<lambda>el. (he_Key el, he_Value el)) (he_store s' a) =
      map_option (\<lambda>el. (he_Key el, he_Value el)) (he_store s a)" and "\<And>a. a \<in> set sl \<Longrightarrow> he_store s a \<noteq> None"
  shows "heap_items s' = map (\<lambda>a. let el = the (he_store s a) in (a, he_Key el, he_Value el)) sl"
  unfolding heap_items_def assms(1)
proof (rule map_cong [OF refl])
  fix a assume "a \<in> set sl"
  with assms(2,3) [of a] show "(let el = the (he_store s' a) in (a, he_Key el, he_Value el)) =
      (let el = the (he_store s a) in (a, he_Key el, he_Value el))"
    by (cases "he_store s' a"; cases "he_store s a") (auto simp: Let_def)
qed

lemma indexedD: "indexed s \<Longrightarrow> a \<in> set (heap_slice s) \<Longrightarrow> \<exists>el i. he_store s a = Some el \<and> he_index el = int i \<and>
    i < length (heap_slice s) \<and> heap_slice s ! i = a"
  unfolding indexed_def by (metis in_set_conv_nth)

lemma item_lt_order: "weak_order (item_lt cmp)"
proof
  fix a b c :: "element_ref \<times> 'a \<times> 'b"
  show "item_lt cmp a b \<Longrightarrow> \<not> item_lt cmp b a" unfolding item_lt_def good_compare_def by fastforce
  show "\<not> item_lt cmp a b \<Longrightarrow> \<not> item_lt cmp b c \<Longrightarrow> \<not> item_lt cmp a c" unfolding item_lt_def good_compare_def by (meson not_le)
qed

lemma Heap_Swap_ok:
  assumes ix: "indexed s" and i: "i < length (heap_slice s)" and j: "j < length (heap_slice s)"
  shows "\<exists>s'. Heap_Swap s i j = Some s' \<and> indexed s' \<and> heap_items s' = swapped (heap_items s) i j \<and> heap_keeps s s'"
proof -
  let ?sl = "heap_slice s" and ?a = "heap_slice s ! i" and ?b = "heap_slice s ! j"
  obtain ea eb where el: "he_store s ?a = Some ea" "he_store s ?b = Some eb" using ix i j unfolding indexed_def by blast
  have dist: "distinct ?sl" using ix by (simp add: indexed_def)
  have at: "?sl[i := ?b, j := ?a] ! i = ?b" "?sl[i := ?b, j := ?a] ! j = ?a" using i j by (auto simp: nth_list_update)
  have ab: "?a = ?b \<longleftrightarrow> i = j" using nth_eq_iff_index_eq [OF dist i j] .
  define st where "st = (he_store s)(?b \<mapsto> eb\<lparr>he_index := int i\<rparr>)"
  define st' where "st' = st(?a \<mapsto> (the (st ?a))\<lparr>he_index := int j\<rparr>)"
  define s' where "s' = s\<lparr>heap_slice := ?sl[i := ?b, j := ?a], he_store := st'\<rparr>"
  have run: "Heap_Swap s i j = Some s'"
    using i j el at ab by (simp add: Heap_Swap_def set_index_def s'_def st'_def st_def)
  have sets: "set (?sl[i := ?b, j := ?a]) = set ?sl" using i j by (simp add: set_swap)
  have kv: "map_option (\<lambda>el. (he_Key el, he_Value el)) (he_store s' a) = map_option (\<lambda>el. (he_Key el, he_Value el)) (he_store s a)" for a
    using el ab by (auto simp: s'_def st'_def st_def)
  have "heap_items s' = map (\<lambda>a. let el = the (he_store s a) in (a, he_Key el, he_Value el)) (?sl[i := ?b, j := ?a])"
    using indexedD [OF ix] sets by (intro heap_items_store kv) (auto simp: s'_def)
  then have items: "heap_items s' = swapped (heap_items s) i j"
    using i j by (simp add: swapped_def heap_items_def map_update)
  have "\<exists>el. st' (?sl[i := ?b, j := ?a] ! k) = Some el \<and> he_index el = int k" if k: "k < length ?sl" for k
  proof -
    obtain ek where "he_store s (?sl ! k) = Some ek" "he_index ek = int k" using ix k unfolding indexed_def by blast
    then show ?thesis using el ab i j k nth_eq_iff_index_eq [OF dist k i] nth_eq_iff_index_eq [OF dist k j]
      by (auto simp: st'_def st_def nth_list_update)
  qed
  then have "indexed s'" using dist i j by (simp add: indexed_def s'_def distinct_swap)
  moreover have "heap_keeps s s'" using sets i j by (auto simp: heap_keeps_def s'_def st'_def st_def)
  ultimately show ?thesis using run items by blast
qed

lemma Heap_Push_ok:
  assumes ix: "indexed s" and a: "a \<notin> set (heap_slice s)" "he_store s a = Some el"
  shows "\<exists>s'. Heap_Push s a = Some s' \<and> indexed s' \<and> heap_items s' = heap_items s @ [(a, he_Key el, he_Value el)] \<and>
    heap_slice s' = heap_slice s @ [a] \<and> he_fresh s' = he_fresh s \<and> (\<forall>b. b \<noteq> a \<longrightarrow> he_store s' b = he_store s b)"
proof -
  define s' where "s' = s\<lparr>heap_slice := heap_slice s @ [a], he_store := (he_store s)(a \<mapsto> el\<lparr>he_index := int (length (heap_slice s))\<rparr>)\<rparr>"
  have "Heap_Push s a = Some s'" using a by (simp add: Heap_Push_def set_index_def s'_def)
  moreover have "indexed s'" using ix a by (auto simp: indexed_def s'_def nth_append less_Suc_eq)
  moreover have "heap_items s' = heap_items s @ [(a, he_Key el, he_Value el)]"
    using a(1) by (auto simp: heap_items_def s'_def Let_def)
  ultimately show ?thesis by (auto simp: s'_def)
qed

lemma Heap_Pop_ok:
  assumes ix: "indexed s" and ne: "heap_slice s \<noteq> []"
  shows "\<exists>s' el. Heap_Pop s = Some (s', last (heap_slice s)) \<and> indexed s' \<and> heap_items s' = butlast (heap_items s) \<and>
    heap_slice s' = butlast (heap_slice s) \<and> he_fresh s' = he_fresh s \<and> he_store s (last (heap_slice s)) = Some el \<and>
    he_store s' = (he_store s)(last (heap_slice s) \<mapsto> el\<lparr>he_index := - 1\<rparr>)"
proof -
  obtain xs a where sl: "heap_slice s = xs @ [a]" using ne by (metis rev_exhaust)
  obtain el where el: "he_store s a = Some el" using indexedD [OF ix, of a] sl by auto
  have a: "a \<notin> set xs" using ix sl by (simp add: indexed_def)
  define s' where "s' = s\<lparr>heap_slice := xs, he_store := (he_store s)(a \<mapsto> el\<lparr>he_index := - 1\<rparr>)\<rparr>"
  have "Heap_Pop s = Some (s', a)"
    using el by (simp add: Heap_Pop_def sl slice_index_def slice_range_def set_index_def s'_def nat_add_distrib)
  moreover have "indexed s'"
    unfolding indexed_def
  proof (intro conjI allI impI)
    fix i assume i: "i < length (heap_slice s')"
    have "i < length xs" using i by (simp add: s'_def)
    moreover from this have "\<exists>el. he_store s ((xs @ [a]) ! i) = Some el \<and> he_index el = int i"
      using ix by (simp add: indexed_def sl)
    ultimately obtain ei where "he_store s (xs ! i) = Some ei" "he_index ei = int i" by (auto simp: nth_append)
    moreover have "xs ! i \<noteq> a" using a i by (auto simp: s'_def)
    ultimately show "\<exists>el. he_store s' (heap_slice s' ! i) = Some el \<and> he_index el = int i" by (auto simp: s'_def)
  qed (use ix sl in \<open>simp add: indexed_def s'_def\<close>)
  moreover have "heap_items s' = butlast (heap_items s)" using a by (auto simp: heap_items_def s'_def sl Let_def)
  ultimately show ?thesis using sl el by (auto simp: s'_def)
qed

lemma heap_items_Nil [simp]: "heap_items s = [] \<longleftrightarrow> heap_slice s = []"
  by (simp add: heap_items_def)

lemma Heap_Less_ok:
  assumes "indexed s" and "i < length (heap_slice s)" and "j < length (heap_slice s)"
  shows "Heap_Less cmp s i j = Some (cmp (fst (snd (heap_items s ! i))) (fst (snd (heap_items s ! j))) < 0)"
proof -
  obtain ea eb where "he_store s (heap_slice s ! i) = Some ea" "he_store s (heap_slice s ! j) = Some eb"
    using assms unfolding indexed_def by blast
  then show ?thesis using assms by (simp add: Heap_Less_def heap_items_nth)
qed

interpretation general_heap: heap_contract "item_lt cmp" "general_Heap cmp" heap_items
  "\<lambda>s. good_compare cmp \<and> indexed s" heap_keeps "\<lambda>s a. a \<notin> set (heap_slice s) \<and> he_store s a \<noteq> None"
  "\<lambda>s a. let el = the (he_store s a) in (a, he_Key el, he_Value el)" fst
proof (intro heap_contract.intro item_lt_order heap_contract_axioms.intro)
  fix s s' s'' :: "('a, 'b) general_heap" and i j a
  show "heap_keeps s s" by (simp add: heap_keeps_def)
  show "heap_keeps s s' \<Longrightarrow> heap_keeps s' s'' \<Longrightarrow> heap_keeps s s''" by (simp add: heap_keeps_def)
  assume inv: "good_compare cmp \<and> indexed s"
  show "h_Len (general_Heap cmp) s = length (heap_items s)" by (simp add: general_Heap_def Heap_Len_def)
  show "i < length (heap_items s) \<Longrightarrow> j < length (heap_items s) \<Longrightarrow>
      h_Less (general_Heap cmp) s i j = Some (item_lt cmp (heap_items s ! i) (heap_items s ! j))"
    using inv Heap_Less_ok [of s i j cmp] by (simp add: general_Heap_def item_lt_def)
  show "i < length (heap_items s) \<Longrightarrow> j < length (heap_items s) \<Longrightarrow>
      \<exists>s'. h_Swap (general_Heap cmp) s i j = Some s' \<and> (good_compare cmp \<and> indexed s') \<and>
        heap_items s' = swapped (heap_items s) i j \<and> heap_keeps s s'"
    using Heap_Swap_ok [of s i j] inv by (simp add: general_Heap_def)
  show "a \<notin> set (heap_slice s) \<and> he_store s a \<noteq> None \<Longrightarrow>
      \<exists>s'. h_Push (general_Heap cmp) s a = Some s' \<and> (good_compare cmp \<and> indexed s') \<and>
        heap_items s' = heap_items s @ [let el = the (he_store s a) in (a, he_Key el, he_Value el)]"
    using Heap_Push_ok [of s a] inv by (auto simp: general_Heap_def Let_def)
  show "heap_items s \<noteq> [] \<Longrightarrow> \<exists>s'. h_Pop (general_Heap cmp) s = Some (s', fst (last (heap_items s))) \<and>
      (good_compare cmp \<and> indexed s') \<and> heap_items s' = butlast (heap_items s)"
    using Heap_Pop_ok [of s] inv last_map [of "heap_items s" fst] by (auto simp: general_Heap_def)
qed

subsection \<open>The priority queue\<close>

lemma map_of_mset:
  assumes "mset xs = mset ys" and "distinct (map fst xs)"
  shows "map_of xs = map_of ys"
proof -
  have "set xs = set ys" using assms(1) by (rule mset_eq_setD)
  moreover have "distinct (map fst ys)" using assms by (metis mset_eq_imp_distinct_iff mset_map)
  ultimately show ?thesis using assms(2) map_of_inject_set by blast
qed

lemma distinct_heap_items: "indexed s \<Longrightarrow> distinct (map fst (heap_items s))"
  by (simp add: indexed_def)

lemma pq_queued_Some: "indexed s \<Longrightarrow> pq_queued s a = Some (k, v) \<longleftrightarrow> (a, k, v) \<in> set (heap_items s)"
  unfolding pq_queued_def using distinct_heap_items by (rule map_of_eq_Some_iff)

lemma dom_pq_queued: "dom (pq_queued s) = set (heap_slice s)"
  unfolding pq_queued_def dom_map_of_conv_image_fst by (metis list.set_map map_fst_heap_items)

lemma PriorityQueue_Push_ok:
  assumes good: "good_compare cmp" and inv: "pq_inv cmp s"
  shows "\<exists>s'. PriorityQueue_Push cmp s v k = Some (s', he_fresh s) \<and> pq_inv cmp s' \<and> he_fresh s' = he_fresh s + 1 \<and>
    pq_queued s' = (pq_queued s)(he_fresh s \<mapsto> (k, v))"
proof -
  let ?f = "he_fresh s" and ?el = "\<lparr>he_Value = v, he_Key = k, he_index = 0\<rparr>"
  define s0 where "s0 = s\<lparr>he_store := (he_store s)(?f \<mapsto> ?el), he_fresh := ?f + 1\<rparr>"
  have ix: "indexed s" and none: "he_store s ?f = None" using inv by (simp_all add: pq_inv_def)
  have f: "?f \<notin> set (heap_slice s)" using indexedD [OF ix, of ?f] none by auto
  have ix0: "indexed s0"
    using ix f unfolding indexed_def s0_def by (auto simp: in_set_conv_nth)
  have items0: "heap_items s0 = heap_items s" using f by (auto simp: heap_items_def s0_def)
  have can: "?f \<notin> set (heap_slice s0) \<and> he_store s0 ?f \<noteq> None" using f by (simp add: s0_def)
  have heap0: "is_heap (item_lt cmp) (length (heap_items s0)) (heap_items s0)" using inv items0 by (simp add: pq_inv_def)
  obtain s1 s' where s': "h_Push (general_Heap cmp) s0 ?f = Some s1" "heap_Push (general_Heap cmp) s0 ?f = Some s'"
      "heap_keeps s1 s'" "indexed s'" "mset (heap_items s') = add_mset (?f, k, v) (mset (heap_items s))"
      "is_heap (item_lt cmp) (length (heap_items s')) (heap_items s')"
    using general_heap.heap_Push_ok [OF _ can heap0] good ix0 items0 by (auto simp: s0_def)
  obtain s1' where "Heap_Push s0 ?f = Some s1'" "heap_slice s1' = heap_slice s0 @ [?f]" "he_fresh s1' = he_fresh s0"
      "\<forall>b. b \<noteq> ?f \<longrightarrow> he_store s1' b = he_store s0 b"
    using Heap_Push_ok [OF ix0, of ?f ?el] f by (auto simp: s0_def)
  then have s1: "heap_slice s1 = heap_slice s @ [?f]" "he_fresh s1 = ?f + 1" "\<And>b. b \<noteq> ?f \<Longrightarrow> he_store s1 b = he_store s b"
    using s'(1) by (auto simp: general_Heap_def s0_def)
  have out: "b \<noteq> ?f \<and> b \<notin> set (heap_slice s) \<and> he_store s' b = he_store s b" if "b \<notin> set (heap_slice s')" for b
    using that s'(3) s1 by (auto simp: heap_keeps_def)
  have "pq_inv cmp s'"
    unfolding pq_inv_def
  proof (intro conjI allI impI)
    fix a el assume "he_store s' a = Some el" "a \<notin> set (heap_slice s')"
    then show "he_index el = - 1" using out [of a] inv by (auto simp: pq_inv_def)
  next
    fix a assume a: "he_fresh s' \<le> a"
    then have "?f < a" using s'(3) s1(2) by (simp add: heap_keeps_def)
    then have "he_store s a = None" "a \<notin> set (heap_slice s)" using inv indexedD [OF ix, of a] by (auto simp: pq_inv_def)
    moreover have "a \<notin> set (heap_slice s')" using s'(3) s1(1) calculation \<open>?f < a\<close> by (simp add: heap_keeps_def)
    ultimately show "he_store s' a = None" using out by simp
  qed (use s'(4,6) in simp_all)
  moreover have "pq_queued s' = (pq_queued s)(?f \<mapsto> (k, v))"
    unfolding pq_queued_def using map_of_mset [of "heap_items s'" "(?f, k, v) # heap_items s"] s'(5) distinct_heap_items [OF s'(4)]
    by simp
  moreover have "PriorityQueue_Push cmp s v k = Some (s', ?f)" using s'(2) by (simp add: PriorityQueue_Push_def s0_def)
  moreover have "he_fresh s' = ?f + 1" using s'(3) s1(2) by (simp add: heap_keeps_def)
  ultimately show ?thesis by blast
qed

lemma distinct_fst_eq: "distinct (map fst xs) \<Longrightarrow> x \<in> set xs \<Longrightarrow> y \<in> set xs \<Longrightarrow> fst x = fst y \<Longrightarrow> x = y"
  by (metis eq_key_imp_eq_value prod.collapse)

lemma pq_taken:
  assumes inv: "pq_inv cmp s" and keeps: "heap_keeps s s2" and ix2: "indexed s2" and ms2: "mset (heap_items s2) = mset (heap_items s)"
    and pop: "Heap_Pop s2 = Some (s', fst x)" and ix': "indexed s'"
    and ms: "mset (heap_items s) = add_mset x (mset (heap_items s'))" and heap: "is_heap (item_lt cmp) (length (heap_items s')) (heap_items s')"
  shows "pq_inv cmp s' \<and> he_fresh s' = he_fresh s \<and> pq_queued s' = (pq_queued s)(fst x := None) \<and>
    length (heap_slice s') < length (heap_slice s) \<and> (\<exists>el. he_store s' (fst x) = Some el \<and> he_Value el = snd (snd x))"
proof -
  let ?a = "fst x"
  have ix: "indexed s" using inv by (simp add: pq_inv_def)
  have len: "length (heap_slice s2) = Suc (length (heap_slice s'))" "length (heap_slice s) = Suc (length (heap_slice s'))"
    using arg_cong [OF ms2, of size] arg_cong [OF ms, of size] by simp_all
  then have ne: "heap_slice s2 \<noteq> []" by auto
  from Heap_Pop_ok [OF ix2 ne] pop obtain el where el: "last (heap_slice s2) = ?a" "heap_slice s' = butlast (heap_slice s2)"
      "he_fresh s' = he_fresh s2" "he_store s2 ?a = Some el" "he_store s' = (he_store s2)(?a \<mapsto> el\<lparr>he_index := - 1\<rparr>)"
    by auto
  have sl: "set (heap_slice s2) = set (heap_slice s)" "heap_slice s2 = heap_slice s' @ [?a]"
    using keeps el(1,2) ne append_butlast_last_id [of "heap_slice s2"] by (auto simp: heap_keeps_def)
  have x: "x \<in> set (heap_items s2)" using ms ms2 by (metis union_single_eq_member set_mset_mset)
  have "(?a, he_Key el, he_Value el) \<in> set (heap_items s2)" using sl(2) el(4) by (auto simp: heap_items_def Let_def)
  then have "x = (?a, he_Key el, he_Value el)" using distinct_fst_eq [OF distinct_heap_items [OF ix2] x] by simp
  then have val: "snd (snd x) = he_Value el" by (metis snd_conv)
  have "pq_inv cmp s'"
    unfolding pq_inv_def
  proof (intro conjI allI impI)
    fix b eb assume b: "he_store s' b = Some eb" "b \<notin> set (heap_slice s')"
    show "he_index eb = - 1"
    proof (cases "b = ?a")
      case False
      then have "b \<notin> set (heap_slice s2)" using b(2) sl(2) by simp
      then show ?thesis using b(1) el(5) False keeps inv sl(1) by (auto simp: heap_keeps_def pq_inv_def)
    qed (use b el(5) in auto)
  next
    fix b assume "he_fresh s' \<le> b"
    then have "he_store s b = None" using el(3) keeps inv by (simp add: heap_keeps_def pq_inv_def)
    moreover then have "b \<notin> set (heap_slice s)" using indexedD [OF ix, of b] by auto
    moreover then have "b \<noteq> ?a" using sl by auto
    ultimately show "he_store s' b = None" using el(5) keeps by (simp add: heap_keeps_def)
  qed (use ix' heap in simp_all)
  moreover have "pq_queued s = (pq_queued s')(?a \<mapsto> snd x)"
    unfolding pq_queued_def using map_of_mset [of "heap_items s" "x # heap_items s'"] ms distinct_heap_items [OF ix] by simp
  moreover have "pq_queued s' ?a = None" using sl(2) ix2 dom_pq_queued [of s'] by (auto simp: indexed_def domIff)
  ultimately show ?thesis using el keeps len val by (auto simp: heap_keeps_def fun_upd_idem)
qed

lemma root_served:
  assumes good: "good_compare cmp" and inv: "pq_inv cmp s" and ne: "heap_slice s \<noteq> []"
  obtains k v el where "heap_items s ! 0 = (heap_slice s ! 0, k, v)" "he_store s (heap_slice s ! 0) = Some el" "he_Key el = k" "he_Value el = v"
    "pq_queued s (heap_slice s ! 0) = Some (k, v)" "first_served cmp (pq_queued s) (heap_slice s ! 0) v"
proof -
  have ix: "indexed s" using inv by (simp add: pq_inv_def)
  have 0: "0 < length (heap_slice s)" using ne by simp
  obtain el where el: "he_store s (heap_slice s ! 0) = Some el" using ix 0 unfolding indexed_def by blast
  let ?k = "he_Key el" and ?v = "he_Value el"
  have item: "heap_items s ! 0 = (heap_slice s ! 0, ?k, ?v)" using heap_items_nth [OF 0 el] .
  then have q: "pq_queued s (heap_slice s ! 0) = Some (?k, ?v)"
    using 0 pq_queued_Some [OF ix] by (metis length_heap_items nth_mem)
  have "cmp ?k k' \<le> 0" if "pq_queued s b = Some (k', v')" for b k' v'
  proof -
    have "(b, k', v') \<in> set (heap_items s)" using that pq_queued_Some [OF ix] by simp
    then obtain i where "i < length (heap_items s)" "heap_items s ! i = (b, k', v')" by (metis in_set_conv_nth)
    then have "\<not> item_lt cmp (b, k', v') (heap_slice s ! 0, ?k, ?v)"
      using general_heap.heap_root_least [of cmp "length (heap_items s)" "heap_items s" i] inv item by (simp add: pq_inv_def)
    then show ?thesis using good unfolding item_lt_def good_compare_def by (auto simp: not_less)
  qed
  then show thesis using that item el q unfolding first_served_def by blast
qed

lemma pq_pop:
  assumes good: "good_compare cmp" and inv: "pq_inv cmp s" and ne: "heap_slice s \<noteq> []"
  shows "\<exists>s' el. heap_Pop (general_Heap cmp) s = Some (s', heap_slice s ! 0) \<and> pq_inv cmp s' \<and> he_fresh s' = he_fresh s \<and>
    pq_queued s' = (pq_queued s)(heap_slice s ! 0 := None) \<and> length (heap_slice s') < length (heap_slice s) \<and>
    he_store s' (heap_slice s ! 0) = Some el \<and> he_Value el = snd (the (pq_queued s (heap_slice s ! 0)))"
proof -
  obtain k v where root: "heap_items s ! 0 = (heap_slice s ! 0, k, v)" "pq_queued s (heap_slice s ! 0) = Some (k, v)"
    by (rule root_served [OF good inv ne])
  have gi: "good_compare cmp \<and> indexed s" using good inv by (simp add: pq_inv_def)
  have heap: "is_heap (item_lt cmp) (length (heap_items s)) (heap_items s)" using inv by (simp add: pq_inv_def)
  have ne': "heap_items s \<noteq> []" using ne by simp
  from general_heap.heap_Pop_ok [OF gi heap ne'] obtain s2 s' where s': "heap_Pop (general_Heap cmp) s = Some (s', fst (heap_items s ! 0))"
      "heap_keeps s s2" "indexed s2" "mset (heap_items s2) = mset (heap_items s)" "h_Pop (general_Heap cmp) s2 = Some (s', fst (heap_items s ! 0))"
      "indexed s'" "mset (heap_items s) = add_mset (heap_items s ! 0) (mset (heap_items s'))"
      "is_heap (item_lt cmp) (length (heap_items s')) (heap_items s')" by blast
  have "Heap_Pop s2 = Some (s', fst (heap_items s ! 0))" using s'(5) by (simp add: general_Heap_def)
  from pq_taken [OF inv s'(2-4) this s'(6-8)] s'(1) root show ?thesis by auto
qed

lemma PriorityQueue_remove_ok:
  assumes good: "good_compare cmp" and inv: "pq_inv cmp s" and a: "he_store s a \<noteq> None"
  shows "\<exists>s'. PriorityQueue_remove cmp s a = Some s' \<and> pq_inv cmp s' \<and> he_fresh s' = he_fresh s \<and>
    pq_queued s' = (pq_queued s)(a := None)"
proof (cases "a \<in> set (heap_slice s)")
  case True
  have ix: "indexed s" using inv by (simp add: pq_inv_def)
  from indexedD [OF ix True] obtain el i where el: "he_store s a = Some el" "he_index el = int i" "i < length (heap_slice s)"
      "heap_slice s ! i = a" by blast
  then have item: "fst (heap_items s ! i) = a" by (simp add: heap_items_nth)
  have gi: "good_compare cmp \<and> indexed s" using good ix by simp
  have heap: "is_heap (item_lt cmp) (length (heap_items s)) (heap_items s)" using inv by (simp add: pq_inv_def)
  have i: "i < length (heap_items s)" using el(3) by simp
  from general_heap.heap_Remove_ok [OF gi heap i] obtain s2 s' where s': "heap_Remove (general_Heap cmp) s i = Some (s', fst (heap_items s ! i))"
      "heap_keeps s s2" "indexed s2" "mset (heap_items s2) = mset (heap_items s)" "h_Pop (general_Heap cmp) s2 = Some (s', fst (heap_items s ! i))"
      "indexed s'" "mset (heap_items s) = add_mset (heap_items s ! i) (mset (heap_items s'))"
      "is_heap (item_lt cmp) (length (heap_items s')) (heap_items s')" by blast
  have "Heap_Pop s2 = Some (s', fst (heap_items s ! i))" using s'(5) by (simp add: general_Heap_def)
  from pq_taken [OF inv s'(2-4) this s'(6-8)] s'(1) item el show ?thesis by (auto simp: PriorityQueue_remove_def)
next
  case False
  then have "pq_queued s a = None" using dom_pq_queued [of s] by (auto simp: domIff)
  then show ?thesis using False inv a by (auto simp: PriorityQueue_remove_def pq_inv_def fun_upd_idem)
qed

lemma served_Cons:
  assumes first: "first_served cmp A a v" and c: "\<And>k. A a = Some (k, v) \<Longrightarrow> cond k"
    and rest: "served_in_order cmp cond (A(a := None)) vs A'"
  shows "served_in_order cmp cond A (v # vs) A'"
proof -
  obtain k where k: "A a = Some (k, v)" "\<And>b k' v'. A b = Some (k', v') \<Longrightarrow> cmp k k' \<le> 0" using first unfolding first_served_def by blast
  obtain as where as: "distinct as" "set as = {x. \<exists>k v. (A(a := None)) x = Some (k, v) \<and> cond k}"
      "sorted_wrt (\<lambda>x y. cmp (fst (the ((A(a := None)) x))) (fst (the ((A(a := None)) y))) \<le> 0) as"
      "vs = map (\<lambda>x. snd (the ((A(a := None)) x))) as" "A' = (A(a := None)) |` (- set as)"
    using rest unfolding served_in_order_def by blast
  have a: "a \<notin> set as" using as(2) by simp
  have "sorted_wrt (\<lambda>x y. cmp (fst (the (A x))) (fst (the (A y))) \<le> 0) as"
    by (rule sorted_wrt_mono_rel [OF _ as(3)]) (use a in \<open>auto split: if_splits\<close>)
  moreover have "cmp (fst (the (A a))) (fst (the (A y))) \<le> 0" if "y \<in> set as" for y
    using that as(2) k by (auto split: if_splits)
  moreover have "set (a # as) = {x. \<exists>k v. A x = Some (k, v) \<and> cond k}"
    using as(2) k(1) c by auto
  moreover have "v # vs = map (\<lambda>x. snd (the (A x))) (a # as)" using as(4) a k(1) by auto
  moreover have "A' = A |` (- set (a # as))" using as(5) by (auto simp: restrict_map_def fun_eq_iff)
  ultimately show ?thesis using as(1) a unfolding served_in_order_def by (intro exI [of _ "a # as"]) simp
qed

lemma served_Nil: "(\<And>a k v. A a = Some (k, v) \<Longrightarrow> \<not> cond k) \<Longrightarrow> served_in_order cmp cond A [] A"
  unfolding served_in_order_def by (intro exI [of _ "[]"]) auto

lemma pop_while_ok:
  assumes good: "good_compare cmp" and down: "\<And>k k'. cmp k k' \<le> 0 \<Longrightarrow> cond k' \<Longrightarrow> cond k"
  shows "pq_inv cmp s \<Longrightarrow> \<exists>s' ws. pop_while cmp cond s vs = Some (s', vs @ ws) \<and> pq_inv cmp s' \<and> he_fresh s' = he_fresh s \<and>
    served_in_order cmp cond (pq_queued s) ws (pq_queued s')"
proof (induction "length (heap_slice s)" arbitrary: s vs rule: less_induct)
  case less
  show ?case
  proof (cases "heap_slice s = []")
    case True
    then have "pq_queued s = Map.empty" using dom_pq_queued [of s] by simp
    then have "served_in_order cmp cond (pq_queued s) [] (pq_queued s)" by (intro served_Nil) simp
    moreover have "pop_while cmp cond s vs = Some (s, vs)" using True by (subst pop_while.simps) (simp add: Heap_Len_def)
    ultimately show ?thesis using less.prems by auto
  next
    case ne: False
    let ?a = "heap_slice s ! 0"
    obtain k v el where root: "he_store s ?a = Some el" "he_Key el = k" "pq_queued s ?a = Some (k, v)"
        "first_served cmp (pq_queued s) ?a v"
      by (rule root_served [OF good less.prems ne])
    have idx: "slice_index (heap_slice s) 0 = Some ?a" using ne by (simp add: slice_index_def)
    show ?thesis
    proof (cases "cond k")
      case False
      have "\<not> cond k'" if "pq_queued s b = Some (k', v')" for b k' v'
        using root(3,4) that False down unfolding first_served_def by fastforce
      then have "served_in_order cmp cond (pq_queued s) [] (pq_queued s)" by (intro served_Nil) blast
      moreover have "pop_while cmp cond s vs = Some (s, vs)"
        using False root idx ne by (subst pop_while.simps) (simp add: Heap_Len_def)
      ultimately show ?thesis using less.prems by auto
    next
      case True
      obtain s1 el' where s1: "heap_Pop (general_Heap cmp) s = Some (s1, ?a)" "pq_inv cmp s1" "he_fresh s1 = he_fresh s"
          "pq_queued s1 = (pq_queued s)(?a := None)" "length (heap_slice s1) < length (heap_slice s)"
          "he_store s1 ?a = Some el'" "he_Value el' = v"
        using pq_pop [OF good less.prems ne] root(3) by auto
      have step: "pop_while cmp cond s vs = pop_while cmp cond s1 (vs @ [v])"
        using True root s1 idx ne by (subst pop_while.simps) (simp add: Heap_Len_def)
      from less.hyps [OF s1(5,2), of "vs @ [v]"] obtain s' ws where s': "pop_while cmp cond s1 (vs @ [v]) = Some (s', (vs @ [v]) @ ws)"
          "pq_inv cmp s'" "he_fresh s' = he_fresh s1" "served_in_order cmp cond (pq_queued s1) ws (pq_queued s')" by blast
      have "served_in_order cmp cond (pq_queued s) (v # ws) (pq_queued s')"
        using served_Cons [OF root(4) _ s'(4) [unfolded s1(4)]] root(3) True by simp
      then show ?thesis using step s' s1(3) by auto
    qed
  qed
qed

interpretation priority_queue: nondet_simulation "pq_step cmp zero" "pq_allows cmp zero" "pq_rel cmp"
proof
  fix s :: "('a, 'b) general_heap" and a op
  assume rel: "pq_rel cmp s a"
  have good: "good_compare cmp" and inv: "pq_inv cmp s" and a: "a = (he_fresh s, pq_queued s)"
    using rel by (simp_all add: pq_rel_def)
  have ix: "indexed s" using inv by (simp add: pq_inv_def)
  have empty: "pq_queued s = Map.empty \<longleftrightarrow> heap_slice s = []" using dom_pq_queued [of s] by (metis dom_eq_empty_conv set_empty)
  have same: "pq_rel cmp s a" by (rule rel)
  show "\<exists>s' r a'. pq_step cmp zero s op = Some (s', r) \<and> pq_allows cmp zero a op a' r \<and> pq_rel cmp s' a'"
  proof (cases op)
    case (QPush v k)
    then show ?thesis using PriorityQueue_Push_ok [OF good inv, of v k] good by (auto simp: a pq_rel_def)
  next
    case (QRemove h)
    show ?thesis
    proof (cases "he_store s h = None")
      case True
      then have "h \<notin> set (heap_slice s)" using indexedD [OF ix, of h] by auto
      then have "pq_queued s h = None" using dom_pq_queued [of s] by (auto simp: domIff)
      then have "(pq_queued s)(h := None) = pq_queued s" by (simp add: fun_upd_idem)
      then show ?thesis using QRemove True rel by (auto simp: a)
    next
      case False
      then show ?thesis using QRemove PriorityQueue_remove_ok [OF good inv False] good by (auto simp: a pq_rel_def)
    qed
  next
    case QPeek
    show ?thesis
    proof (cases "heap_slice s = []")
      case True
      then show ?thesis using QPeek rel empty by (auto simp: a PriorityQueue_Peek_def Heap_Len_def)
    next
      case False
      then obtain k v el where "he_store s (heap_slice s ! 0) = Some el" "he_Value el = v" "first_served cmp (pq_queued s) (heap_slice s ! 0) v"
        using root_served [OF good inv] by blast
      then show ?thesis using QPeek rel False empty by (auto simp: a PriorityQueue_Peek_def Heap_Len_def slice_index_def)
    qed
  next
    case QPop
    show ?thesis
    proof (cases "heap_slice s = []")
      case True
      then show ?thesis using QPop rel empty by (auto simp: a PriorityQueue_Pop_def Heap_Len_def)
    next
      case False
      obtain k v where root: "pq_queued s (heap_slice s ! 0) = Some (k, v)" "first_served cmp (pq_queued s) (heap_slice s ! 0) v"
        using root_served [OF good inv False] by blast
      from pq_pop [OF good inv False] root(1) obtain s' el where s': "heap_Pop (general_Heap cmp) s = Some (s', heap_slice s ! 0)" "pq_inv cmp s'"
          "he_fresh s' = he_fresh s" "pq_queued s' = (pq_queued s)(heap_slice s ! 0 := None)" "he_store s' (heap_slice s ! 0) = Some el" "he_Value el = v"
        by auto
      then have "pq_step cmp zero s op = Some (s', QValue v True)" using QPop False by (simp add: PriorityQueue_Pop_def Heap_Len_def)
      moreover have "pq_allows cmp zero a op (he_fresh s', pq_queued s') (QValue v True)"
        using QPop root(2) s'(3,4) empty False by (auto simp: a)
      ultimately show ?thesis using s'(2) good by (auto simp: pq_rel_def)
    qed
  next
    case (QPopUntil p)
    have "\<exists>s' ws. pop_while cmp (\<lambda>k. cmp k p \<le> 0) s [] = Some (s', [] @ ws) \<and> pq_inv cmp s' \<and> he_fresh s' = he_fresh s \<and>
        served_in_order cmp (\<lambda>k. cmp k p \<le> 0) (pq_queued s) ws (pq_queued s')"
      by (rule pop_while_ok [OF good _ inv]) (use good in \<open>auto simp: good_compare_def\<close>)
    then show ?thesis using QPopUntil good by (auto simp: a PriorityQueue_PopUntil_def pq_rel_def)
  next
    case QPopAll
    have "\<exists>s' ws. pop_while cmp (\<lambda>_. True) s [] = Some (s', [] @ ws) \<and> pq_inv cmp s' \<and> he_fresh s' = he_fresh s \<and>
        served_in_order cmp (\<lambda>_. True) (pq_queued s) ws (pq_queued s')"
      by (rule pop_while_ok [OF good _ inv]) simp
    then show ?thesis using QPopAll good by (auto simp: a PriorityQueue_PopAll_def pq_rel_def)
  next
    case QSize
    have "card (dom (pq_queued s)) = length (heap_slice s)" using ix by (simp add: dom_pq_queued indexed_def distinct_card)
    then show ?thesis using QSize rel by (auto simp: a PriorityQueue_Size_def Heap_Len_def)
  next
    case QIsEmpty
    then show ?thesis using rel empty by (auto simp: a PriorityQueue_IsEmpty_def Heap_Len_def)
  qed
qed

lemma pq_rel_New: "good_compare cmp \<Longrightarrow> pq_rel cmp PriorityQueue_New (0, Map.empty)"
  by (simp add: pq_rel_def pq_inv_def PriorityQueue_New_def indexed_def is_heap_def pq_queued_def heap_items_def)

lemma good_timed: "good_compare (timed_CompareTo ascending)" "good_compare HeapKey_CompareTo"
  by (auto simp: good_compare_def timed_CompareTo_def timeAscending_CompareTo_def timeDescending_CompareTo_def HeapKey_CompareTo_def
      split: if_splits)

section \<open>Properties\<close>




end
