(* ===== verification/Time_Heap.thy ===== *)
theory Time_Heap
  imports Go_Heap Refinement
begin

text \<open>
  The time heap of \<^verbatim>\<open>ds/timeheap\<close>: entries with a time and a count, of which an average drops the old ones. Each method
  holds the mutex for its whole body.
\<close>

section \<open>Definitions\<close>

record timeHeapEntry =
  timestamp :: int
  entry_count :: "64 word"

type_synonym timeHeap = "timeHeapEntry list"

definition timeHeap_Less :: "timeHeap \<Rightarrow> nat \<Rightarrow> nat \<Rightarrow> bool option" where
  "timeHeap_Less h i j = do {
     a \<leftarrow> slice_index h (int i);
     b \<leftarrow> slice_index h (int j);
     Some (timestamp a < timestamp b)
   }"

definition timeHeap_Swap :: "timeHeap \<Rightarrow> nat \<Rightarrow> nat \<Rightarrow> timeHeap option" where
  "timeHeap_Swap h i j = do {
     a \<leftarrow> slice_index h (int i);
     b \<leftarrow> slice_index h (int j);
     Some (h[i := b, j := a])
   }"

definition timeHeap_Push :: "timeHeap \<Rightarrow> timeHeapEntry \<Rightarrow> timeHeap option" where
  "timeHeap_Push h x = Some (h @ [x])"

definition timeHeap_Pop :: "timeHeap \<Rightarrow> (timeHeap \<times> timeHeapEntry) option" where
  "timeHeap_Pop h = do {
     let n = int (length h);
     data \<leftarrow> slice_index h (n - 1);
     rest \<leftarrow> slice_range h 0 (n - 1);
     Some (rest, data)
   }"

definition timeHeap_Interface :: "(timeHeap, timeHeapEntry) heap_Interface" where
  "timeHeap_Interface =
     \<lparr>h_Len = length, h_Less = timeHeap_Less, h_Swap = timeHeap_Swap, h_Push = timeHeap_Push, h_Pop = timeHeap_Pop\<rparr>"

record TimeHeap =
  th_heap :: timeHeap
  th_total :: "64 word"

definition NewTimeHeap :: "TimeHeap option" where
  "NewTimeHeap = do { h \<leftarrow> heap_Init timeHeap_Interface []; Some \<lparr>th_heap = h, th_total = 0\<rparr> }"

definition TimeHeap_Add :: "int \<Rightarrow> 64 word \<Rightarrow> TimeHeap \<Rightarrow> TimeHeap option" where
  "TimeHeap_Add now cnt t = do {
     h \<leftarrow> heap_Push timeHeap_Interface (th_heap t) \<lparr>timestamp = now, entry_count = cnt\<rparr>;
     Some \<lparr>th_heap = h, th_total = th_total t + cnt\<rparr>
   }"

fun clear_loop :: "nat \<Rightarrow> timeHeap \<Rightarrow> timeHeap option" where
  "clear_loop 0 h = Some h"
| "clear_loop (Suc n) h = (if length h > 0 then do { (h, _) \<leftarrow> timeHeap_Pop h; clear_loop n h } else Some h)"

definition TimeHeap_Clear :: "TimeHeap \<Rightarrow> TimeHeap option" where
  "TimeHeap_Clear t = map_option (\<lambda>h. t\<lparr>th_heap := h\<rparr>) (clear_loop (length (th_heap t)) (th_heap t))"

text \<open>\<open>clock i\<close> is the time that the \<open>i\<close>-th iteration reads. The method divides the total by the duration in floating
  point; the model returns the total.\<close>

fun average_loop :: "(nat \<Rightarrow> int) \<Rightarrow> int \<Rightarrow> nat \<Rightarrow> nat \<Rightarrow> TimeHeap \<Rightarrow> TimeHeap option" where
  "average_loop clock timeBefore 0 i t = Some t"
| "average_loop clock timeBefore (Suc n) i t = do {
     (h, oldest) \<leftarrow> heap_Pop timeHeap_Interface (th_heap t);
     if clock i - timestamp oldest < timeBefore
     then do { h \<leftarrow> heap_Push timeHeap_Interface h oldest; Some (t\<lparr>th_heap := h\<rparr>) }
     else average_loop clock timeBefore n (Suc i) \<lparr>th_heap = h, th_total = th_total t - entry_count oldest\<rparr>
   }"

definition TimeHeap_AveragePerSecond :: "(nat \<Rightarrow> int) \<Rightarrow> int \<Rightarrow> TimeHeap \<Rightarrow> (TimeHeap \<times> 64 word) option" where
  "TimeHeap_AveragePerSecond clock timeBefore t = do {
     t \<leftarrow> average_loop clock timeBefore (length (th_heap t)) 0 t;
     Some (t, th_total t)
   }"

datatype th_op = TAdd int "64 word" | TAverage "nat \<Rightarrow> int" int

datatype th_result = TNone | TTotal "64 word"

fun th_step :: "TimeHeap \<Rightarrow> th_op \<Rightarrow> (TimeHeap \<times> th_result) option" where
  "th_step t (TAdd now cnt) = map_option (\<lambda>t. (t, TNone)) (TimeHeap_Add now cnt t)"
| "th_step t (TAverage clock d) = map_option (\<lambda>(t, total). (t, TTotal total)) (TimeHeap_AveragePerSecond clock d t)"

text \<open>The specification: the entries as a multiset. If the clock does not go back, the entries that are kept are those
  within the window that ends at one of the times read.\<close>

fun th_allows :: "timeHeapEntry multiset \<Rightarrow> th_op \<Rightarrow> timeHeapEntry multiset \<Rightarrow> th_result \<Rightarrow> bool" where
  "th_allows E (TAdd now cnt) E' r \<longleftrightarrow> E' = add_mset \<lparr>timestamp = now, entry_count = cnt\<rparr> E \<and> r = TNone"
| "th_allows E (TAverage clock d) E' r \<longleftrightarrow> E' \<subseteq># E \<and> r = TTotal (sum_mset (image_mset entry_count E')) \<and>
     (mono clock \<longrightarrow> (\<exists>i. E' = filter_mset (\<lambda>e. clock i - timestamp e < d) E))"

definition earlier :: "timeHeapEntry \<Rightarrow> timeHeapEntry \<Rightarrow> bool" where
  "earlier a b \<longleftrightarrow> timestamp a < timestamp b"

definition th_rel :: "TimeHeap \<Rightarrow> timeHeapEntry multiset \<Rightarrow> bool" where
  "th_rel t E \<longleftrightarrow> mset (th_heap t) = E \<and> is_heap earlier (length (th_heap t)) (th_heap t) \<and>
     th_total t = sum_mset (image_mset entry_count E)"

section \<open>Lemmas\<close>

interpretation time_heap: heap_contract earlier timeHeap_Interface "\<lambda>h. h" "\<lambda>_. True" "\<lambda>_ _. True" "\<lambda>_ _. True" "\<lambda>_ x. x" "\<lambda>x. x"
proof
  fix h :: timeHeap and i j :: nat
  show "i < length h \<Longrightarrow> j < length h \<Longrightarrow> h_Less timeHeap_Interface h i j = Some (earlier (h ! i) (h ! j))"
    by (simp add: timeHeap_Interface_def timeHeap_Less_def earlier_def)
  show "i < length h \<Longrightarrow> j < length h \<Longrightarrow> \<exists>s'. h_Swap timeHeap_Interface h i j = Some s' \<and> True \<and> s' = swapped h i j \<and> True"
    by (simp add: timeHeap_Interface_def timeHeap_Swap_def swapped_def)
  assume "h \<noteq> []"
  then obtain xs x where "h = xs @ [x]" by (metis rev_exhaust)
  then show "\<exists>s'. h_Pop timeHeap_Interface h = Some (s', last h) \<and> True \<and> s' = butlast h"
    by (simp add: timeHeap_Interface_def timeHeap_Pop_def slice_index_def slice_range_def nat_add_distrib)
qed (auto simp: earlier_def timeHeap_Interface_def timeHeap_Push_def)

lemma average_loop_ok:
  "n = length (th_heap t) \<Longrightarrow> th_rel t E \<Longrightarrow> \<exists>t' E'. average_loop clock d n i t = Some t' \<and> th_rel t' E' \<and> E' \<subseteq># E \<and>
    (mono clock \<longrightarrow> (\<exists>k\<ge>i. E' = filter_mset (\<lambda>e. clock k - timestamp e < d) E))"
proof (induction n arbitrary: t E i)
  case 0
  then show ?case by (auto simp: th_rel_def)
next
  case (Suc n)
  let ?h = "th_heap t"
  let ?old = "?h ! 0"
  have E: "mset ?h = E" and heap: "is_heap earlier (length ?h) ?h" and total: "th_total t = sum_mset (image_mset entry_count E)"
    using Suc.prems(2) by (simp_all add: th_rel_def)
  have ne: "?h \<noteq> []" using Suc.prems(1) by auto
  have least: "timestamp ?old \<le> timestamp e" if e: "e \<in># E" for e
  proof -
    obtain k where "k < length ?h" "?h ! k = e" using e E by (metis in_set_conv_nth set_mset_mset)
    then show ?thesis using time_heap.heap_root_least [OF heap] by (auto simp: earlier_def not_less)
  qed
  obtain h where h: "heap_Pop timeHeap_Interface ?h = Some (h, ?old)" "E = add_mset ?old (mset h)" "is_heap earlier (length h) h"
    using time_heap.heap_Pop_ok [OF _ heap ne] E by auto
  show ?case
  proof (cases "clock i - timestamp ?old < d")
    case True
    obtain h' where h': "heap_Push timeHeap_Interface h ?old = Some h'" "mset h' = E" "is_heap earlier (length h') h'"
      using time_heap.heap_Push_ok [OF _ _ h(3), of ?old] h(2) by auto
    have "clock i - timestamp e < d" if "e \<in># E" for e using least [OF that] True by linarith
    then have "filter_mset (\<lambda>e. clock i - timestamp e < d) E = E" by (simp add: filter_mset_eq_conv)
    then have "\<exists>k\<ge>i. E = filter_mset (\<lambda>e. clock k - timestamp e < d) E" by (intro exI [of _ i]) simp
    then show ?thesis using True h h' total by (intro exI [of _ "t\<lparr>th_heap := h'\<rparr>"] exI [of _ E]) (simp add: th_rel_def)
  next
    case False
    let ?t = "\<lparr>th_heap = h, th_total = th_total t - entry_count ?old\<rparr>"
    have "th_rel ?t (mset h)" using h total by (simp add: th_rel_def)
    moreover have "n = length (th_heap ?t)" using Suc.prems(1) h(2) E by (metis Suc_inject TimeHeap.select_convs(1) size_add_mset size_mset)
    ultimately obtain t' E' where t': "average_loop clock d n (Suc i) ?t = Some t'" "th_rel t' E'" "E' \<subseteq># mset h"
        "mono clock \<longrightarrow> (\<exists>k\<ge>Suc i. E' = filter_mset (\<lambda>e. clock k - timestamp e < d) (mset h))"
      using Suc.IH [of ?t "mset h" "Suc i"] by blast
    have "\<exists>k\<ge>i. E' = filter_mset (\<lambda>e. clock k - timestamp e < d) E" if m: "mono clock"
    proof -
      obtain k where k: "Suc i \<le> k" "E' = filter_mset (\<lambda>e. clock k - timestamp e < d) (mset h)" using t'(4) m by blast
      have "clock i \<le> clock k" using m k(1) by (simp add: monoD)
      then have "E' = filter_mset (\<lambda>e. clock k - timestamp e < d) E" using k(2) False by (subst h(2)) simp
      then show ?thesis using k(1) by (intro exI [of _ k]) simp
    qed
    moreover have "mset h \<subseteq># E" by (subst h(2)) simp
    then have "E' \<subseteq># E" by (rule subset_mset.order_trans [OF t'(3)])
    ultimately show ?thesis using False h(1) t'(1,2) by auto
  qed
qed

interpretation time_heap_window: nondet_simulation th_step th_allows th_rel
proof
  fix t E op
  assume rel: "th_rel t E"
  have heap: "is_heap earlier (length (th_heap t)) (th_heap t)" using rel by (simp add: th_rel_def)
  show "\<exists>t' r E'. th_step t op = Some (t', r) \<and> th_allows E op E' r \<and> th_rel t' E'"
  proof (cases op)
    case (TAdd now cnt)
    then show ?thesis using rel time_heap.heap_Push_ok [OF _ _ heap, of "\<lparr>timestamp = now, entry_count = cnt\<rparr>"]
      by (auto simp: TimeHeap_Add_def th_rel_def add.commute)
  next
    case (TAverage clock d)
    obtain t' E' where "average_loop clock d (length (th_heap t)) 0 t = Some t'" "th_rel t' E'" "E' \<subseteq># E"
        "mono clock \<longrightarrow> (\<exists>k. E' = filter_mset (\<lambda>e. clock k - timestamp e < d) E)"
      using average_loop_ok [OF refl rel, of clock d 0] by blast
    moreover then have "th_total t' = sum_mset (image_mset entry_count E')" by (simp add: th_rel_def)
    ultimately show ?thesis using TAverage
      by (intro exI [of _ t'] exI [of _ "TTotal (th_total t')"] exI [of _ E']) (simp add: TimeHeap_AveragePerSecond_def)
  qed
qed

section \<open>Properties\<close>


section \<open>Observations\<close>

text \<open>\<^verbatim>\<open>Clear\<close> empties the heap but keeps the total: an average right after it still counts the removed entries.\<close>

lemma clear_keeps_total:
  "(do { t \<leftarrow> NewTimeHeap; t \<leftarrow> TimeHeap_Add 0 5 t; t \<leftarrow> TimeHeap_Clear t;
     (t, total) \<leftarrow> TimeHeap_AveragePerSecond (\<lambda>_. 1) 10 t; Some (th_heap t, total) }) = Some ([], 5)"
  by code_simp

end
