(* ===== verification/KV_Store.thy ===== *)
theory KV_Store
  imports Shrinking_Map
begin

text \<open>
  The key-value stores of \<^verbatim>\<open>kvstore\<close>: the interface as a record of methods on a state, the copying of one store into another,
  the calls of a client and what a finite map answers to them. The locale \<open>kv_contract\<close> states what a store promises; every
  client of a store is verified against it.
\<close>

section \<open>Definitions\<close>

subsection \<open>The interface\<close>

datatype kv_error = ErrKeyNotFound | ErrTypedValueNotChanged | ErrStoreClosed
  | ErrStoreVersionCheckNotSupported | ErrStoreVersionUpdateFuncNotGiven
  | TextError string | WrappedError string kv_error

fun errors_Is :: "kv_error \<Rightarrow> kv_error \<Rightarrow> bool" where
  "errors_Is (WrappedError msg e) target \<longleftrightarrow> WrappedError msg e = target \<or> errors_Is e target"
| "errors_Is e target \<longleftrightarrow> e = target"

type_synonym IterDirection = byte

definition IterDirectionForward :: IterDirection where "IterDirectionForward = 0"

definition IterDirectionBackward :: IterDirection where "IterDirectionBackward = 1"

definition GetIterDirection :: "IterDirection list \<Rightarrow> IterDirection option" where
  "GetIterDirection iterDirection =
     (case iterDirection of
        [] \<Rightarrow> Some IterDirectionForward
      | d # _ \<Rightarrow> if d = IterDirectionForward then Some IterDirectionForward
                else if d = IterDirectionBackward then Some d
                else None)"

text \<open>A store as its methods on a state \<open>'s\<close>, with a batch of mutations of type \<open>'b\<close>. The iterations of the stores work
  on a snapshot: the method returns the entries that it shows to the consumer, without the realm, in order; \<^term>\<open>None\<close>
  is the panic for an unknown direction.\<close>

record ('s, 'b) KVStore =
  kv_Realm :: bytes
  kv_Get :: "bytes \<Rightarrow> 's \<Rightarrow> kv_error + bytes"
  kv_Has :: "bytes \<Rightarrow> 's \<Rightarrow> kv_error + bool"
  kv_Set :: "bytes \<Rightarrow> bytes \<Rightarrow> 's \<Rightarrow> 's \<times> kv_error option"
  kv_Delete :: "bytes \<Rightarrow> 's \<Rightarrow> 's \<times> kv_error option"
  kv_DeletePrefix :: "bytes \<Rightarrow> 's \<Rightarrow> 's \<times> kv_error option"
  kv_Clear :: "'s \<Rightarrow> 's \<times> kv_error option"
  kv_Flush :: "'s \<Rightarrow> 's \<times> kv_error option"
  kv_Close :: "'s \<Rightarrow> 's \<times> kv_error option"
  kv_Iterate :: "bytes \<Rightarrow> IterDirection list \<Rightarrow> 's \<Rightarrow> (kv_error + (bytes \<times> bytes) list) option"
  kv_IterateKeys :: "bytes \<Rightarrow> IterDirection list \<Rightarrow> 's \<Rightarrow> (kv_error + bytes list) option"
  kv_Batched :: "'s \<Rightarrow> kv_error + 'b"
  b_Set :: "bytes \<Rightarrow> bytes \<Rightarrow> 'b \<Rightarrow> 'b \<times> kv_error option"
  b_Delete :: "bytes \<Rightarrow> 'b \<Rightarrow> 'b \<times> kv_error option"
  b_Cancel :: "'b \<Rightarrow> 'b"
  b_Commit :: "'b \<Rightarrow> 's \<Rightarrow> 's \<times> kv_error option"

subsection \<open>Copying\<close>

fun copy_loop :: "('s, 'b) KVStore \<Rightarrow> (bytes \<times> bytes) list \<Rightarrow> 's \<Rightarrow> 's \<times> kv_error option" where
  "copy_loop target [] s = (s, None)"
| "copy_loop target ((key, value) # entries) s =
     (let (s, innerErr) = kv_Set target key value s in
      if innerErr = None then copy_loop target entries s else (s, innerErr))"

definition kv_Copy :: "('s, 'b) KVStore \<Rightarrow> ('s, 'c) KVStore \<Rightarrow> 's \<Rightarrow> ('s \<times> kv_error option) option" where
  "kv_Copy source target s = do {
     r \<leftarrow> kv_Iterate source [] [] s;
     case r of
       Inl err \<Rightarrow> Some (s, Some err)
     | Inr entries \<Rightarrow>
         (let (s, innerErr) = copy_loop target entries s in
          if innerErr \<noteq> None then Some (s, innerErr) else Some (kv_Flush target s))
   }"

text \<open>The consumer of \<^verbatim>\<open>CopyBatched\<close>. When no new batch is opened the variable \<^verbatim>\<open>batchedMutation\<close> becomes nil, here
  \<^term>\<open>None\<close>.\<close>

fun batch_loop ::
  "('s, 'b) KVStore \<Rightarrow> int \<Rightarrow> (bytes \<times> bytes) list \<Rightarrow> int \<Rightarrow> 'b \<Rightarrow> 's \<Rightarrow> 's \<times> 'b option \<times> kv_error option" where
  "batch_loop target batchedSize [] current batch s = (s, Some batch, None)"
| "batch_loop target batchedSize ((key, value) # entries) current batch s =
     (let current = current + 1;
          (batch, innerErr) = b_Set target key value batch
      in if batchedSize \<noteq> 0 \<and> batchedSize \<le> current
         then let (s, err) = b_Commit target batch s;
                  innerErr = (if err \<noteq> None then err else innerErr)
              in case kv_Batched target s of
                   Inl err \<Rightarrow> (s, None, Some err)
                 | Inr batch \<Rightarrow>
                     if innerErr = None then batch_loop target batchedSize entries 0 batch s else (s, Some batch, innerErr)
         else if innerErr = None then batch_loop target batchedSize entries current batch s else (s, Some batch, innerErr))"

text \<open>\<^verbatim>\<open>Cancel\<close> of a nil batch panics.\<close>

definition kv_CopyBatched ::
  "('s, 'b) KVStore \<Rightarrow> ('s, 'c) KVStore \<Rightarrow> int list \<Rightarrow> 's \<Rightarrow> ('s \<times> kv_error option) option" where
  "kv_CopyBatched source target batchSize s =
     (let batchedSize = (case batchSize of [] \<Rightarrow> 0 | n # _ \<Rightarrow> n) in
      case kv_Batched target s of
        Inl err \<Rightarrow> Some (s, Some err)
      | Inr batch \<Rightarrow> do {
          r \<leftarrow> kv_Iterate source [] [] s;
          case r of
            Inl err \<Rightarrow> Some (s, Some err)
          | Inr entries \<Rightarrow>
              (let (s, batch, innerErr) = batch_loop target batchedSize entries 0 batch s in
               case batch of
                 None \<Rightarrow> None
               | Some batch \<Rightarrow>
                   if innerErr \<noteq> None then Some (s, innerErr)
                   else let (s, err) = b_Commit target batch s in
                        if err \<noteq> None then Some (s, err) else Some (kv_Flush target s))
        })"

subsection \<open>A client of a store\<close>

text \<open>The calls a client makes; \<open>OBatch\<close> opens a batch, adds mutations (a value to set or, for \<^term>\<open>None\<close>, a deletion)
  and commits it.\<close>

datatype kv_op = OGet bytes | OHas bytes | OSet bytes bytes | ODelete bytes | ODeletePrefix bytes | OClear | OFlush | OClose
  | OIterate bytes bool | OIterateKeys bytes bool | OBatch "(bytes \<times> bytes option) list"

datatype kv_result = RGet "kv_error + bytes" | RHas "kv_error + bool" | RErr "kv_error option"
  | REntries "kv_error + (bytes \<times> bytes) list" | RKeys "kv_error + bytes list"

fun mutate :: "('s, 'b) KVStore \<Rightarrow> bytes \<times> bytes option \<Rightarrow> 'b \<Rightarrow> 'b" where
  "mutate kv (key, Some value) b = fst (b_Set kv key value b)"
| "mutate kv (key, None) b = fst (b_Delete kv key b)"

fun kv_step :: "('s, 'b) KVStore \<Rightarrow> 's \<Rightarrow> kv_op \<Rightarrow> ('s \<times> kv_result) option" where
  "kv_step kv s (OGet key) = Some (s, RGet (kv_Get kv key s))"
| "kv_step kv s (OHas key) = Some (s, RHas (kv_Has kv key s))"
| "kv_step kv s (OSet key value) = Some (map_prod id RErr (kv_Set kv key value s))"
| "kv_step kv s (ODelete key) = Some (map_prod id RErr (kv_Delete kv key s))"
| "kv_step kv s (ODeletePrefix p) = Some (map_prod id RErr (kv_DeletePrefix kv p s))"
| "kv_step kv s OClear = Some (map_prod id RErr (kv_Clear kv s))"
| "kv_step kv s OFlush = Some (map_prod id RErr (kv_Flush kv s))"
| "kv_step kv s OClose = Some (map_prod id RErr (kv_Close kv s))"
| "kv_step kv s (OIterate p backward) =
     map_option (\<lambda>r. (s, REntries r)) (kv_Iterate kv p [if backward then IterDirectionBackward else IterDirectionForward] s)"
| "kv_step kv s (OIterateKeys p backward) =
     map_option (\<lambda>r. (s, RKeys r)) (kv_IterateKeys kv p [if backward then IterDirectionBackward else IterDirectionForward] s)"
| "kv_step kv s (OBatch ms) =
     (case kv_Batched kv s of
        Inl err \<Rightarrow> Some (s, RErr (Some err))
      | Inr b \<Rightarrow> Some (map_prod id RErr (b_Commit kv (fold (mutate kv) ms b) s)))"

subsection \<open>What a store holds\<close>

definition has_prefix :: "bytes \<Rightarrow> bytes \<Rightarrow> bool" where
  "has_prefix key p \<longleftrightarrow> take (length p) key = p"

text \<open>The entries under a prefix, in the order of the keys.\<close>

definition listing :: "(bytes \<rightharpoonup> bytes) \<Rightarrow> bytes \<Rightarrow> (bytes \<times> bytes) list" where
  "listing m p = map (\<lambda>k. (k, the (m k))) (sorted_list_of_set {k \<in> dom m. has_prefix k p})"

definition apply_pending :: "(bytes \<rightharpoonup> bytes option) \<Rightarrow> (bytes \<rightharpoonup> bytes) \<Rightarrow> (bytes \<rightharpoonup> bytes)" where
  "apply_pending p m k = (case p k of None \<Rightarrow> m k | Some v \<Rightarrow> v)"

text \<open>The specification: a finite map and a flag that says whether the store is closed.\<close>

fun kv_spec :: "(bytes \<rightharpoonup> bytes) \<times> bool \<Rightarrow> kv_op \<Rightarrow> ((bytes \<rightharpoonup> bytes) \<times> bool) \<times> kv_result" where
  "kv_spec (m, True) (OGet key) = ((m, True), RGet (Inl ErrStoreClosed))"
| "kv_spec (m, True) (OHas key) = ((m, True), RHas (Inl ErrStoreClosed))"
| "kv_spec (m, True) (OIterate p backward) = ((m, True), REntries (Inl ErrStoreClosed))"
| "kv_spec (m, True) (OIterateKeys p backward) = ((m, True), RKeys (Inl ErrStoreClosed))"
| "kv_spec (m, c) OClose = ((m, True), RErr None)"
| "kv_spec (m, True) _ = ((m, True), RErr (Some ErrStoreClosed))"
| "kv_spec (m, False) (OGet key) = ((m, False), RGet (case m key of None \<Rightarrow> Inl ErrKeyNotFound | Some v \<Rightarrow> Inr v))"
| "kv_spec (m, False) (OHas key) = ((m, False), RHas (Inr (key \<in> dom m)))"
| "kv_spec (m, False) (OIterate p backward) = ((m, False), REntries (Inr (if backward then rev (listing m p) else listing m p)))"
| "kv_spec (m, False) (OIterateKeys p backward) =
     ((m, False), RKeys (Inr (map fst (if backward then rev (listing m p) else listing m p))))"
| "kv_spec (m, False) (OSet key value) = ((m(key \<mapsto> value), False), RErr None)"
| "kv_spec (m, False) (ODelete key) = ((m(key := None), False), RErr None)"
| "kv_spec (m, False) (ODeletePrefix p) = ((m |` {k. \<not> has_prefix k p}, False), RErr None)"
| "kv_spec (m, False) OClear = ((Map.empty, False), RErr None)"
| "kv_spec (m, False) OFlush = ((m, False), RErr None)"
| "kv_spec (m, False) (OBatch ms) = ((fold (\<lambda>(k, v) m. m(k := v)) ms m, False), RErr None)"

section \<open>The contract of a store\<close>

locale kv_contract =
  fixes kv :: "('s, 'b) KVStore"
    and contents :: "'s \<Rightarrow> bytes \<rightharpoonup> bytes"
    and closed :: "'s \<Rightarrow> bool"
    and inv :: "'s \<Rightarrow> bool"
    and pending :: "'b \<Rightarrow> bytes \<rightharpoonup> bytes option"
    and binv :: "'b \<Rightarrow> bool"
  assumes Get_law: "inv s \<Longrightarrow> kv_Get kv k s =
      (if closed s then Inl ErrStoreClosed else case contents s k of None \<Rightarrow> Inl ErrKeyNotFound | Some v \<Rightarrow> Inr v)"
    and Has_law: "inv s \<Longrightarrow> kv_Has kv k s = (if closed s then Inl ErrStoreClosed else Inr (contents s k \<noteq> None))"
    and closed_law: "inv s \<Longrightarrow> closed s \<Longrightarrow> kv_Set kv k v s = (s, Some ErrStoreClosed) \<and> kv_Delete kv k s = (s, Some ErrStoreClosed) \<and>
      kv_DeletePrefix kv k s = (s, Some ErrStoreClosed) \<and> kv_Clear kv s = (s, Some ErrStoreClosed) \<and>
      kv_Flush kv s = (s, Some ErrStoreClosed) \<and> kv_Batched kv s = Inl ErrStoreClosed \<and> b_Commit kv b s = (s, Some ErrStoreClosed)"
    and Set_law: "inv s \<Longrightarrow> \<not> closed s \<Longrightarrow>
      \<exists>s'. kv_Set kv k v s = (s', None) \<and> inv s' \<and> \<not> closed s' \<and> contents s' = (contents s)(k \<mapsto> v)"
    and Delete_law: "inv s \<Longrightarrow> \<not> closed s \<Longrightarrow>
      \<exists>s'. kv_Delete kv k s = (s', None) \<and> inv s' \<and> \<not> closed s' \<and> contents s' = (contents s)(k := None)"
    and DeletePrefix_law: "inv s \<Longrightarrow> \<not> closed s \<Longrightarrow>
      \<exists>s'. kv_DeletePrefix kv p s = (s', None) \<and> inv s' \<and> \<not> closed s' \<and> contents s' = contents s |` {k. \<not> has_prefix k p}"
    and Clear_law: "inv s \<Longrightarrow> \<not> closed s \<Longrightarrow>
      \<exists>s'. kv_Clear kv s = (s', None) \<and> inv s' \<and> \<not> closed s' \<and> contents s' = Map.empty"
    and Flush_law: "inv s \<Longrightarrow> \<not> closed s \<Longrightarrow>
      \<exists>s'. kv_Flush kv s = (s', None) \<and> inv s' \<and> \<not> closed s' \<and> contents s' = contents s"
    and Close_law: "inv s \<Longrightarrow> \<exists>s'. kv_Close kv s = (s', None) \<and> inv s' \<and> closed s' \<and> contents s' = contents s"
    and Iterate_closed: "inv s \<Longrightarrow> closed s \<Longrightarrow> kv_Iterate kv p dir s = Some (Inl ErrStoreClosed)"
    and Iterate_law: "inv s \<Longrightarrow> \<not> closed s \<Longrightarrow> GetIterDirection dir = Some d \<Longrightarrow>
      kv_Iterate kv p dir s = Some (Inr (if d = IterDirectionForward then listing (contents s) p else rev (listing (contents s) p)))"
    and IterateKeys_law: "inv s \<Longrightarrow> kv_IterateKeys kv p dir s = map_option (map_sum id (map fst)) (kv_Iterate kv p dir s)"
    and finite_contents: "inv s \<Longrightarrow> finite (dom (contents s))"
    and Batched_law: "inv s \<Longrightarrow> \<not> closed s \<Longrightarrow> \<exists>b. kv_Batched kv s = Inr b \<and> binv b \<and> pending b = Map.empty"
    and b_Set_law: "binv b \<Longrightarrow> \<exists>b'. b_Set kv k v b = (b', None) \<and> binv b' \<and> pending b' = (pending b)(k \<mapsto> Some v)"
    and b_Delete_law: "binv b \<Longrightarrow> \<exists>b'. b_Delete kv k b = (b', None) \<and> binv b' \<and> pending b' = (pending b)(k \<mapsto> None)"
    and b_Cancel_law: "binv b \<Longrightarrow> binv (b_Cancel kv b) \<and> pending (b_Cancel kv b) = Map.empty"
    and b_Commit_law: "inv s \<Longrightarrow> \<not> closed s \<Longrightarrow> binv b \<Longrightarrow>
      \<exists>s'. b_Commit kv b s = (s', None) \<and> inv s' \<and> \<not> closed s' \<and> contents s' = apply_pending (pending b) (contents s)"

section \<open>Lemmas\<close>

lemma map_of_listing:
  assumes "finite (dom m)"
  shows "map_of (listing m p) = m |` {k. has_prefix k p}"
proof
  fix k
  have "set (sorted_list_of_set {k \<in> dom m. has_prefix k p}) = {k \<in> dom m. has_prefix k p}" using assms by simp
  then show "map_of (listing m p) k = (m |` {k. has_prefix k p}) k"
    by (auto simp: listing_def map_of_map_restrict [of "\<lambda>k. the (m k)", unfolded comp_def] restrict_map_def)
qed

lemma has_prefix_Nil [simp]: "has_prefix k []"
  by (simp add: has_prefix_def)

lemma distinct_listing: "finite (dom m) \<Longrightarrow> distinct (map fst (listing m p))"
  by (simp add: listing_def comp_def)

lemma map_add_rev: "m(k \<mapsto> v) ++ map_of (rev es) = m ++ map_of (rev ((k, v) # es))"
  by (simp add: map_add_def fun_eq_iff split: option.splits)

context kv_contract
begin

lemma copy_loop_ok:
  "inv s \<Longrightarrow> \<not> closed s \<Longrightarrow> \<exists>s'. copy_loop kv es s = (s', None) \<and> inv s' \<and> \<not> closed s' \<and>
    contents s' = contents s ++ map_of (rev es)"
proof (induction es arbitrary: s)
  case (Cons e es)
  obtain k v where e: "e = (k, v)" by (metis prod.exhaust)
  obtain s1 where s1: "kv_Set kv k v s = (s1, None)" "inv s1" "\<not> closed s1" "contents s1 = (contents s)(k \<mapsto> v)"
    using Set_law [OF Cons.prems] by blast
  from Cons.IH [OF s1(2,3)] obtain s' where s': "copy_loop kv es s1 = (s', None)" "inv s'" "\<not> closed s'"
      "contents s' = contents s1 ++ map_of (rev es)" by blast
  have "contents s' = contents s ++ map_of (rev (e # es))" unfolding s'(4) s1(4) e by (rule map_add_rev)
  with s' s1(1) show ?case by (intro exI [of _ s']) (simp add: e)
qed simp

lemma batch_loop_ok:
  "inv s \<Longrightarrow> \<not> closed s \<Longrightarrow> binv b \<Longrightarrow>
    \<exists>s' b'. batch_loop kv n es c b s = (s', Some b', None) \<and> inv s' \<and> \<not> closed s' \<and> binv b' \<and>
    apply_pending (pending b') (contents s') = apply_pending (pending b) (contents s) ++ map_of (rev es)"
proof (induction es arbitrary: s b c)
  case (Cons e es)
  obtain k v where e: "e = (k, v)" by (metis prod.exhaust)
  obtain b1 where b1: "b_Set kv k v b = (b1, None)" "pending b1 = (pending b)(k \<mapsto> Some v)" "binv b1"
    using b_Set_law [OF Cons.prems(3)] by blast
  have add: "apply_pending (pending b1) (contents s) ++ map_of (rev es) = apply_pending (pending b) (contents s) ++ map_of (rev (e # es))"
  proof -
    have "apply_pending (pending b1) (contents s) = (apply_pending (pending b) (contents s))(k \<mapsto> v)"
      by (simp add: b1(2) apply_pending_def fun_eq_iff)
    then show ?thesis by (simp only: e map_add_rev)
  qed
  show ?case
  proof (cases "n \<noteq> 0 \<and> n \<le> c + 1")
    case True
    obtain s1 where s1: "b_Commit kv b1 s = (s1, None)" "inv s1" "\<not> closed s1" "contents s1 = apply_pending (pending b1) (contents s)"
      using b_Commit_law [OF Cons.prems(1,2) b1(3)] by blast
    obtain b2 where b2: "kv_Batched kv s1 = Inr b2" "pending b2 = Map.empty" "binv b2" using Batched_law [OF s1(2,3)] by blast
    have same: "apply_pending (pending b2) (contents s1) = apply_pending (pending b1) (contents s)"
      by (simp add: b2(2) s1(4) apply_pending_def fun_eq_iff)
    have "batch_loop kv n (e # es) c b s = batch_loop kv n es 0 b2 s1" using True b1(1) s1(1) b2(1) by (simp add: e Let_def)
    with Cons.IH [OF s1(2,3) b2(3), of 0] show ?thesis unfolding same add by (simp only:)
  next
    case False
    then have "batch_loop kv n (e # es) c b s = batch_loop kv n es (c + 1) b1 s" using b1(1) by (auto simp: e Let_def)
    with Cons.IH [OF Cons.prems(1,2) b1(3), of "c + 1"] show ?thesis unfolding add by (simp only:)
  qed
qed simp

end

text \<open>Copying from one store to another; the two may share their state.\<close>

context kv_contract
begin

lemma mutations:
  assumes "binv b"
  shows "binv (fold (mutate kv) ms b) \<and>
    apply_pending (pending (fold (mutate kv) ms b)) m = fold (\<lambda>(k, v) m. m(k := v)) ms (apply_pending (pending b) m)"
  using assms
proof (induction ms arbitrary: b)
  case (Cons kv' ms)
  obtain k v where kv': "kv' = (k, v)" by (cases kv')
  have "binv (mutate kv kv' b)" "apply_pending (pending (mutate kv kv' b)) m = (apply_pending (pending b) m)(k := v)"
    using b_Set_law [OF Cons.prems, of k "the v"] b_Delete_law [OF Cons.prems, of k]
    by (cases v; auto simp: kv' apply_pending_def fun_eq_iff)+
  then show ?case using Cons.IH [of "mutate kv kv' b"] by (simp add: kv')
qed simp

lemma open_batch:
  assumes "inv s" "\<not> closed s"
  shows "\<exists>s'. kv_step kv s (OBatch ms) = Some (s', RErr None) \<and> inv s' \<and> \<not> closed s' \<and>
    contents s' = fold (\<lambda>(k, v) m. m(k := v)) ms (contents s)"
proof -
  obtain b where b: "kv_Batched kv s = Inr b" "binv b" "pending b = Map.empty" using Batched_law [OF assms] by blast
  have "apply_pending (pending b) (contents s) = contents s" by (simp add: b(3) apply_pending_def fun_eq_iff)
  then show ?thesis using mutations [OF b(2), of ms "contents s"] b_Commit_law [OF assms, of "fold (mutate kv) ms b"] b(1) by auto
qed

lemma step_refines_map:
  assumes inv: "inv s"
  shows "\<exists>s'. kv_step kv s op = Some (s', snd (kv_spec (contents s, closed s) op)) \<and> inv s' \<and>
    (contents s', closed s') = fst (kv_spec (contents s, closed s) op)"
proof (cases "closed s")
  case True
  then show ?thesis
    using inv Get_law [OF inv] Has_law [OF inv] closed_law [OF inv True] Iterate_closed [OF inv True] IterateKeys_law [OF inv] Close_law [OF inv]
    by (cases op) auto
next
  case opened: False
  have dirs: "GetIterDirection [if backward then IterDirectionBackward else IterDirectionForward] =
      Some (if backward then IterDirectionBackward else IterDirectionForward)" for backward
    by (simp add: GetIterDirection_def)
  show ?thesis
  proof (cases op)
    case (OIterate p backward)
    then show ?thesis using inv opened Iterate_law [OF inv opened dirs [of backward], of p]
      by (simp add: IterDirectionForward_def IterDirectionBackward_def)
  next
    case (OIterateKeys p backward)
    then show ?thesis using inv opened Iterate_law [OF inv opened dirs [of backward], of p] IterateKeys_law [OF inv]
      by (simp add: IterDirectionForward_def IterDirectionBackward_def)
  next
    case (OBatch ms)
    then show ?thesis using open_batch [OF inv opened, of ms] opened by auto
  next
    case (OSet k v)
    then show ?thesis using Set_law [OF inv opened, of k v] opened by auto
  next
    case (ODelete k)
    then show ?thesis using Delete_law [OF inv opened, of k] opened by auto
  next
    case (ODeletePrefix p)
    then show ?thesis using DeletePrefix_law [OF inv opened, of p] opened by auto
  qed (use inv opened Get_law [OF inv] Has_law [OF inv] Clear_law [OF inv opened] Flush_law [OF inv opened] Close_law [OF inv] in auto)
qed

end

sublocale kv_contract \<subseteq> history: data_refinement "kv_step kv" kv_spec "\<lambda>s. (contents s, closed s)" inv
  using step_refines_map by unfold_locales

locale kv_copy =
  source: kv_contract source contents1 closed1 inv1 pending1 binv1 + target: kv_contract target contents2 closed2 inv2 pending2 binv2
  for source :: "('s, 'b) KVStore" and contents1 closed1 inv1 pending1 binv1
    and target :: "('s, 'c) KVStore" and contents2 closed2 inv2 pending2 binv2
begin

lemma copies:
  assumes "inv1 s" "inv2 s" "\<not> closed1 s" "\<not> closed2 s"
  shows "\<exists>s'. kv_Copy source target s = Some (s', None) \<and> inv2 s' \<and> contents2 s' = contents2 s ++ contents1 s"
    and "\<exists>s'. kv_CopyBatched source target batchSize s = Some (s', None) \<and> inv2 s' \<and> contents2 s' = contents2 s ++ contents1 s"
proof -
  let ?es = "listing (contents1 s) []"
  have es: "kv_Iterate source [] [] s = Some (Inr ?es)"
    using source.Iterate_law [OF assms(1,3), of "[]" IterDirectionForward "[]"] by (simp add: GetIterDirection_def)
  have fin: "finite (dom (contents1 s))" using source.finite_contents [OF assms(1)] .
  have "map_of (rev ?es) = map_of ?es"
    using map_of_inject_set [of "rev ?es" ?es] distinct_listing [OF fin, of "[]"] by (simp add: rev_map [symmetric])
  then have all: "map_of (rev ?es) = contents1 s" using map_of_listing [OF fin, of "[]"] by (simp add: restrict_map_def)
  obtain s1 where s1: "copy_loop target ?es s = (s1, None)" "inv2 s1" "\<not> closed2 s1" "contents2 s1 = contents2 s ++ contents1 s"
    using target.copy_loop_ok [OF assms(2,4), of ?es] all by auto
  then show "\<exists>s'. kv_Copy source target s = Some (s', None) \<and> inv2 s' \<and> contents2 s' = contents2 s ++ contents1 s"
    using target.Flush_law [OF s1(2,3)] es by (auto simp: kv_Copy_def)
  define n where "n = (case batchSize of [] \<Rightarrow> 0 | n # _ \<Rightarrow> n)"
  obtain b where b: "kv_Batched target s = Inr b" "pending2 b = Map.empty" "binv2 b" using target.Batched_law [OF assms(2,4)] by blast
  have "apply_pending (pending2 b) (contents2 s) = contents2 s" by (simp add: b(2) apply_pending_def fun_eq_iff)
  then obtain s2 b2 where s2: "batch_loop target n ?es 0 b s = (s2, Some b2, None)" "inv2 s2" "\<not> closed2 s2" "binv2 b2"
      "apply_pending (pending2 b2) (contents2 s2) = contents2 s ++ contents1 s"
    using target.batch_loop_ok [OF assms(2,4) b(3), of n ?es 0] all by auto
  obtain s3 where s3: "b_Commit target b2 s2 = (s3, None)" "inv2 s3" "\<not> closed2 s3" "contents2 s3 = contents2 s ++ contents1 s"
    using target.b_Commit_law [OF s2(2-4)] s2(5) by auto
  then show "\<exists>s'. kv_CopyBatched source target batchSize s = Some (s', None) \<and> inv2 s' \<and> contents2 s' = contents2 s ++ contents1 s"
    using target.Flush_law [OF s3(2,3)] es b(1) s2(1) by (auto simp: kv_CopyBatched_def n_def [symmetric] Let_def)
qed

end

end
