(* ===== verification/Map_DB.thy ===== *)
theory Map_DB
  imports KV_Store
begin

text \<open>
  The in-memory store \<^verbatim>\<open>kvstore/mapdb\<close>, the flushing wrapper \<^verbatim>\<open>kvstore/flushkv\<close> and the helpers of
  \<^verbatim>\<open>kvstore/utils\<close>. Both stores satisfy the contract of a store.
\<close>

section \<open>Definitions\<close>

subsection \<open>Byte slices and sorting\<close>

definition ConcatBytes :: "bytes list \<Rightarrow> bytes" where
  "ConcatBytes byteSlices = foldl (\<lambda>b byteSlice. b @ byteSlice) [] byteSlices"

definition SortSlice :: "bytes list \<Rightarrow> IterDirection list \<Rightarrow> bytes list option" where
  "SortSlice strs iterDirection = do {
     d \<leftarrow> GetIterDirection iterDirection;
     Some (if d = IterDirectionForward then sort strs else rev (sort strs))
   }"

text \<open>The smallest key above all keys with the given prefix; nil, here \<^term>\<open>None\<close>, if there is none. The loop runs over the
  positions from the last one down.\<close>

fun upper_bound_loop :: "bytes \<Rightarrow> nat \<Rightarrow> bytes option" where
  "upper_bound_loop bound 0 = None"
| "upper_bound_loop bound (Suc i) =
     (let bound = bound[i := bound ! i + 1] in
      if bound ! i \<noteq> 0 then Some (take (i + 1) bound) else upper_bound_loop bound i)"

definition KeyPrefixUpperBound :: "bytes \<Rightarrow> bytes option" where
  "KeyPrefixUpperBound start = upper_bound_loop start (length start)"

subsection \<open>The synced map\<close>

text \<open>The order in which \<^verbatim>\<open>range\<close> visits a map is an argument. A Go string key is its bytes.\<close>

type_synonym kv_map = "bytes \<rightharpoonup> bytes"

definition skv_has :: "kv_map \<Rightarrow> bytes \<Rightarrow> bool" where
  "skv_has m key \<longleftrightarrow> m key \<noteq> None"

definition skv_get :: "kv_map \<Rightarrow> bytes \<Rightarrow> bytes option" where
  "skv_get m key = map_option (\<lambda>value. ConcatBytes [value]) (m key)"

definition skv_set :: "kv_map \<Rightarrow> bytes \<Rightarrow> bytes \<Rightarrow> kv_map" where
  "skv_set m key value = m(key \<mapsto> ConcatBytes [value])"

definition skv_delete :: "kv_map \<Rightarrow> bytes \<Rightarrow> kv_map" where
  "skv_delete m key = m(key := None)"

definition skv_deletePrefix :: "(kv_map \<Rightarrow> bytes list) \<Rightarrow> kv_map \<Rightarrow> bytes \<Rightarrow> kv_map" where
  "skv_deletePrefix ord m p = fold (\<lambda>key m. if has_prefix key p then m(key := None) else m) (ord m) m"

definition skv_iterate :: "(kv_map \<Rightarrow> bytes list) \<Rightarrow> kv_map \<Rightarrow> bytes \<Rightarrow> bytes \<Rightarrow> IterDirection list \<Rightarrow> (bytes \<times> bytes) list option" where
  "skv_iterate ord m realm keyPrefix iterDirection = do {
     let prefix = ConcatBytes [realm, keyPrefix];
     let copiedElements = fold (\<lambda>key c. if has_prefix key prefix then c(key \<mapsto> ConcatBytes [the (m key)]) else c) (ord m) Map.empty;
     let keysSlice = ord copiedElements;
     keys \<leftarrow> SortSlice keysSlice iterDirection;
     Some (map (\<lambda>key. (drop (length realm) key, the (copiedElements key))) keys)
   }"

definition skv_iterateKeys :: "(kv_map \<Rightarrow> bytes list) \<Rightarrow> ((bytes \<rightharpoonup> unit) \<Rightarrow> bytes list) \<Rightarrow> kv_map \<Rightarrow> bytes \<Rightarrow> bytes \<Rightarrow> IterDirection list
    \<Rightarrow> bytes list option" where
  "skv_iterateKeys ord ordu m realm keyPrefix iterDirection = do {
     let prefix = ConcatBytes [realm, keyPrefix];
     let copiedElements = fold (\<lambda>key c. if has_prefix key prefix then c(key \<mapsto> ()) else c) (ord m) Map.empty;
     let keysSlice = ordu copiedElements;
     keys \<leftarrow> SortSlice keysSlice iterDirection;
     Some (map (\<lambda>key. drop (length realm) key) keys)
   }"

subsection \<open>The store\<close>

text \<open>All handles of a database share the map and the flag; a handle is its realm.\<close>

record mapDB =
  db_m :: kv_map
  db_closed :: bool

definition NewMapDB :: mapDB where
  "NewMapDB = \<lparr>db_m = Map.empty, db_closed = False\<rparr>"

definition mapDB_WithRealm :: "bytes \<Rightarrow> mapDB \<Rightarrow> kv_error + bytes" where
  "mapDB_WithRealm realm s = (if db_closed s then Inl ErrStoreClosed else Inr realm)"

definition mapDB_Realm :: "bytes \<Rightarrow> bytes" where
  "mapDB_Realm realm = ConcatBytes [realm]"

definition mapDB_WithExtendedRealm :: "bytes \<Rightarrow> bytes \<Rightarrow> mapDB \<Rightarrow> kv_error + bytes" where
  "mapDB_WithExtendedRealm own realm s = mapDB_WithRealm (ConcatBytes [mapDB_Realm own, realm]) s"

definition mapDB_Iterate :: "(kv_map \<Rightarrow> bytes list) \<Rightarrow> bytes \<Rightarrow> bytes \<Rightarrow> IterDirection list \<Rightarrow> mapDB \<Rightarrow> (kv_error + (bytes \<times> bytes) list) option" where
  "mapDB_Iterate ord realm p iterDirection s =
     (if db_closed s then Some (Inl ErrStoreClosed) else map_option Inr (skv_iterate ord (db_m s) realm p iterDirection))"

definition mapDB_IterateKeys ::
  "(kv_map \<Rightarrow> bytes list) \<Rightarrow> ((bytes \<rightharpoonup> unit) \<Rightarrow> bytes list) \<Rightarrow> bytes \<Rightarrow> bytes \<Rightarrow> IterDirection list \<Rightarrow> mapDB
     \<Rightarrow> (kv_error + bytes list) option" where
  "mapDB_IterateKeys ord ordu realm p iterDirection s =
     (if db_closed s then Some (Inl ErrStoreClosed) else map_option Inr (skv_iterateKeys ord ordu (db_m s) realm p iterDirection))"

definition mapDB_Clear :: "(kv_map \<Rightarrow> bytes list) \<Rightarrow> bytes \<Rightarrow> mapDB \<Rightarrow> mapDB \<times> kv_error option" where
  "mapDB_Clear ord realm s =
     (if db_closed s then (s, Some ErrStoreClosed) else (s\<lparr>db_m := skv_deletePrefix ord (db_m s) realm\<rparr>, None))"

definition mapDB_Get :: "bytes \<Rightarrow> bytes \<Rightarrow> mapDB \<Rightarrow> kv_error + bytes" where
  "mapDB_Get realm key s =
     (if db_closed s then Inl ErrStoreClosed
      else case skv_get (db_m s) (ConcatBytes [realm, key]) of None \<Rightarrow> Inl ErrKeyNotFound | Some value \<Rightarrow> Inr value)"

definition mapDB_set :: "bytes \<Rightarrow> bytes \<Rightarrow> bytes \<Rightarrow> mapDB \<Rightarrow> mapDB" where
  "mapDB_set realm key value s = s\<lparr>db_m := skv_set (db_m s) (ConcatBytes [realm, key]) value\<rparr>"

definition mapDB_Set :: "bytes \<Rightarrow> bytes \<Rightarrow> bytes \<Rightarrow> mapDB \<Rightarrow> mapDB \<times> kv_error option" where
  "mapDB_Set realm key value s = (if db_closed s then (s, Some ErrStoreClosed) else (mapDB_set realm key value s, None))"

definition mapDB_Has :: "bytes \<Rightarrow> bytes \<Rightarrow> mapDB \<Rightarrow> kv_error + bool" where
  "mapDB_Has realm key s = (if db_closed s then Inl ErrStoreClosed else Inr (skv_has (db_m s) (ConcatBytes [realm, key])))"

definition mapDB_delete :: "bytes \<Rightarrow> bytes \<Rightarrow> mapDB \<Rightarrow> mapDB" where
  "mapDB_delete realm key s = s\<lparr>db_m := skv_delete (db_m s) (ConcatBytes [realm, key])\<rparr>"

definition mapDB_Delete :: "bytes \<Rightarrow> bytes \<Rightarrow> mapDB \<Rightarrow> mapDB \<times> kv_error option" where
  "mapDB_Delete realm key s = (if db_closed s then (s, Some ErrStoreClosed) else (mapDB_delete realm key s, None))"

definition mapDB_DeletePrefix :: "(kv_map \<Rightarrow> bytes list) \<Rightarrow> bytes \<Rightarrow> bytes \<Rightarrow> mapDB \<Rightarrow> mapDB \<times> kv_error option" where
  "mapDB_DeletePrefix ord realm p s =
     (if db_closed s then (s, Some ErrStoreClosed) else (s\<lparr>db_m := skv_deletePrefix ord (db_m s) (ConcatBytes [realm, p])\<rparr>, None))"

definition mapDB_Flush :: "mapDB \<Rightarrow> mapDB \<times> kv_error option" where
  "mapDB_Flush s = (s, if db_closed s then Some ErrStoreClosed else None)"

definition mapDB_Close :: "mapDB \<Rightarrow> mapDB \<times> kv_error option" where
  "mapDB_Close s = (s\<lparr>db_closed := True\<rparr>, None)"

record mapDB_batch =
  setOperations :: kv_map
  deleteOperations :: "bytes \<rightharpoonup> unit"

definition mapDB_Batched :: "mapDB \<Rightarrow> kv_error + mapDB_batch" where
  "mapDB_Batched s =
     (if db_closed s then Inl ErrStoreClosed else Inr \<lparr>setOperations = Map.empty, deleteOperations = Map.empty\<rparr>)"

definition batch_Set :: "bytes \<Rightarrow> bytes \<Rightarrow> mapDB_batch \<Rightarrow> mapDB_batch \<times> kv_error option" where
  "batch_Set key value b =
     (let stringKey = ConcatBytes [key] in
      (\<lparr>setOperations = (setOperations b)(stringKey \<mapsto> value), deleteOperations = (deleteOperations b)(stringKey := None)\<rparr>, None))"

definition batch_Delete :: "bytes \<Rightarrow> mapDB_batch \<Rightarrow> mapDB_batch \<times> kv_error option" where
  "batch_Delete key b =
     (let stringKey = ConcatBytes [key] in
      (\<lparr>setOperations = (setOperations b)(stringKey := None), deleteOperations = (deleteOperations b)(stringKey \<mapsto> ())\<rparr>, None))"

definition batch_Cancel :: "mapDB_batch \<Rightarrow> mapDB_batch" where
  "batch_Cancel b = \<lparr>setOperations = Map.empty, deleteOperations = Map.empty\<rparr>"

definition batch_Commit ::
  "(kv_map \<Rightarrow> bytes list) \<Rightarrow> ((bytes \<rightharpoonup> unit) \<Rightarrow> bytes list) \<Rightarrow> bytes \<Rightarrow> mapDB_batch \<Rightarrow> mapDB \<Rightarrow> mapDB \<times> kv_error option" where
  "batch_Commit ord ordu realm b s =
     (if db_closed s then (s, Some ErrStoreClosed)
      else let s = fold (\<lambda>key s. mapDB_set realm key (the (setOperations b key)) s) (ord (setOperations b)) s;
               s = fold (\<lambda>key s. mapDB_delete realm key s) (ordu (deleteOperations b)) s
           in (s, None))"

definition mapDB_KVStore ::
  "(kv_map \<Rightarrow> bytes list) \<Rightarrow> ((bytes \<rightharpoonup> unit) \<Rightarrow> bytes list) \<Rightarrow> bytes \<Rightarrow> (mapDB, mapDB_batch) KVStore" where
  "mapDB_KVStore ord ordu realm =
     \<lparr>kv_Realm = mapDB_Realm realm, kv_Get = mapDB_Get realm, kv_Has = mapDB_Has realm, kv_Set = mapDB_Set realm,
      kv_Delete = mapDB_Delete realm, kv_DeletePrefix = mapDB_DeletePrefix ord realm, kv_Clear = mapDB_Clear ord realm,
      kv_Flush = mapDB_Flush, kv_Close = mapDB_Close, kv_Iterate = mapDB_Iterate ord realm,
      kv_IterateKeys = mapDB_IterateKeys ord ordu realm, kv_Batched = mapDB_Batched,
      b_Set = batch_Set, b_Delete = batch_Delete, b_Cancel = batch_Cancel, b_Commit = batch_Commit ord ordu realm\<rparr>"

subsection \<open>The flushing store\<close>

text \<open>\<^verbatim>\<open>flushkv\<close> wraps a store and flushes after every change.\<close>

definition and_Flush :: "('s, 'b) KVStore \<Rightarrow> 's \<times> kv_error option \<Rightarrow> 's \<times> kv_error option" where
  "and_Flush store r = (if snd r \<noteq> None then r else kv_Flush store (fst r))"

definition flushKVStore :: "('s, 'b) KVStore \<Rightarrow> ('s, 'b) KVStore" where
  "flushKVStore store = store
     \<lparr>kv_Clear := \<lambda>s. and_Flush store (kv_Clear store s),
      kv_Set := \<lambda>key value s. and_Flush store (kv_Set store key value s),
      kv_Delete := \<lambda>key s. and_Flush store (kv_Delete store key s),
      kv_DeletePrefix := \<lambda>p s. and_Flush store (kv_DeletePrefix store p s),
      b_Commit := \<lambda>b s. and_Flush store (b_Commit store b s)\<rparr>"

text \<open>What a handle of the map database shows, and the pending mutations of a batch.\<close>

definition db_contents :: "bytes \<Rightarrow> mapDB \<Rightarrow> bytes \<rightharpoonup> bytes" where
  "db_contents realm s k = db_m s (realm @ k)"

definition db_inv :: "(kv_map \<Rightarrow> bytes list) \<Rightarrow> ((bytes \<rightharpoonup> unit) \<Rightarrow> bytes list) \<Rightarrow> mapDB \<Rightarrow> bool" where
  "db_inv ord ordu s \<longleftrightarrow> good_order ord \<and> good_order ordu \<and> finite (dom (db_m s))"

definition batch_pending :: "mapDB_batch \<Rightarrow> bytes \<rightharpoonup> bytes option" where
  "batch_pending b k = (if deleteOperations b k \<noteq> None then Some None else map_option Some (setOperations b k))"

definition batch_inv :: "mapDB_batch \<Rightarrow> bool" where
  "batch_inv b \<longleftrightarrow> finite (dom (setOperations b)) \<and> finite (dom (deleteOperations b))"

section \<open>Lemmas\<close>

lemma ConcatBytes_simps [simp]: "ConcatBytes [a] = a" "ConcatBytes [a, b] = a @ b"
  by (simp_all add: ConcatBytes_def)

lemma has_prefix_append [simp]: "has_prefix (r @ k) (r @ p) \<longleftrightarrow> has_prefix k p"
  by (simp add: has_prefix_def)

lemma has_prefix_conv: "has_prefix k p \<longleftrightarrow> (\<exists>q. k = p @ q)"
  unfolding has_prefix_def by (metis append_eq_conv_conj append_take_drop_id)

lemma deletePrefix_fold: "fold (\<lambda>key m. if has_prefix key p then m(key := None) else m) ks m = m |` {k. \<not> (k \<in> set ks \<and> has_prefix k p)}"
  by (induction ks arbitrary: m) (auto simp: restrict_map_def fun_eq_iff)

lemma skv_deletePrefix_eq: "good_order ord \<Longrightarrow> finite (dom m) \<Longrightarrow> skv_deletePrefix ord m p = m |` {k. \<not> has_prefix k p}"
  using good_orderD [of ord m] by (auto simp: skv_deletePrefix_def deletePrefix_fold enumerates_def restrict_map_def fun_eq_iff domIff)

lemma snapshot_fold:
  "fold (\<lambda>key c. if has_prefix key p then c(key \<mapsto> f key) else c) ks c =
     (\<lambda>k. if k \<in> set ks \<and> has_prefix k p then Some (f k) else c k)"
  by (induction ks arbitrary: c) (auto simp: fun_eq_iff)

lemma sort_enumerates: "enumerates ks m \<Longrightarrow> sort ks = sorted_list_of_set (dom m)"
  using sorted_list_of_set_sort_remdups [of ks] by (auto simp: enumerates_def distinct_remdups_id)

text \<open>Dropping a common prefix keeps the order of the keys.\<close>

lemma append_less_cancel: "(r :: bytes) @ a < r @ b \<longleftrightarrow> a < b"
  by (induction r) auto

lemma sorted_strip:
  assumes "finite A" and "\<And>k. k \<in> A \<Longrightarrow> has_prefix k (r :: bytes)"
  shows "map (drop (length r)) (sorted_list_of_set A) = sorted_list_of_set {k. r @ k \<in> A}"
proof (rule strict_sorted_equal)
  have A: "\<exists>q. k = r @ q" if "k \<in> A" for k using assms(2) [OF that] by (simp add: has_prefix_conv)
  have im: "drop (length r) ` A = {k. r @ k \<in> A}" using A by force
  then have fin: "finite {k. r @ k \<in> A}" using assms(1) by (metis finite_imageI)
  let ?xs = "sorted_list_of_set A"
  have xs: "set ?xs = A" "sorted_wrt (<) ?xs" using assms(1) by (simp_all add: strict_sorted_list_of_set)
  have "sorted_wrt (\<lambda>a b. drop (length r) a < drop (length r) b) ?xs"
  proof (rule sorted_wrt_mono_rel [OF _ xs(2)])
    fix a b assume ab: "a \<in> set ?xs" "b \<in> set ?xs" "a < b"
    then obtain qa qb where "a = r @ qa" "b = r @ qb" using A unfolding xs(1) by meson
    then show "drop (length r) a < drop (length r) b" using ab(3) by (simp add: append_less_cancel)
  qed
  then show "sorted_wrt (<) (map (drop (length r)) ?xs)" by (simp add: sorted_wrt_map)
  show "sorted_wrt (<) (sorted_list_of_set {k. r @ k \<in> A})" by (rule strict_sorted_list_of_set)
  show "set (map (drop (length r)) ?xs) = set (sorted_list_of_set {k. r @ k \<in> A})" using xs(1) fin im by simp
qed

lemma skv_iterate_eq:
  assumes ord: "good_order ord" and fin: "finite (dom m)" and d: "GetIterDirection dir = Some d"
  shows "skv_iterate ord m realm p dir =
    Some (if d = IterDirectionForward then listing (\<lambda>k. m (realm @ k)) p else rev (listing (\<lambda>k. m (realm @ k)) p))"
proof -
  define c where "c = (\<lambda>k. if k \<in> dom m \<and> has_prefix k (realm @ p) then Some (the (m k)) else None)"
  have snap: "fold (\<lambda>key c. if has_prefix key (realm @ p) then c(key \<mapsto> ConcatBytes [the (m key)]) else c) (ord m) Map.empty = c"
    using good_orderD [OF ord fin] by (auto simp: snapshot_fold enumerates_def c_def fun_eq_iff)
  have A: "dom c = {k \<in> dom m. has_prefix k (realm @ p)}" by (auto simp: c_def domIff split: if_splits)
  then have finc: "finite (dom c)" using fin by simp
  have sorted: "sort (ord c) = sorted_list_of_set (dom c)" by (rule sort_enumerates [OF good_orderD [OF ord finc]])
  have strip: "map (drop (length realm)) (sorted_list_of_set (dom c)) = sorted_list_of_set {k. realm @ k \<in> dom c}"
    by (rule sorted_strip [OF finc]) (auto simp: A has_prefix_conv)
  have keys: "{k. realm @ k \<in> dom c} = {k \<in> dom (\<lambda>k. m (realm @ k)). has_prefix k p}" unfolding A by auto
  have "map (\<lambda>key. (drop (length realm) key, the (c key))) (sorted_list_of_set (dom c)) =
      map (\<lambda>k. (k, the (m (realm @ k)))) (map (drop (length realm)) (sorted_list_of_set (dom c)))"
    using finc by (auto simp: A has_prefix_conv c_def domIff)
  also have "\<dots> = listing (\<lambda>k. m (realm @ k)) p" unfolding strip keys listing_def ..
  finally have "map (\<lambda>key. (drop (length realm) key, the (c key))) (sorted_list_of_set (dom c)) = listing (\<lambda>k. m (realm @ k)) p" .
  then show ?thesis by (simp add: skv_iterate_def snap SortSlice_def d sorted rev_map [symmetric] Let_def del: map_map)
qed

lemma skv_iterateKeys_eq:
  assumes ord: "good_order ord" and ordu: "good_order ordu" and fin: "finite (dom m)" and d: "GetIterDirection dir = Some d"
  shows "skv_iterateKeys ord ordu m realm p dir = map_option (map fst) (skv_iterate ord m realm p dir)"
proof -
  define c where "c = (\<lambda>k. if k \<in> dom m \<and> has_prefix k (realm @ p) then Some () else None)"
  have snap: "fold (\<lambda>key c. if has_prefix key (realm @ p) then c(key \<mapsto> ()) else c) (ord m) Map.empty = c"
    using good_orderD [OF ord fin] by (simp add: snapshot_fold enumerates_def c_def)
  have A: "dom c = {k \<in> dom m. has_prefix k (realm @ p)}" by (auto simp: c_def domIff split: if_splits)
  then have finc: "finite (dom c)" using fin by simp
  have sorted: "sort (ordu c) = sorted_list_of_set (dom c)" by (rule sort_enumerates [OF good_orderD [OF ordu finc]])
  have strip: "map (drop (length realm)) (sorted_list_of_set (dom c)) = sorted_list_of_set {k. realm @ k \<in> dom c}"
    by (rule sorted_strip [OF finc]) (auto simp: A has_prefix_conv)
  have keys: "{k. realm @ k \<in> dom c} = {k \<in> dom (\<lambda>k. m (realm @ k)). has_prefix k p}" unfolding A by auto
  show ?thesis unfolding skv_iterate_eq [OF ord fin d]
    by (simp add: skv_iterateKeys_def snap SortSlice_def d sorted rev_map [symmetric] Let_def strip keys listing_def comp_def)
qed

lemma commit_sets:
  "db_closed (fold (\<lambda>key s. mapDB_set realm key (f key) s) ks s) = db_closed s \<and>
   db_m (fold (\<lambda>key s. mapDB_set realm key (f key) s) ks s) = (db_m s) ++ (\<lambda>k. if \<exists>q \<in> set ks. k = realm @ q then Some (f (drop (length realm) k)) else None)"
proof (induction ks arbitrary: s)
  case (Cons k ks)
  show ?case using Cons.IH [of "mapDB_set realm k (f k) s"]
    by (auto simp: mapDB_set_def skv_set_def map_add_def fun_eq_iff split: option.splits if_splits)
qed (simp add: map_add_def fun_eq_iff)

lemma commit_deletes:
  "db_closed (fold (\<lambda>key s. mapDB_delete realm key s) ks s) = db_closed s \<and>
   db_m (fold (\<lambda>key s. mapDB_delete realm key s) ks s) = db_m s |` {k. \<not> (\<exists>q \<in> set ks. k = realm @ q)}"
proof (induction ks arbitrary: s)
  case (Cons k ks)
  show ?case using Cons.IH [of "mapDB_delete realm k s"]
    by (auto simp: mapDB_delete_def skv_delete_def restrict_map_def fun_eq_iff)
qed (simp add: restrict_map_def fun_eq_iff)

lemma has_prefix_self [simp]: "has_prefix (r @ k) r"
  by (simp add: has_prefix_def)

lemma finite_dom_if: "finite (dom m) \<Longrightarrow> finite (dom (\<lambda>x. if P x then m x else None))"
  by (rule finite_subset [of _ "dom m"]) (auto split: if_splits)

lemma finite_db_contents: "finite (dom (db_m s)) \<Longrightarrow> finite (dom (db_contents realm s))"
proof -
  assume "finite (dom (db_m s))"
  moreover have "(@) realm ` dom (db_contents realm s) \<subseteq> dom (db_m s)" by (auto simp: db_contents_def domIff)
  moreover have "inj_on ((@) realm) (dom (db_contents realm s))" by (simp add: inj_on_def)
  ultimately show ?thesis by (meson finite_imageD finite_subset)
qed

lemma batch_Commit_eq:
  assumes inv: "db_inv ord ordu s" and b: "batch_inv b" and opened: "\<not> db_closed s"
  shows "\<exists>s'. batch_Commit ord ordu realm b s = (s', None) \<and> db_inv ord ordu s' \<and> \<not> db_closed s' \<and>
    db_contents realm s' = apply_pending (batch_pending b) (db_contents realm s)"
proof -
  have sets: "set (ord (setOperations b)) = dom (setOperations b)" "set (ordu (deleteOperations b)) = dom (deleteOperations b)"
    using inv b by (auto simp: db_inv_def batch_inv_def dest!: good_orderD simp: enumerates_def)
  let ?s1 = "fold (\<lambda>key s. mapDB_set realm key (the (setOperations b key)) s) (ord (setOperations b)) s"
  let ?s2 = "fold (\<lambda>key s. mapDB_delete realm key s) (ordu (deleteOperations b)) ?s1"
  note s1 = commit_sets [of realm "\<lambda>key. the (setOperations b key)" "ord (setOperations b)" s]
  note s2 = commit_deletes [of realm "ordu (deleteOperations b)" ?s1]
  have "dom (db_m ?s1) \<subseteq> dom (db_m s) \<union> (@) realm ` dom (setOperations b)"
    using s1 sets by (auto simp: map_add_def image_iff split: option.splits if_splits)
  moreover have "finite (dom (db_m s) \<union> (@) realm ` dom (setOperations b))" using inv b by (simp add: db_inv_def batch_inv_def)
  ultimately have "finite (dom (db_m ?s1))" by (rule finite_subset)
  then have "db_inv ord ordu ?s2" using s2 inv by (simp add: db_inv_def)
  moreover have "db_contents realm ?s2 k = apply_pending (batch_pending b) (db_contents realm s) k" for k
    using s1 s2 sets
    by (cases "deleteOperations b k"; cases "setOperations b k")
      (auto simp: db_contents_def apply_pending_def batch_pending_def restrict_map_def map_add_def domIff)
  ultimately show ?thesis using s1 s2 opened
    by (intro exI [of _ ?s2]) (simp add: batch_Commit_def Let_def fun_eq_iff)
qed

lemma iterate_keys:
  assumes "db_inv ord ordu s"
  shows "mapDB_IterateKeys ord ordu realm p dir s = map_option (map_sum id (map fst)) (mapDB_Iterate ord realm p dir s)"
proof -
  have ord: "good_order ord" "good_order ordu" "finite (dom (db_m s))" using assms by (simp_all add: db_inv_def)
  show ?thesis
  proof (cases "GetIterDirection dir")
    case None
    then show ?thesis by (simp add: mapDB_IterateKeys_def mapDB_Iterate_def skv_iterateKeys_def skv_iterate_def SortSlice_def Let_def)
  next
    case (Some d)
    then show ?thesis using skv_iterateKeys_eq [OF ord, of dir d realm p] skv_iterate_eq [OF ord(1,3), of dir d realm p]
      by (simp add: mapDB_IterateKeys_def mapDB_Iterate_def)
  qed
qed

interpretation map_db: kv_contract "mapDB_KVStore ord ordu realm" "db_contents realm" db_closed "db_inv ord ordu" batch_pending batch_inv
proof
  fix s :: mapDB and k v p dir d b
  assume inv: "db_inv ord ordu s"
  then have ord: "good_order ord" "finite (dom (db_m s))" by (simp_all add: db_inv_def)
  show "finite (dom (db_contents realm s))" by (rule finite_db_contents [OF ord(2)])
  show "kv_Get (mapDB_KVStore ord ordu realm) k s =
      (if db_closed s then Inl ErrStoreClosed else case db_contents realm s k of None \<Rightarrow> Inl ErrKeyNotFound | Some v \<Rightarrow> Inr v)"
    by (simp add: mapDB_KVStore_def mapDB_Get_def skv_get_def db_contents_def split: option.split)
  show "kv_Has (mapDB_KVStore ord ordu realm) k s = (if db_closed s then Inl ErrStoreClosed else Inr (db_contents realm s k \<noteq> None))"
    by (simp add: mapDB_KVStore_def mapDB_Has_def skv_has_def db_contents_def)
  show "\<exists>s'. kv_Close (mapDB_KVStore ord ordu realm) s = (s', None) \<and> db_inv ord ordu s' \<and> db_closed s' \<and>
      db_contents realm s' = db_contents realm s"
    using inv by (simp add: mapDB_KVStore_def mapDB_Close_def db_inv_def db_contents_def fun_eq_iff)
  show "db_closed s \<Longrightarrow> kv_Iterate (mapDB_KVStore ord ordu realm) p dir s = Some (Inl ErrStoreClosed)"
    by (simp add: mapDB_KVStore_def mapDB_Iterate_def)
  show "kv_IterateKeys (mapDB_KVStore ord ordu realm) p dir s =
      map_option (map_sum id (map fst)) (kv_Iterate (mapDB_KVStore ord ordu realm) p dir s)"
    using iterate_keys [OF inv] by (simp add: mapDB_KVStore_def)
  show "db_closed s \<Longrightarrow> kv_Set (mapDB_KVStore ord ordu realm) k v s = (s, Some ErrStoreClosed) \<and>
      kv_Delete (mapDB_KVStore ord ordu realm) k s = (s, Some ErrStoreClosed) \<and>
      kv_DeletePrefix (mapDB_KVStore ord ordu realm) k s = (s, Some ErrStoreClosed) \<and>
      kv_Clear (mapDB_KVStore ord ordu realm) s = (s, Some ErrStoreClosed) \<and>
      kv_Flush (mapDB_KVStore ord ordu realm) s = (s, Some ErrStoreClosed) \<and>
      kv_Batched (mapDB_KVStore ord ordu realm) s = Inl ErrStoreClosed \<and>
      b_Commit (mapDB_KVStore ord ordu realm) b s = (s, Some ErrStoreClosed)"
    by (simp add: mapDB_KVStore_def mapDB_Set_def mapDB_Delete_def mapDB_DeletePrefix_def mapDB_Clear_def mapDB_Flush_def
        mapDB_Batched_def batch_Commit_def)
  assume opened: "\<not> db_closed s"
  show "\<exists>s'. kv_Set (mapDB_KVStore ord ordu realm) k v s = (s', None) \<and> db_inv ord ordu s' \<and> \<not> db_closed s' \<and>
      db_contents realm s' = (db_contents realm s)(k \<mapsto> v)"
    using inv opened by (simp add: mapDB_KVStore_def mapDB_Set_def mapDB_set_def skv_set_def db_inv_def db_contents_def fun_eq_iff)
  show "\<exists>s'. kv_Delete (mapDB_KVStore ord ordu realm) k s = (s', None) \<and> db_inv ord ordu s' \<and> \<not> db_closed s' \<and>
      db_contents realm s' = (db_contents realm s)(k := None)"
    using inv opened by (simp add: mapDB_KVStore_def mapDB_Delete_def mapDB_delete_def skv_delete_def db_inv_def db_contents_def fun_eq_iff)
  show "\<exists>s'. kv_DeletePrefix (mapDB_KVStore ord ordu realm) p s = (s', None) \<and> db_inv ord ordu s' \<and> \<not> db_closed s' \<and>
      db_contents realm s' = db_contents realm s |` {k. \<not> has_prefix k p}"
    using inv opened ord by (simp add: mapDB_KVStore_def mapDB_DeletePrefix_def skv_deletePrefix_eq finite_dom_if db_inv_def db_contents_def fun_eq_iff restrict_map_def)
  show "\<exists>s'. kv_Clear (mapDB_KVStore ord ordu realm) s = (s', None) \<and> db_inv ord ordu s' \<and> \<not> db_closed s' \<and>
      db_contents realm s' = Map.empty"
    using inv opened ord by (simp add: mapDB_KVStore_def mapDB_Clear_def skv_deletePrefix_eq finite_dom_if db_inv_def db_contents_def fun_eq_iff restrict_map_def)
  show "\<exists>s'. kv_Flush (mapDB_KVStore ord ordu realm) s = (s', None) \<and> db_inv ord ordu s' \<and> \<not> db_closed s' \<and>
      db_contents realm s' = db_contents realm s"
    using inv opened by (simp add: mapDB_KVStore_def mapDB_Flush_def)
  show "GetIterDirection dir = Some d \<Longrightarrow> kv_Iterate (mapDB_KVStore ord ordu realm) p dir s =
      Some (Inr (if d = IterDirectionForward then listing (db_contents realm s) p else rev (listing (db_contents realm s) p)))"
    using opened skv_iterate_eq [OF ord, of dir d realm p]
    by (simp add: mapDB_KVStore_def mapDB_Iterate_def db_contents_def [abs_def])
  show "\<exists>b. kv_Batched (mapDB_KVStore ord ordu realm) s = Inr b \<and> batch_inv b \<and> batch_pending b = Map.empty"
    using opened by (simp add: mapDB_KVStore_def mapDB_Batched_def batch_inv_def batch_pending_def fun_eq_iff)
  show "batch_inv b \<Longrightarrow> \<exists>s'. b_Commit (mapDB_KVStore ord ordu realm) b s = (s', None) \<and> db_inv ord ordu s' \<and> \<not> db_closed s' \<and>
      db_contents realm s' = apply_pending (batch_pending b) (db_contents realm s)"
    using batch_Commit_eq [OF inv _ opened] by (simp add: mapDB_KVStore_def)
qed (auto simp: mapDB_KVStore_def batch_Set_def batch_Delete_def batch_Cancel_def batch_inv_def batch_pending_def fun_eq_iff Let_def)

text \<open>Flushing after every change keeps the contract.\<close>

context kv_contract
begin

lemma flushing: "kv_contract (flushKVStore kv) contents closed inv pending binv"
proof
  fix s k v p dir d b
  assume inv: "inv s"
  show "finite (dom (contents s))" by (rule finite_contents [OF inv])
  show "kv_Get (flushKVStore kv) k s =
      (if closed s then Inl ErrStoreClosed else case contents s k of None \<Rightarrow> Inl ErrKeyNotFound | Some v \<Rightarrow> Inr v)"
    using Get_law [OF inv] by (simp add: flushKVStore_def)
  show "kv_Has (flushKVStore kv) k s = (if closed s then Inl ErrStoreClosed else Inr (contents s k \<noteq> None))"
    using Has_law [OF inv] by (simp add: flushKVStore_def)
  show "\<exists>s'. kv_Close (flushKVStore kv) s = (s', None) \<and> inv s' \<and> closed s' \<and> contents s' = contents s"
    using Close_law [OF inv] by (simp add: flushKVStore_def)
  show "closed s \<Longrightarrow> kv_Iterate (flushKVStore kv) p dir s = Some (Inl ErrStoreClosed)"
    using Iterate_closed [OF inv] by (simp add: flushKVStore_def)
  show "kv_IterateKeys (flushKVStore kv) p dir s = map_option (map_sum id (map fst)) (kv_Iterate (flushKVStore kv) p dir s)"
    using IterateKeys_law [OF inv] by (simp add: flushKVStore_def)
  show "closed s \<Longrightarrow> kv_Set (flushKVStore kv) k v s = (s, Some ErrStoreClosed) \<and> kv_Delete (flushKVStore kv) k s = (s, Some ErrStoreClosed) \<and>
      kv_DeletePrefix (flushKVStore kv) k s = (s, Some ErrStoreClosed) \<and> kv_Clear (flushKVStore kv) s = (s, Some ErrStoreClosed) \<and>
      kv_Flush (flushKVStore kv) s = (s, Some ErrStoreClosed) \<and> kv_Batched (flushKVStore kv) s = Inl ErrStoreClosed \<and>
      b_Commit (flushKVStore kv) b s = (s, Some ErrStoreClosed)"
    using closed_law [OF inv] by (simp add: flushKVStore_def and_Flush_def)
  assume opened: "\<not> closed s"
  show "GetIterDirection dir = Some d \<Longrightarrow> kv_Iterate (flushKVStore kv) p dir s =
      Some (Inr (if d = IterDirectionForward then listing (contents s) p else rev (listing (contents s) p)))"
    using Iterate_law [OF inv opened] by (simp add: flushKVStore_def)
  show "\<exists>b. kv_Batched (flushKVStore kv) s = Inr b \<and> binv b \<and> pending b = Map.empty"
    using Batched_law [OF inv opened] by (simp add: flushKVStore_def)
  show "\<exists>s'. kv_Flush (flushKVStore kv) s = (s', None) \<and> inv s' \<and> \<not> closed s' \<and> contents s' = contents s"
    using Flush_law [OF inv opened] by (simp add: flushKVStore_def)
  have flush: "\<exists>s2. and_Flush kv (s1, None) = (s2, None) \<and> inv s2 \<and> \<not> closed s2 \<and> contents s2 = contents s1"
    if "inv s1" "\<not> closed s1" for s1
    using Flush_law [OF that] by (simp add: and_Flush_def)
  show "\<exists>s'. kv_Set (flushKVStore kv) k v s = (s', None) \<and> inv s' \<and> \<not> closed s' \<and> contents s' = (contents s)(k \<mapsto> v)"
    using Set_law [OF inv opened, of k v] flush by (fastforce simp: flushKVStore_def)
  show "\<exists>s'. kv_Delete (flushKVStore kv) k s = (s', None) \<and> inv s' \<and> \<not> closed s' \<and> contents s' = (contents s)(k := None)"
    using Delete_law [OF inv opened, of k] flush by (fastforce simp: flushKVStore_def)
  show "\<exists>s'. kv_DeletePrefix (flushKVStore kv) p s = (s', None) \<and> inv s' \<and> \<not> closed s' \<and> contents s' = contents s |` {k. \<not> has_prefix k p}"
    using DeletePrefix_law [OF inv opened, of p] flush by (fastforce simp: flushKVStore_def)
  show "\<exists>s'. kv_Clear (flushKVStore kv) s = (s', None) \<and> inv s' \<and> \<not> closed s' \<and> contents s' = Map.empty"
    using Clear_law [OF inv opened] flush by (fastforce simp: flushKVStore_def)
  show "binv b \<Longrightarrow> \<exists>s'. b_Commit (flushKVStore kv) b s = (s', None) \<and> inv s' \<and> \<not> closed s' \<and> contents s' = apply_pending (pending b) (contents s)"
    using b_Commit_law [OF inv opened, of b] flush by (fastforce simp: flushKVStore_def)
qed (simp_all add: flushKVStore_def b_Set_law b_Delete_law b_Cancel_law)

end

interpretation flush_db: kv_contract "flushKVStore (mapDB_KVStore ord ordu realm)" "db_contents realm" db_closed "db_inv ord ordu" batch_pending batch_inv
  by (rule map_db.flushing)


interpretation realm_copy: kv_copy "mapDB_KVStore ord ordu r1" "db_contents r1" db_closed "db_inv ord ordu" batch_pending batch_inv
  "flushKVStore (mapDB_KVStore ord ordu r2)" "db_contents r2" db_closed "db_inv ord ordu" batch_pending batch_inv
  by unfold_locales

text \<open>A handle touches only the keys under its realm.\<close>

lemma batch_loops_frame:
  assumes "\<not> has_prefix k realm"
  shows "db_m (fold (\<lambda>key s. mapDB_set realm key (f key) s) ks s) k = db_m s k"
    and "db_m (fold (\<lambda>key s. mapDB_delete realm key s) ks s) k = db_m s k"
  using assms commit_sets [of realm f ks s] commit_deletes [of realm ks s]
  by (auto simp: map_add_def restrict_map_def split: option.splits)

lemma step_frame:
  assumes "db_inv ord ordu s" and out: "\<not> has_prefix k realm"
    and "kv_step (mapDB_KVStore ord ordu realm) s op = Some (s', r)"
  shows "db_m s' k = db_m s k"
proof -
  have ord: "good_order ord" "finite (dom (db_m s))" using assms(1) by (simp_all add: db_inv_def)
  have "\<not> has_prefix k (realm @ p)" "k \<noteq> realm @ p" for p using out by (auto simp: has_prefix_conv)
  then show ?thesis using assms(3) out
    by (cases op) (auto simp: mapDB_KVStore_def mapDB_Set_def mapDB_set_def skv_set_def mapDB_Delete_def mapDB_delete_def skv_delete_def
        mapDB_DeletePrefix_def mapDB_Clear_def skv_deletePrefix_eq [OF ord] mapDB_Flush_def mapDB_Close_def batch_Commit_def Let_def
        batch_loops_frame restrict_map_def split: sum.splits if_splits)
qed

lemma run_frame:
  "db_inv ord ordu s \<Longrightarrow> \<not> has_prefix k realm \<Longrightarrow> run_ops (kv_step (mapDB_KVStore ord ordu realm)) s ops = Some (s', rs) \<Longrightarrow>
     db_m s' k = db_m s k"
proof (induction ops arbitrary: s rs)
  case (Cons op ops)
  from map_db.history.step_refines [OF Cons.prems(1), of realm op] obtain s1 r where s1:
    "kv_step (mapDB_KVStore ord ordu realm) s op = Some (s1, r)" "db_inv ord ordu s1" by blast
  then obtain rs' where "run_ops (kv_step (mapDB_KVStore ord ordu realm)) s1 ops = Some (s', rs')"
    using Cons.prems(3) by (auto split: Option.bind_splits)
  from Cons.IH [OF s1(2) Cons.prems(2) this] step_frame [OF Cons.prems(1,2) s1(1)] show ?case by simp
qed simp

text \<open>The bound of a prefix.\<close>

lemma upper_bound_spec:
  assumes "n \<le> length p" and "\<forall>j. n \<le> j \<and> j < length p \<longrightarrow> q ! j = 0 \<and> p ! j = - 1" and "take n q = take n p" and "length q = length p"
  shows "(case upper_bound_loop q n of None \<Rightarrow> \<forall>j < length p. p ! j = - 1
     | Some u \<Rightarrow> \<exists>i < n. p ! i \<noteq> - 1 \<and> u = take i p @ [p ! i + 1] \<and> (\<forall>j. i < j \<and> j < length p \<longrightarrow> p ! j = - 1))"
  using assms
proof (induction n arbitrary: q)
  case (Suc i)
  have q: "q ! i = p ! i" "take i q = take i p"
    using Suc.prems(1,3,4) by (metis lessI nth_take, metis le_add2 plus_1_eq_Suc take_take min.absorb1)
  have len: "i < length p" "i < length q" using Suc.prems by simp_all
  have tail: "q ! j = 0 \<and> p ! j = - 1" if "i < j" "j < length p" for j using Suc.prems(2) that by (simp add: Suc_le_eq)
  show ?case
  proof (cases "p ! i + 1 = 0")
    case True
    then have m1: "p ! i = - 1" by (simp add: eq_neg_iff_add_eq_0)
    have "case upper_bound_loop (q[i := 0]) i of None \<Rightarrow> \<forall>j < length p. p ! j = - 1
     | Some u \<Rightarrow> \<exists>i' < i. p ! i' \<noteq> - 1 \<and> u = take i' p @ [p ! i' + 1] \<and> (\<forall>j. i' < j \<and> j < length p \<longrightarrow> p ! j = - 1)"
      using Suc.prems(1,4) m1 len q tail by (intro Suc.IH) (auto simp: nth_list_update le_eq_less_or_eq)
    then show ?thesis using True q len by (auto split: option.splits intro: less_SucI)
  next
    case False
    then have "p ! i \<noteq> - 1" by auto
    then show ?thesis using False q len tail
      by (auto simp: Let_def take_Suc_conv_app_nth intro!: exI [of _ i])
  qed
qed auto

lemma append_le_cancel: "(r :: bytes) @ a \<le> r @ b \<longleftrightarrow> a \<le> b"
  by (induction r) auto

lemma above_ones: "replicate m (- 1 :: byte) \<le> t \<longleftrightarrow> has_prefix t (replicate m (- 1))"
proof (induction m arbitrary: t)
  case (Suc m)
  have "\<not> (- 1 :: byte) < h" for h by (simp add: not_less)
  then show ?case using Suc by (cases t) (auto simp: has_prefix_def)
qed (simp add: has_prefix_def)

lemma common_prefix: "(a :: bytes) @ x \<le> k \<Longrightarrow> k < a @ y \<Longrightarrow> \<exists>k'. k = a @ k'"
proof (induction a arbitrary: k)
  case (Cons b a)
  then show ?case by (cases k) auto
qed simp

lemma below_next: "(c :: byte) \<noteq> - 1 \<Longrightarrow> h < c + 1 \<longleftrightarrow> h \<le> c"
proof -
  assume "c \<noteq> - 1"
  then have "1 + c \<noteq> 0" by (metis add.commute eq_neg_iff_add_eq_0)
  then show ?thesis using unatSuc [of c] by (simp add: word_less_nat_alt word_le_nat_alt add.commute less_Suc_eq_le)
qed

lemma prefix_range:
  assumes "(c :: byte) \<noteq> - 1"
  shows "has_prefix k (a @ c # replicate m (- 1)) \<longleftrightarrow> a @ c # replicate m (- 1) \<le> k \<and> k < a @ [c + 1]"
proof (cases "\<exists>k'. k = a @ k'")
  case True
  then obtain k' where k: "k = a @ k'" by blast
  have "has_prefix k' (c # replicate m (- 1)) \<longleftrightarrow> c # replicate m (- 1) \<le> k' \<and> k' < [c + 1]"
    using above_ones [of m] below_next [OF assms]
    by (cases k') (auto simp: has_prefix_def)
  then show ?thesis by (simp add: k append_less_cancel append_le_cancel)
next
  case False
  then show ?thesis using common_prefix [of a _ k] by (auto simp: has_prefix_conv)
qed

section \<open>Properties\<close>

text \<open>C2: For every history of calls on a handle of a new database, with or without the flushing wrapper, every call returns
  what the finite map from keys to values would return: lookups, deletions of a prefix, iterations in the order of the keys
  or in reverse, and a batch whose mutations take effect at the commit with the last one of a key winning; after
  \<^verbatim>\<open>Close\<close> every call reports a closed store.\<close>

theorem map_db_is_sorted_map:
  assumes "good_order ord" and "good_order ordu"
  shows "(\<exists>s'. run_ops (kv_step (mapDB_KVStore ord ordu realm)) NewMapDB ops = Some (s', snd (run_spec kv_spec (Map.empty, False) ops))) \<and>
         (\<exists>s'. run_ops (kv_step (flushKVStore (mapDB_KVStore ord ordu realm))) NewMapDB ops =
           Some (s', snd (run_spec kv_spec (Map.empty, False) ops)))"
proof -
  have new: "db_inv ord ordu NewMapDB" "(db_contents realm NewMapDB, db_closed NewMapDB) = (Map.empty, False)"
    using assms by (simp_all add: db_inv_def NewMapDB_def db_contents_def fun_eq_iff)
  show ?thesis using map_db.history.run_refines [OF new(1), of realm ops] flush_db.history.run_refines [OF new(1), of realm ops]
    unfolding new(2) by blast
qed

theorem map_db_is_sorted_map_witness:
  "\<exists>s'. run_ops (kv_step (mapDB_KVStore (\<lambda>m. sorted_list_of_set (dom m)) (\<lambda>m. sorted_list_of_set (dom m)) [7])) NewMapDB
     [OSet [1] [5], OBatch [([2], Some [6]), ([1], None)], OGet [1], OGet [2], OClose, OHas [2]] =
     Some (s', [RErr None, RErr None, RGet (Inl ErrKeyNotFound), RGet (Inr [6]), RErr None, RHas (Inl ErrStoreClosed)])"
  using conjunct1 [OF map_db_is_sorted_map [OF good_order_sorted good_order_sorted, of "[7]"
      "[OSet [1] [5], OBatch [([2], Some [6]), ([1], None)], OGet [1], OGet [2], OClose, OHas [2]]"]]
  by auto

text \<open>C33: A history of calls on the handle of one realm leaves what the handle of another realm shows, if neither realm
  extends the other. A handle of an extended realm shows the keys of its parent below the extension.\<close>

theorem realms_are_isolated:
  assumes "db_inv ord ordu s" and "\<not> has_prefix r1 r2" and "\<not> has_prefix r2 r1"
    and "run_ops (kv_step (mapDB_KVStore ord ordu r1)) s ops = Some (s', rs)"
  shows "db_contents r2 s' = db_contents r2 s \<and>
    (\<forall>r r3 k. mapDB_WithExtendedRealm r1 r s = Inr r3 \<longrightarrow> db_contents r3 s k = db_contents r1 s (r @ k))"
proof -
  have "\<not> has_prefix (r2 @ k) r1" for k
    using assms(2,3) by (auto simp: has_prefix_conv append_eq_append_conv2)
  then have "db_contents r2 s' = db_contents r2 s"
    using run_frame [OF assms(1) _ assms(4)] by (simp add: db_contents_def fun_eq_iff)
  then show ?thesis
    by (auto simp: mapDB_WithExtendedRealm_def mapDB_WithRealm_def mapDB_Realm_def db_contents_def split: if_splits)
qed

theorem realms_are_isolated_witness:
  "db_contents [2] \<lparr>db_m = [[2, 3] \<mapsto> [9], [1, 3] \<mapsto> [5]], db_closed = False\<rparr> [3] = Some [9]"
  using realms_are_isolated [of "\<lambda>m. sorted_list_of_set (dom m)" "\<lambda>m. sorted_list_of_set (dom m)"
      "\<lparr>db_m = [[2, 3] \<mapsto> [9]], db_closed = False\<rparr>" "[1]" "[2]" "[OSet [3] [5]]"
      "\<lparr>db_m = [[2, 3] \<mapsto> [9], [1, 3] \<mapsto> [5]], db_closed = False\<rparr>" "[RErr None]"]
  by (simp add: db_inv_def good_order_sorted has_prefix_def mapDB_KVStore_def mapDB_Set_def mapDB_set_def skv_set_def db_contents_def fun_eq_iff)

text \<open>C32: Copying one realm into another succeeds, and copying in batches gives the same contents as copying entry by entry
  for every batch size: the entries of the source override those of the target, and the others stay.\<close>

theorem copy_batched_is_copy:
  assumes "db_inv ord ordu s" and "\<not> db_closed s"
  shows "\<exists>s1 s2. kv_Copy (mapDB_KVStore ord ordu r1) (flushKVStore (mapDB_KVStore ord ordu r2)) s = Some (s1, None) \<and>
     kv_CopyBatched (mapDB_KVStore ord ordu r1) (flushKVStore (mapDB_KVStore ord ordu r2)) batchSize s = Some (s2, None) \<and>
     db_contents r2 s1 = db_contents r2 s ++ db_contents r1 s \<and> db_contents r2 s2 = db_contents r2 s1"
  using realm_copy.copies(1) [OF assms(1,1,2,2), of r1 r2] realm_copy.copies(2) [OF assms(1,1,2,2), of r1 r2 batchSize] by fastforce

theorem copy_batched_is_copy_witness:
  "\<exists>s2. kv_CopyBatched (mapDB_KVStore (\<lambda>m. sorted_list_of_set (dom m)) (\<lambda>m. sorted_list_of_set (dom m)) [1])
     (flushKVStore (mapDB_KVStore (\<lambda>m. sorted_list_of_set (dom m)) (\<lambda>m. sorted_list_of_set (dom m)) [2])) [1]
     \<lparr>db_m = [[1, 3] \<mapsto> [9], [1, 4] \<mapsto> [8]], db_closed = False\<rparr> = Some (s2, None) \<and> db_contents [2] s2 [4] = Some [8]"
proof -
  let ?s = "\<lparr>db_m = [[1, 3] \<mapsto> [9], [1, 4] \<mapsto> [8]], db_closed = False\<rparr>"
  have "db_inv (\<lambda>m. sorted_list_of_set (dom m)) (\<lambda>m. sorted_list_of_set (dom m)) ?s" "\<not> db_closed ?s"
    by (simp_all add: db_inv_def good_order_sorted)
  note copied = copy_batched_is_copy [OF this, of "[1]" "[2]" "[1]"]
  have "(db_contents [2] ?s ++ db_contents [1] ?s) [4] = Some [8]" by (simp add: db_contents_def map_add_def)
  then show ?thesis using copied by (elim exE conjE) (rule exI, rule conjI, assumption, simp only:)
qed

text \<open>The keys that start with a prefix are those from the prefix up to, and without, its upper bound; if there is no
  upper bound they are all the keys from the prefix on.\<close>

theorem key_prefix_range:
  "has_prefix k p \<longleftrightarrow> p \<le> k \<and> (case KeyPrefixUpperBound p of None \<Rightarrow> True | Some u \<Rightarrow> k < u)"
proof -
  have "\<forall>j. length p \<le> j \<and> j < length p \<longrightarrow> p ! j = 0 \<and> p ! j = - 1" by auto
  note bound = upper_bound_spec [OF order_refl this refl refl, folded KeyPrefixUpperBound_def]
  show ?thesis
  proof (cases "KeyPrefixUpperBound p")
    case None
    then have ones: "\<forall>j < length p. p ! j = - 1" using bound by (simp only: option.case)
    have "p = replicate (length p) (- 1)" by (rule nth_equalityI) (use ones in simp_all)
    then obtain m where "p = replicate m (- 1)" ..
    then show ?thesis using above_ones [of m k] None by simp
  next
    case (Some u)
    then obtain i where i: "i < length p" "p ! i \<noteq> - 1" "u = take i p @ [p ! i + 1]" "\<forall>j. i < j \<and> j < length p \<longrightarrow> p ! j = - 1"
      using bound by (simp only: option.case) blast
    have "drop (Suc i) p = replicate (length p - Suc i) (- 1)" by (rule nth_equalityI) (use i(4) in simp_all)
    then obtain m where "take i p @ p ! i # replicate m (- 1) = p" using id_take_nth_drop [OF i(1)] by metis
    then show ?thesis using prefix_range [OF i(2), of k "take i p" m] Some i(3) by simp
  qed
qed

end
