(* ===== verification/Typed_Store.thy ===== *)
theory Typed_Store
  imports Map_DB
begin

text \<open>
  \<^verbatim>\<open>kvstore/typedstore.go\<close>: a store of typed keys and values over a store of bytes, verified against the contract of a
  store for every pair of codecs that decode what they encoded.
\<close>

section \<open>Definitions\<close>

subsection \<open>The typed store\<close>

text \<open>The encoders return the bytes and an error, the decoders the object and the number of bytes consumed.\<close>

type_synonym 'o ObjectToBytes = "'o \<Rightarrow> bytes \<times> kv_error option"

type_synonym 'o BytesToObject = "bytes \<Rightarrow> kv_error + 'o \<times> int"

record ('s, 'b, 'k, 'v) TypedStore =
  ts_kv :: "('s, 'b) KVStore"
  ts_keyToBytes :: "'k ObjectToBytes"
  ts_bytesToKey :: "'k BytesToObject"
  ts_valueToBytes :: "'v ObjectToBytes"
  ts_bytesToValue :: "'v BytesToObject"

definition NewTypedStore :: "('s, 'b) KVStore \<Rightarrow> 'k ObjectToBytes \<Rightarrow> 'k BytesToObject \<Rightarrow> 'v ObjectToBytes \<Rightarrow> 'v BytesToObject
    \<Rightarrow> ('s, 'b, 'k, 'v) TypedStore" where
  "NewTypedStore kv keyToBytes bytesToKey valueToBytes bytesToValue =
     \<lparr>ts_kv = kv, ts_keyToBytes = keyToBytes, ts_bytesToKey = bytesToKey, ts_valueToBytes = valueToBytes,
      ts_bytesToValue = bytesToValue\<rparr>"

definition TypedStore_Get :: "('s, 'b, 'k, 'v) TypedStore \<Rightarrow> 'k \<Rightarrow> 's \<Rightarrow> kv_error + 'v" where
  "TypedStore_Get t key s =
     (case ts_keyToBytes t key of
        (_, Some err) \<Rightarrow> Inl (WrappedError ''failed to encode key'' err)
      | (keyBytes, None) \<Rightarrow>
          (case kv_Get (ts_kv t) keyBytes s of
             Inl err \<Rightarrow> Inl (WrappedError ''failed to retrieve from KV store'' err)
           | Inr valueBytes \<Rightarrow>
               (case ts_bytesToValue t valueBytes of
                  Inl err \<Rightarrow> Inl (WrappedError ''failed to decode value'' err)
                | Inr (v, _) \<Rightarrow> Inr v)))"

definition TypedStore_Has :: "('s, 'b, 'k, 'v) TypedStore \<Rightarrow> 'k \<Rightarrow> 's \<Rightarrow> kv_error + bool" where
  "TypedStore_Has t key s =
     (case ts_keyToBytes t key of
        (_, Some err) \<Rightarrow> Inl (WrappedError ''failed to encode key'' err)
      | (keyBytes, None) \<Rightarrow> kv_Has (ts_kv t) keyBytes s)"

definition TypedStore_Set :: "('s, 'b, 'k, 'v) TypedStore \<Rightarrow> 'k \<Rightarrow> 'v \<Rightarrow> 's \<Rightarrow> 's \<times> kv_error option" where
  "TypedStore_Set t key value s =
     (case ts_keyToBytes t key of
        (_, Some err) \<Rightarrow> (s, Some (WrappedError ''failed to encode key'' err))
      | (keyBytes, None) \<Rightarrow>
          (case ts_valueToBytes t value of
             (_, Some err) \<Rightarrow> (s, Some (WrappedError ''failed to encode value'' err))
           | (valueBytes, None) \<Rightarrow>
               (case kv_Set (ts_kv t) keyBytes valueBytes s of
                  (s, Some err) \<Rightarrow> (s, Some (WrappedError ''failed to store in KV store'' err))
                | (s, None) \<Rightarrow> (s, None))))"

definition TypedStore_Delete :: "('s, 'b, 'k, 'v) TypedStore \<Rightarrow> 'k \<Rightarrow> 's \<Rightarrow> 's \<times> kv_error option" where
  "TypedStore_Delete t key s =
     (case ts_keyToBytes t key of
        (_, Some err) \<Rightarrow> (s, Some (WrappedError ''failed to encode key'' err))
      | (keyBytes, None) \<Rightarrow>
          (case kv_Delete (ts_kv t) keyBytes s of
             (s, Some err) \<Rightarrow> (s, Some (WrappedError ''failed to delete entry from KV store'' err))
           | (s, None) \<Rightarrow> (s, None)))"

text \<open>The consumers that the iterations pass to the store, run over the entries it shows. The callback has a state of its own
  and tells whether to go on; the result is its final state and the inner error.\<close>

fun typed_consumer :: "('s, 'b, 'k, 'v) TypedStore \<Rightarrow> ('k \<Rightarrow> 'v \<Rightarrow> 'c \<Rightarrow> 'c \<times> bool) \<Rightarrow> (bytes \<times> bytes) list \<Rightarrow> 'c
    \<Rightarrow> 'c \<times> kv_error option" where
  "typed_consumer t callback [] c = (c, None)"
| "typed_consumer t callback ((key, value) # entries) c =
     (case ts_bytesToKey t key of
        Inl keyErr \<Rightarrow> (c, Some keyErr)
      | Inr (keyDecoded, _) \<Rightarrow>
          (case ts_bytesToValue t value of
             Inl valueErr \<Rightarrow> (c, Some valueErr)
           | Inr (valueDecoded, _) \<Rightarrow>
               (let (c, advance) = callback keyDecoded valueDecoded c in
                if advance then typed_consumer t callback entries c else (c, None))))"

definition TypedStore_Iterate :: "('s, 'b, 'k, 'v) TypedStore \<Rightarrow> bytes \<Rightarrow> ('k \<Rightarrow> 'v \<Rightarrow> 'c \<Rightarrow> 'c \<times> bool) \<Rightarrow> IterDirection list
    \<Rightarrow> 's \<Rightarrow> 'c \<Rightarrow> ('c \<times> kv_error option) option" where
  "TypedStore_Iterate t prefix callback direction s c = do {
     r \<leftarrow> kv_Iterate (ts_kv t) prefix direction s;
     Some (case r of
             Inl iterationErr \<Rightarrow> (c, Some (WrappedError ''failed to iterate over KV store'' iterationErr))
           | Inr entries \<Rightarrow> typed_consumer t callback entries c)
   }"

fun typed_key_consumer :: "('s, 'b, 'k, 'v) TypedStore \<Rightarrow> ('k \<Rightarrow> 'c \<Rightarrow> 'c \<times> bool) \<Rightarrow> bytes list \<Rightarrow> 'c \<Rightarrow> 'c \<times> kv_error option" where
  "typed_key_consumer t callback [] c = (c, None)"
| "typed_key_consumer t callback (key # keys) c =
     (case ts_bytesToKey t key of
        Inl keyErr \<Rightarrow> (c, Some keyErr)
      | Inr (keyDecoded, _) \<Rightarrow>
          (let (c, advance) = callback keyDecoded c in
           if advance then typed_key_consumer t callback keys c else (c, None)))"

definition TypedStore_IterateKeys :: "('s, 'b, 'k, 'v) TypedStore \<Rightarrow> bytes \<Rightarrow> ('k \<Rightarrow> 'c \<Rightarrow> 'c \<times> bool) \<Rightarrow> IterDirection list
    \<Rightarrow> 's \<Rightarrow> 'c \<Rightarrow> ('c \<times> kv_error option) option" where
  "TypedStore_IterateKeys t prefix callback direction s c = do {
     r \<leftarrow> kv_IterateKeys (ts_kv t) prefix direction s;
     Some (case r of
             Inl iterationErr \<Rightarrow> (c, Some (WrappedError ''failed to iterate keys over KV store'' iterationErr))
           | Inr keys \<Rightarrow> typed_key_consumer t callback keys c)
   }"

definition TypedStore_DeletePrefix :: "('s, 'b, 'k, 'v) TypedStore \<Rightarrow> bytes \<Rightarrow> 's \<Rightarrow> 's \<times> kv_error option" where
  "TypedStore_DeletePrefix t prefix s = kv_DeletePrefix (ts_kv t) prefix s"

definition TypedStore_Clear :: "('s, 'b, 'k, 'v) TypedStore \<Rightarrow> 's \<Rightarrow> 's \<times> kv_error option" where
  "TypedStore_Clear t s = kv_Clear (ts_kv t) s"

subsection \<open>A client of the typed store\<close>

text \<open>The callback of a client keeps the list of what it was shown, and decides by that list whether to go on.\<close>

datatype ('k, 'v) typed_op = TGet 'k | THas 'k | TSet 'k 'v | TDelete 'k | TDeletePrefix bytes | TClear | TClose
  | TIterate bytes "('k \<times> 'v) list \<Rightarrow> bool" bool | TIterateKeys bytes "'k list \<Rightarrow> bool" bool

datatype ('k, 'v) typed_result = RTGet "kv_error + 'v" | RTHas "kv_error + bool" | RTErr "kv_error option"
  | RTEntries "('k \<times> 'v) list" "kv_error option" | RTKeys "'k list" "kv_error option"

fun typed_step :: "('s, 'b, 'k, 'v) TypedStore \<Rightarrow> 's \<Rightarrow> ('k, 'v) typed_op \<Rightarrow> ('s \<times> ('k, 'v) typed_result) option" where
  "typed_step t s (TGet k) = Some (s, RTGet (TypedStore_Get t k s))"
| "typed_step t s (THas k) = Some (s, RTHas (TypedStore_Has t k s))"
| "typed_step t s (TSet k v) = Some (map_prod id RTErr (TypedStore_Set t k v s))"
| "typed_step t s (TDelete k) = Some (map_prod id RTErr (TypedStore_Delete t k s))"
| "typed_step t s (TDeletePrefix p) = Some (map_prod id RTErr (TypedStore_DeletePrefix t p s))"
| "typed_step t s TClear = Some (map_prod id RTErr (TypedStore_Clear t s))"
| "typed_step t s TClose = Some (map_prod id RTErr (kv_Close (ts_kv t) s))"
| "typed_step t s (TIterate p adv backward) =
     map_option (\<lambda>(shown, err). (s, RTEntries shown err))
       (TypedStore_Iterate t p (\<lambda>k v shown. (shown @ [(k, v)], adv (shown @ [(k, v)])))
          [if backward then IterDirectionBackward else IterDirectionForward] s [])"
| "typed_step t s (TIterateKeys p adv backward) =
     map_option (\<lambda>(shown, err). (s, RTKeys shown err))
       (TypedStore_IterateKeys t p (\<lambda>k shown. (shown @ [k], adv (shown @ [k])))
          [if backward then IterDirectionBackward else IterDirectionForward] s [])"

text \<open>The specification: a map from keys to values, and whether the store is closed. The iterations show the entries in the
  order of the encoded keys until the callback stops.\<close>

fun shown_until :: "('a list \<Rightarrow> bool) \<Rightarrow> 'a list \<Rightarrow> 'a list \<Rightarrow> 'a list" where
  "shown_until adv shown [] = shown"
| "shown_until adv shown (x # xs) = (if adv (shown @ [x]) then shown_until adv (shown @ [x]) xs else shown @ [x])"

definition key_listing :: "'k ObjectToBytes \<Rightarrow> 'k BytesToObject \<Rightarrow> ('k \<rightharpoonup> 'v) \<Rightarrow> bytes \<Rightarrow> 'k list" where
  "key_listing enc dec m p =
     map (\<lambda>b. case dec b of Inr (k, _) \<Rightarrow> k) (sorted_list_of_set {b \<in> (\<lambda>k. fst (enc k)) ` dom m. has_prefix b p})"

fun typed_spec :: "'k ObjectToBytes \<Rightarrow> 'k BytesToObject \<Rightarrow> 'v ObjectToBytes \<Rightarrow> ('k \<rightharpoonup> 'v) \<times> bool \<Rightarrow> ('k, 'v) typed_op
    \<Rightarrow> (('k \<rightharpoonup> 'v) \<times> bool) \<times> ('k, 'v) typed_result" where
  "typed_spec enc dec venc (m, c) (TGet k) = ((m, c), RTGet
     (case enc k of
        (_, Some err) \<Rightarrow> Inl (WrappedError ''failed to encode key'' err)
      | _ \<Rightarrow> if c then Inl (WrappedError ''failed to retrieve from KV store'' ErrStoreClosed)
            else case m k of None \<Rightarrow> Inl (WrappedError ''failed to retrieve from KV store'' ErrKeyNotFound) | Some v \<Rightarrow> Inr v))"
| "typed_spec enc dec venc (m, c) (THas k) = ((m, c), RTHas
     (case enc k of
        (_, Some err) \<Rightarrow> Inl (WrappedError ''failed to encode key'' err)
      | _ \<Rightarrow> if c then Inl ErrStoreClosed else Inr (k \<in> dom m)))"
| "typed_spec enc dec venc (m, c) (TSet k v) =
     (case enc k of
        (_, Some err) \<Rightarrow> ((m, c), RTErr (Some (WrappedError ''failed to encode key'' err)))
      | _ \<Rightarrow>
     (case venc v of
        (_, Some err) \<Rightarrow> ((m, c), RTErr (Some (WrappedError ''failed to encode value'' err)))
      | _ \<Rightarrow> if c then ((m, c), RTErr (Some (WrappedError ''failed to store in KV store'' ErrStoreClosed)))
            else ((m(k \<mapsto> v), c), RTErr None)))"
| "typed_spec enc dec venc (m, c) (TDelete k) =
     (case enc k of
        (_, Some err) \<Rightarrow> ((m, c), RTErr (Some (WrappedError ''failed to encode key'' err)))
      | _ \<Rightarrow> if c then ((m, c), RTErr (Some (WrappedError ''failed to delete entry from KV store'' ErrStoreClosed)))
            else ((m(k := None), c), RTErr None))"
| "typed_spec enc dec venc (m, c) (TDeletePrefix p) =
     (if c then ((m, c), RTErr (Some ErrStoreClosed)) else ((m |` {k. \<not> has_prefix (fst (enc k)) p}, c), RTErr None))"
| "typed_spec enc dec venc (m, c) TClear =
     (if c then ((m, c), RTErr (Some ErrStoreClosed)) else ((Map.empty, c), RTErr None))"
| "typed_spec enc dec venc (m, c) TClose = ((m, True), RTErr None)"
| "typed_spec enc dec venc (m, c) (TIterate p adv backward) = ((m, c),
     if c then RTEntries [] (Some (WrappedError ''failed to iterate over KV store'' ErrStoreClosed))
     else RTEntries (shown_until adv [] (map (\<lambda>k. (k, the (m k))) ((if backward then rev else id) (key_listing enc dec m p)))) None)"
| "typed_spec enc dec venc (m, c) (TIterateKeys p adv backward) = ((m, c),
     if c then RTKeys [] (Some (WrappedError ''failed to iterate keys over KV store'' ErrStoreClosed))
     else RTKeys (shown_until adv [] ((if backward then rev else id) (key_listing enc dec m p))) None)"

section \<open>The typed store over a store\<close>

locale typed_store = kv_contract kv contents closed inv pending binv
  for kv :: "('s, 'b) KVStore" and contents closed inv pending binv +
  fixes enc :: "'k ObjectToBytes" and dec :: "'k BytesToObject" and venc :: "'v ObjectToBytes" and vdec :: "'v BytesToObject"
  assumes key_law: "inv s \<Longrightarrow> enc k = (b, None) \<Longrightarrow> \<exists>n. dec b = Inr (k, n)"
    and value_law: "inv s \<Longrightarrow> venc v = (b', None) \<Longrightarrow> \<exists>n. vdec b' = Inr (v, n)"

text \<open>The map a store represents, and that it holds encodings only.\<close>

definition typed_contents :: "'k ObjectToBytes \<Rightarrow> 'v BytesToObject \<Rightarrow> (bytes \<rightharpoonup> bytes) \<Rightarrow> 'k \<rightharpoonup> 'v" where
  "typed_contents enc vdec m k =
     (case enc k of
        (b, None) \<Rightarrow> (case m b of None \<Rightarrow> None | Some vb \<Rightarrow> (case vdec vb of Inr (v, _) \<Rightarrow> Some v | Inl _ \<Rightarrow> None))
      | _ \<Rightarrow> None)"

definition well_typed :: "'k ObjectToBytes \<Rightarrow> 'v ObjectToBytes \<Rightarrow> (bytes \<rightharpoonup> bytes) \<Rightarrow> bool" where
  "well_typed enc venc m \<longleftrightarrow> (\<forall>b vb. m b = Some vb \<longrightarrow> (\<exists>k. enc k = (b, None)) \<and> (\<exists>v. venc v = (vb, None)))"

abbreviation key_of :: "'k BytesToObject \<Rightarrow> bytes \<Rightarrow> 'k" where
  "key_of dec b \<equiv> (case dec b of Inr (k, _) \<Rightarrow> k)"

context typed_store
begin

lemma enc_inject: "inv s \<Longrightarrow> enc k = (b, None) \<Longrightarrow> enc k' = (b, None) \<Longrightarrow> k = k'"
  using key_law [of s k b] key_law [of s k' b] by auto

lemma key_of_enc: "inv s \<Longrightarrow> enc k = (b, None) \<Longrightarrow> key_of dec b = k"
  using key_law [of s k b] by auto

lemma stored_entry:
  assumes inv: "inv s" and "well_typed enc venc m" "m b = Some vb"
  obtains k v n n' where "enc k = (b, None)" "dec b = Inr (k, n)" "venc v = (vb, None)" "vdec vb = Inr (v, n')"
    "typed_contents enc vdec m k = Some v"
proof -
  obtain k v where kv: "enc k = (b, None)" "venc v = (vb, None)" using assms(2,3) unfolding well_typed_def by blast
  obtain n n' where "dec b = Inr (k, n)" "vdec vb = Inr (v, n')" using key_law [OF inv kv(1)] value_law [OF inv kv(2)] by blast
  then show thesis using that [of k n v n'] kv assms(3) by (simp add: typed_contents_def)
qed

lemma typed_dom:
  assumes inv: "inv s" and "well_typed enc venc m"
  shows "enc k = (b, None) \<Longrightarrow> k \<in> dom (typed_contents enc vdec m) \<longleftrightarrow> b \<in> dom m"
    and "(\<lambda>k. fst (enc k)) ` dom (typed_contents enc vdec m) = dom m"
proof -
  show one: "k \<in> dom (typed_contents enc vdec m) \<longleftrightarrow> b \<in> dom m" if "enc k = (b, None)" for k b
  proof (cases "m b")
    case (Some vb)
    then show ?thesis using stored_entry [OF assms Some] enc_inject [OF inv that] by (metis domI)
  qed (simp add: typed_contents_def that domIff)
  show "(\<lambda>k. fst (enc k)) ` dom (typed_contents enc vdec m) = dom m"
  proof (intro equalityI subsetI)
    fix b assume "b \<in> (\<lambda>k. fst (enc k)) ` dom (typed_contents enc vdec m)"
    then obtain k where k: "k \<in> dom (typed_contents enc vdec m)" "b = fst (enc k)" by blast
    then have "enc k = (b, None)" by (cases "enc k") (auto simp: typed_contents_def split: option.splits prod.splits)
    then show "b \<in> dom m" using one k(1) by blast
  next
    fix b assume "b \<in> dom m"
    then obtain vb where "m b = Some vb" by blast
    from stored_entry [OF assms this] show "b \<in> (\<lambda>k. fst (enc k)) ` dom (typed_contents enc vdec m)" by (metis domI fst_conv imageI)
  qed
qed

lemma typed_Set:
  assumes inv: "inv s" and "well_typed enc venc m" "enc k = (b, None)" "venc v = (vb, None)"
  shows "well_typed enc venc (m(b \<mapsto> vb)) \<and> typed_contents enc vdec (m(b \<mapsto> vb)) = (typed_contents enc vdec m)(k \<mapsto> v)"
proof -
  have "typed_contents enc vdec (m(b \<mapsto> vb)) k' = ((typed_contents enc vdec m)(k \<mapsto> v)) k'" for k'
    using assms(3) enc_inject [OF inv, of k' b k] value_law [OF inv assms(4)]
    by (cases "enc k'"; cases "snd (enc k')") (auto simp: typed_contents_def)
  then show ?thesis using assms by (auto simp: well_typed_def)
qed

lemma typed_restrict:
  assumes inv: "inv s" and "well_typed enc venc m"
  shows "well_typed enc venc (m |` A)" and "typed_contents enc vdec (m |` A) = typed_contents enc vdec m |` {k. fst (enc k) \<in> A}"
  using assms by (auto simp: well_typed_def restrict_map_def typed_contents_def fun_eq_iff split: option.splits prod.splits)

lemma typed_Delete:
  assumes inv: "inv s" and "well_typed enc venc m" "enc k = (b, None)"
  shows "well_typed enc venc (m(b := None)) \<and> typed_contents enc vdec (m(b := None)) = (typed_contents enc vdec m)(k := None)"
proof -
  have "typed_contents enc vdec (m(b := None)) k' = ((typed_contents enc vdec m)(k := None)) k'" for k'
    using assms(3) enc_inject [OF inv, of k' b k] by (cases "enc k'"; cases "snd (enc k')") (auto simp: typed_contents_def)
  then show ?thesis using assms by (auto simp: well_typed_def)
qed

lemma key_listing_eq:
  assumes inv: "inv s" and "well_typed enc venc m"
  shows "key_listing enc dec (typed_contents enc vdec m) p = map (key_of dec) (map fst (listing m p))"
  using typed_dom(2) [OF assms] by (simp add: key_listing_def listing_def comp_def)

lemma consumes:
  assumes inv: "inv s" and "well_typed enc venc m" and "\<forall>(b, vb) \<in> set es. m b = Some vb"
  shows "typed_consumer \<lparr>ts_kv = kv, ts_keyToBytes = enc, ts_bytesToKey = dec, ts_valueToBytes = venc, ts_bytesToValue = vdec\<rparr>
      (\<lambda>k v shown. (shown @ [(k, v)], adv (shown @ [(k, v)]))) es shown =
    (shown_until adv shown (map (\<lambda>k. (k, the (typed_contents enc vdec m k))) (map (key_of dec) (map fst es))), None)"
  using assms(3)
proof (induction es arbitrary: shown)
  case (Cons e es)
  obtain b vb where e: "e = (b, vb)" by (cases e)
  then have "m b = Some vb" using Cons.prems by simp
  from stored_entry [OF assms(1,2) this] obtain k v n n' where
    "dec b = Inr (k, n)" "vdec vb = Inr (v, n')" "typed_contents enc vdec m k = Some v" by metis
  then show ?case using Cons by (simp add: e)
qed simp

lemma consumes_keys:
  assumes inv: "inv s" and "well_typed enc venc m" and "set bs \<subseteq> dom m"
  shows "typed_key_consumer \<lparr>ts_kv = kv, ts_keyToBytes = enc, ts_bytesToKey = dec, ts_valueToBytes = venc, ts_bytesToValue = vdec\<rparr>
      (\<lambda>k shown. (shown @ [k], adv (shown @ [k]))) bs shown = (shown_until adv shown (map (key_of dec) bs), None)"
  using assms(3)
proof (induction bs arbitrary: shown)
  case (Cons b bs)
  then obtain vb where "m b = Some vb" by auto
  from stored_entry [OF assms(1,2) this] obtain k n where "dec b = Inr (k, n)" by metis
  then show ?case using Cons by simp
qed simp

lemma typed_Get: "inv s \<Longrightarrow> well_typed enc venc m \<Longrightarrow> enc k = (b, None) \<Longrightarrow> m b = Some vb \<Longrightarrow>
    \<exists>v n. vdec vb = Inr (v, n) \<and> typed_contents enc vdec m k = Some v"
  using stored_entry [of s m b vb] enc_inject by metis

lemma lists:
  assumes inv: "inv s" and wt: "well_typed enc venc (contents s)" and "\<not> closed s"
  shows "TypedStore_Iterate (NewTypedStore kv enc dec venc vdec) p (\<lambda>k v shown. (shown @ [(k, v)], adv (shown @ [(k, v)])))
      [if backward then IterDirectionBackward else IterDirectionForward] s [] =
      Some (shown_until adv [] (map (\<lambda>k. (k, the (typed_contents enc vdec (contents s) k)))
        ((if backward then rev else id) (key_listing enc dec (typed_contents enc vdec (contents s)) p))), None)" (is ?entries)
    and "TypedStore_IterateKeys (NewTypedStore kv enc dec venc vdec) p (\<lambda>k shown. (shown @ [k], adv' (shown @ [k])))
      [if backward then IterDirectionBackward else IterDirectionForward] s [] =
      Some (shown_until adv' [] ((if backward then rev else id) (key_listing enc dec (typed_contents enc vdec (contents s)) p)), None)" (is ?keys)
proof -
  let ?dir = "if backward then IterDirectionBackward else IterDirectionForward"
  have dir: "GetIterDirection [?dir] = Some ?dir" by (simp add: GetIterDirection_def)
  define es where "es = (if backward then rev (listing (contents s) p) else listing (contents s) p)"
  have es: "kv_Iterate kv p [?dir] s = Some (Inr es)" "kv_IterateKeys kv p [?dir] s = Some (Inr (map fst es))"
    using Iterate_law [OF inv \<open>\<not> closed s\<close> dir, of p] IterateKeys_law [OF inv, of p "[?dir]"]
    by (simp_all add: es_def IterDirectionForward_def IterDirectionBackward_def)
  have stored: "\<forall>(b, vb) \<in> set es. contents s b = Some vb" "set (map fst es) \<subseteq> dom (contents s)"
    using finite_contents [OF inv] by (auto simp: es_def listing_def split: if_splits)
  have keys: "(if backward then rev else id) (key_listing enc dec (typed_contents enc vdec (contents s)) p) = map (key_of dec) (map fst es)"
    unfolding key_listing_eq [OF inv wt] by (simp add: es_def rev_map)
  show ?entries unfolding keys using consumes [OF inv wt stored(1)] es by (simp add: TypedStore_Iterate_def NewTypedStore_def)
  show ?keys unfolding keys using consumes_keys [OF inv wt stored(2)] es by (simp add: TypedStore_IterateKeys_def NewTypedStore_def)
qed

lemma typed_step_refines:
  assumes inv: "inv s" and wt: "well_typed enc venc (contents s)"
  defines "t \<equiv> NewTypedStore kv enc dec venc vdec" and "m \<equiv> typed_contents enc vdec (contents s)"
  shows "\<exists>s'. typed_step t s op = Some (s', snd (typed_spec enc dec venc (m, closed s) op)) \<and>
    (inv s' \<and> well_typed enc venc (contents s')) \<and>
    (typed_contents enc vdec (contents s'), closed s') = fst (typed_spec enc dec venc (m, closed s) op)"
proof (cases op)
  case (TGet k)
  obtain b err where k: "enc k = (b, err)" by (cases "enc k")
  show ?thesis
  proof (cases "contents s b")
    case None
    then show ?thesis using TGet inv wt k Get_law [OF inv, of b]
      by (cases err) (auto simp: t_def m_def NewTypedStore_def TypedStore_Get_def typed_contents_def)
  next
    case (Some vb)
    then show ?thesis using TGet inv wt k Get_law [OF inv, of b] typed_Get [OF inv wt, of k b vb]
      by (cases err) (auto simp: t_def m_def NewTypedStore_def TypedStore_Get_def)
  qed
next
  case (THas k)
  obtain b err where k: "enc k = (b, err)" by (cases "enc k")
  show ?thesis using THas inv wt k Has_law [OF inv, of b] typed_dom(1) [OF inv wt, of k b]
    by (cases err) (auto simp: t_def m_def NewTypedStore_def TypedStore_Has_def)
next
  case (TSet k v)
  obtain b err vb verr where kv: "enc k = (b, err)" "venc v = (vb, verr)" by (cases "enc k"; cases "venc v")
  show ?thesis using TSet inv wt kv closed_law [OF inv] Set_law [OF inv, of b vb] typed_Set [OF inv wt, of k b v vb]
    by (cases err; cases verr; cases "closed s") (auto simp: t_def m_def NewTypedStore_def TypedStore_Set_def)
next
  case (TDelete k)
  obtain b err where k: "enc k = (b, err)" by (cases "enc k")
  show ?thesis using TDelete inv wt k closed_law [OF inv] Delete_law [OF inv, of b] typed_Delete [OF inv wt, of k b]
    by (cases err; cases "closed s") (auto simp: t_def m_def NewTypedStore_def TypedStore_Delete_def)
next
  case (TDeletePrefix p)
  show ?thesis using TDeletePrefix inv wt closed_law [OF inv] DeletePrefix_law [OF inv, of p] typed_restrict [OF inv wt, of "{k. \<not> has_prefix k p}"]
    by (cases "closed s") (auto simp: t_def m_def NewTypedStore_def TypedStore_DeletePrefix_def)
next
  case TClear
  have "well_typed enc venc Map.empty" "typed_contents enc vdec Map.empty = Map.empty"
    by (auto simp: well_typed_def typed_contents_def fun_eq_iff split: option.splits prod.splits)
  then show ?thesis using TClear inv wt closed_law [OF inv] Clear_law [OF inv]
    by (cases "closed s") (auto simp: t_def m_def NewTypedStore_def TypedStore_Clear_def)
next
  case TClose
  show ?thesis using TClose inv wt Close_law [OF inv] by (auto simp: t_def m_def NewTypedStore_def)
next
  case (TIterate p adv backward)
  show ?thesis
  proof (cases "closed s")
    case True
    then show ?thesis using TIterate inv wt Iterate_closed [OF inv True] by (simp add: t_def m_def NewTypedStore_def TypedStore_Iterate_def)
  next
    case False
    then show ?thesis using TIterate inv wt lists(1) [OF inv wt False, of p adv backward] by (simp add: t_def m_def)
  qed
next
  case (TIterateKeys p adv backward)
  show ?thesis
  proof (cases "closed s")
    case True
    then show ?thesis using TIterateKeys inv wt Iterate_closed [OF inv True] IterateKeys_law [OF inv]
      by (simp add: t_def m_def NewTypedStore_def TypedStore_IterateKeys_def)
  next
    case False
    then show ?thesis using TIterateKeys inv wt lists(2) [OF inv wt False, of p adv backward] by (simp add: t_def m_def)
  qed
qed

end

sublocale typed_store \<subseteq> typed: data_refinement "typed_step (NewTypedStore kv enc dec venc vdec)" "typed_spec enc dec venc"
  "\<lambda>s. (typed_contents enc vdec (contents s), closed s)" "\<lambda>s. inv s \<and> well_typed enc venc (contents s)"
  by unfold_locales (use typed_step_refines in blast)

text \<open>A constant condition may be added to the invariant of a store.\<close>

context kv_contract
begin

lemma guarded: "kv_contract kv contents closed (\<lambda>s. P \<and> inv s) pending binv"
proof (cases P)
  case True
  then show ?thesis using kv_contract_axioms by simp
next
  case False
  then show ?thesis by unfold_locales (simp_all add: b_Set_law b_Delete_law b_Cancel_law)
qed

end

text \<open>What the typed stores rely on: decoding gives back what was encoded.\<close>

definition good_codec :: "'o ObjectToBytes \<Rightarrow> 'o BytesToObject \<Rightarrow> bool" where
  "good_codec enc dec \<longleftrightarrow> (\<forall>x b. enc x = (b, None) \<longrightarrow> (\<exists>n. dec b = Inr (x, n)))"

interpretation typed_db: typed_store "mapDB_KVStore ord ordu realm" "db_contents realm" db_closed
  "\<lambda>s. (good_codec enc dec \<and> good_codec venc vdec) \<and> db_inv ord ordu s" batch_pending batch_inv enc dec venc vdec
  by (intro typed_store.intro map_db.guarded) (unfold_locales, auto simp: good_codec_def)

section \<open>Properties\<close>

text \<open>C34: For every history of calls of a typed store on a new map database, whose decoders give back what the encoders
  encoded, every call returns what the map from keys to values would return. An encoder may fail: the call then reports
  its error and changes nothing. The iterations show the entries in the order of the encoded keys, as long as the callback
  asks for more.\<close>

theorem typed_store_is_map:
  assumes "good_order ord" and "good_order ordu" and "good_codec enc dec" and "good_codec venc vdec"
  shows "\<exists>s'. run_ops (typed_step (NewTypedStore (mapDB_KVStore ord ordu realm) enc dec venc vdec)) NewMapDB ops =
    Some (s', snd (run_spec (typed_spec enc dec venc) (Map.empty, False) ops))"
proof -
  have new: "((good_codec enc dec \<and> good_codec venc vdec) \<and> db_inv ord ordu NewMapDB) \<and> well_typed enc venc (db_contents realm NewMapDB)"
    "(typed_contents enc vdec (db_contents realm NewMapDB), db_closed NewMapDB) = (Map.empty, False)"
    using assms by (auto simp: db_inv_def NewMapDB_def db_contents_def well_typed_def typed_contents_def fun_eq_iff split: option.splits prod.splits)
  show ?thesis using typed_db.typed.run_refines [OF new(1), of ops] unfolding new(2) by blast
qed

text \<open>The codec of the witness is the one byte of a boolean; the value \<^term>\<open>False\<close> has no encoding as a key.\<close>

theorem typed_store_is_map_witness:
  "\<exists>s'. run_ops (typed_step (NewTypedStore (mapDB_KVStore (\<lambda>m. sorted_list_of_set (dom m)) (\<lambda>m. sorted_list_of_set (dom m)) [7])
       (\<lambda>k. if k then ([1], None) else ([], Some ErrKeyNotFound)) (\<lambda>b. Inr (b = [1], 1))
       (\<lambda>v. ([if v then 1 else 0], None)) (\<lambda>b. Inr (b = [1], 1)))) NewMapDB
     [TSet True False, TSet False True, TGet True, TDelete True, THas True] =
     Some (s', [RTErr None, RTErr (Some (WrappedError ''failed to encode key'' ErrKeyNotFound)), RTGet (Inr False), RTErr None,
       RTHas (Inr False)])"
  using typed_store_is_map [OF good_order_sorted good_order_sorted,
      of "\<lambda>k. if k then ([1], None) else ([], Some ErrKeyNotFound)" "\<lambda>b. Inr (b = [1], 1)"
         "\<lambda>v. ([if v then 1 else 0], None)" "\<lambda>b. Inr (b = [1], 1)" "[7]"
         "[TSet True False, TSet False True, TGet True, TDelete True, THas True]"]
  by (auto simp: good_codec_def split: if_splits)

end
