(* ===== verification/Typed_Value.thy ===== *)
theory Typed_Value
  imports Go_Locks Typed_Store
begin

text \<open>
  \<^verbatim>\<open>kvstore/typedvalue.go\<close>: one typed value of a store with a cache. The critical sections of the methods are the atomic
  steps of concurrent clients.
\<close>

section \<open>Definitions\<close>

text \<open>The zero value of the type of the values is a field of the model.\<close>

record ('s, 'b, 'v) TypedValue =
  tv_kv :: "('s, 'b) KVStore"
  tv_keyBytes :: bytes
  tv_vToBytes :: "'v ObjectToBytes"
  tv_bytesToV :: "'v BytesToObject"
  tv_zero :: 'v
  valueCached :: "'v option"
  hasCached :: "bool option"
  tv_mutex :: RWMutex

definition NewTypedValue :: "'v \<Rightarrow> ('s, 'b) KVStore \<Rightarrow> bytes \<Rightarrow> 'v ObjectToBytes \<Rightarrow> 'v BytesToObject \<Rightarrow> ('s, 'b, 'v) TypedValue" where
  "NewTypedValue zero kv keyBytes vToBytes bytesToV =
     \<lparr>tv_kv = kv, tv_keyBytes = keyBytes, tv_vToBytes = vToBytes, tv_bytesToV = bytesToV, tv_zero = zero,
      valueCached = None, hasCached = None, tv_mutex = free_lock\<rparr>"

subsection \<open>Get\<close>

text \<open>The two critical sections of \<^verbatim>\<open>Get\<close>: the look at the cache under the read lock, where \<^term>\<open>None\<close> is a miss, and the
  second look and the read of the store under the write lock. Other calls may run between the two.\<close>

definition tv_cached :: "('s, 'b, 'v) TypedValue \<Rightarrow> (kv_error + 'v) option" where
  "tv_cached t =
     (if hasCached t = Some False then Some (Inl ErrKeyNotFound)
      else case valueCached t of Some value \<Rightarrow> Some (Inr value) | None \<Rightarrow> None)"

definition tv_Get_read :: "('s, 'b, 'v) TypedValue \<Rightarrow> (('s, 'b, 'v) TypedValue \<times> (kv_error + 'v) option) option" where
  "tv_Get_read t = do {
     (m, r) \<leftarrow> with_RLock (tv_mutex t) (Some (tv_cached t));
     Some (t\<lparr>tv_mutex := m\<rparr>, r)
   }"

definition tv_Get_locked :: "('s, 'b, 'v) TypedValue \<Rightarrow> 's \<Rightarrow> (('s, 'b, 'v) TypedValue \<times> (kv_error + 'v)) option" where
  "tv_Get_locked t s = do {
     (m, t, r) \<leftarrow> with_Lock (tv_mutex t) (Some (
       case tv_cached t of
         Some r \<Rightarrow> (t, r)
       | None \<Rightarrow>
           (case kv_Get (tv_kv t) (tv_keyBytes t) s of
              Inl valueBytesErr \<Rightarrow>
                (if errors_Is valueBytesErr ErrKeyNotFound then t\<lparr>hasCached := Some False\<rparr> else t,
                 Inl (WrappedError ''failed to retrieve value from KV store'' valueBytesErr))
            | Inr valueBytes \<Rightarrow>
                (case tv_bytesToV t valueBytes of
                   Inl err \<Rightarrow> (t, Inl (WrappedError ''failed to decode value'' err))
                 | Inr (value, _) \<Rightarrow> (t\<lparr>valueCached := Some value, hasCached := Some True\<rparr>, Inr value)))));
     Some (t\<lparr>tv_mutex := m\<rparr>, r)
   }"

definition tv_Get :: "('s, 'b, 'v) TypedValue \<Rightarrow> 's \<Rightarrow> (('s, 'b, 'v) TypedValue \<times> (kv_error + 'v)) option" where
  "tv_Get t s = do {
     (t, r) \<leftarrow> tv_Get_read t;
     case r of Some r \<Rightarrow> Some (t, r) | None \<Rightarrow> tv_Get_locked t s
   }"

subsection \<open>Has\<close>

definition tv_Has_read :: "('s, 'b, 'v) TypedValue \<Rightarrow> (('s, 'b, 'v) TypedValue \<times> bool option) option" where
  "tv_Has_read t = do {
     (m, r) \<leftarrow> with_RLock (tv_mutex t) (Some (hasCached t));
     Some (t\<lparr>tv_mutex := m\<rparr>, r)
   }"

definition tv_Has_locked :: "('s, 'b, 'v) TypedValue \<Rightarrow> 's \<Rightarrow> (('s, 'b, 'v) TypedValue \<times> (kv_error + bool)) option" where
  "tv_Has_locked t s = do {
     (m, t, r) \<leftarrow> with_Lock (tv_mutex t) (Some (
       case hasCached t of
         Some has \<Rightarrow> (t, Inr has)
       | None \<Rightarrow>
           (case kv_Has (tv_kv t) (tv_keyBytes t) s of
              Inl err \<Rightarrow> (t, Inl (WrappedError ''failed to check whether key exists'' err))
            | Inr has \<Rightarrow> (t\<lparr>hasCached := Some has\<rparr>, Inr has))));
     Some (t\<lparr>tv_mutex := m\<rparr>, r)
   }"

definition tv_Has :: "('s, 'b, 'v) TypedValue \<Rightarrow> 's \<Rightarrow> (('s, 'b, 'v) TypedValue \<times> (kv_error + bool)) option" where
  "tv_Has t s = do {
     (t, r) \<leftarrow> tv_Has_read t;
     case r of Some has \<Rightarrow> Some (t, Inr has) | None \<Rightarrow> tv_Has_locked t s
   }"

subsection \<open>Compute\<close>

text \<open>\<^verbatim>\<open>!exists && t.hasCached == nil || *t.hasCached\<close>: \<^term>\<open>None\<close> is the nil dereference.\<close>

definition tv_must_read :: "('s, 'b, 'v) TypedValue \<Rightarrow> bool \<Rightarrow> bool option" where
  "tv_must_read t exists = (if \<not> exists \<and> hasCached t = None then Some True else hasCached t)"

text \<open>The current value and whether it exists, or the result of an early return.\<close>

definition tv_current :: "('s, 'b, 'v) TypedValue \<Rightarrow> 's \<Rightarrow> (('v \<times> kv_error option) + ('v \<times> bool)) option" where
  "tv_current t s = (
     let currentValue = (case valueCached t of None \<Rightarrow> tv_zero t | Some v \<Rightarrow> v);
         exists = (valueCached t \<noteq> None)
     in do {
       must \<leftarrow> tv_must_read t exists;
       Some (if \<not> must then Inr (currentValue, exists)
         else case kv_Get (tv_kv t) (tv_keyBytes t) s of
           Inl valueBytesErr \<Rightarrow>
             if \<not> errors_Is valueBytesErr ErrKeyNotFound
             then Inl (tv_zero t, Some (WrappedError ''failed to retrieve value from KV store'' valueBytesErr))
             else Inr (currentValue, exists)
         | Inr valueBytes \<Rightarrow>
             (case tv_bytesToV t valueBytes of
                Inl err \<Rightarrow> Inl (tv_zero t, Some (WrappedError ''failed to decode value'' err))
              | Inr (currentValue, _) \<Rightarrow> Inr (currentValue, True)))
     })"

text \<open>The error of the encoder is not looked at: the code tests \<^verbatim>\<open>err\<close>, which is nil there, in place of the encoder's error.\<close>

definition tv_Compute :: "('s, 'b, 'v) TypedValue \<Rightarrow> ('v \<Rightarrow> bool \<Rightarrow> 'v \<times> kv_error option) \<Rightarrow> 's
    \<Rightarrow> (('s, 'b, 'v) TypedValue \<times> 's \<times> 'v \<times> kv_error option) option" where
  "tv_Compute t computeFunc s = do {
     (m, t, s, r) \<leftarrow> with_Lock (tv_mutex t) (do {
       current \<leftarrow> tv_current t s;
       Some (case current of
         Inl r \<Rightarrow> (t, s, r)
       | Inr (currentValue, exists) \<Rightarrow>
           (case computeFunc currentValue exists of
              (newValue, Some err) \<Rightarrow>
                if errors_Is err ErrTypedValueNotChanged then (t, s, currentValue, None)
                else (t, s, newValue, Some (WrappedError ''failed to compute new value'' err))
            | (newValue, None) \<Rightarrow>
                (let newValueBytes = fst (tv_vToBytes t newValue) in
                 case kv_Set (tv_kv t) (tv_keyBytes t) newValueBytes s of
                   (s, Some err) \<Rightarrow> (t, s, currentValue, Some (WrappedError ''failed to store new value in KV store'' err))
                 | (s, None) \<Rightarrow> (t\<lparr>valueCached := Some newValue, hasCached := Some True\<rparr>, s, newValue, None))))
     });
     Some (t\<lparr>tv_mutex := m\<rparr>, s, r)
   }"

subsection \<open>Set and Delete\<close>

definition tv_Set :: "('s, 'b, 'v) TypedValue \<Rightarrow> 'v \<Rightarrow> 's \<Rightarrow> (('s, 'b, 'v) TypedValue \<times> 's \<times> kv_error option) option" where
  "tv_Set t value s = do {
     (m, t, s, r) \<leftarrow> with_Lock (tv_mutex t) (Some (
       case tv_vToBytes t value of
         (_, Some err) \<Rightarrow> (t, s, Some (WrappedError ''failed to encode value'' err))
       | (valueBytes, None) \<Rightarrow>
           (case kv_Set (tv_kv t) (tv_keyBytes t) valueBytes s of
              (s, Some err) \<Rightarrow> (t, s, Some (WrappedError ''failed to store value in KV store'' err))
            | (s, None) \<Rightarrow> (t\<lparr>valueCached := Some value, hasCached := Some True\<rparr>, s, None))));
     Some (t\<lparr>tv_mutex := m\<rparr>, s, r)
   }"

definition tv_Delete :: "('s, 'b, 'v) TypedValue \<Rightarrow> 's \<Rightarrow> (('s, 'b, 'v) TypedValue \<times> 's \<times> kv_error option) option" where
  "tv_Delete t s = do {
     (m, t, s, r) \<leftarrow> with_Lock (tv_mutex t) (Some (
       case kv_Delete (tv_kv t) (tv_keyBytes t) s of
         (s, Some err) \<Rightarrow> (t, s, Some (WrappedError ''failed to delete entry from KV store'' err))
       | (s, None) \<Rightarrow> (t\<lparr>valueCached := None, hasCached := Some False\<rparr>, s, None)));
     Some (t\<lparr>tv_mutex := m\<rparr>, s, r)
   }"

subsection \<open>Concurrent clients\<close>

text \<open>The critical sections that goroutines execute on one value, in any order; \<open>VCloseStore\<close> is another goroutine that
  closes the store.\<close>

datatype 'v tv_op = VGet | VGetRead | VGetLocked | VHas | VHasRead | VHasLocked | VCompute "'v \<Rightarrow> bool \<Rightarrow> 'v \<times> kv_error option"
  | VSet 'v | VDelete | VCloseStore

datatype 'v tv_result = VMiss | VValue "kv_error + 'v" | VBool "kv_error + bool" | VErr "kv_error option" | VComputed 'v "kv_error option"

fun tv_step :: "('s, 'b, 'v) TypedValue \<times> 's \<Rightarrow> 'v tv_op \<Rightarrow> ((('s, 'b, 'v) TypedValue \<times> 's) \<times> 'v tv_result) option" where
  "tv_step (t, s) VGet = map_option (\<lambda>(t, r). ((t, s), VValue r)) (tv_Get t s)"
| "tv_step (t, s) VGetRead = map_option (\<lambda>(t, r). ((t, s), case r of None \<Rightarrow> VMiss | Some r \<Rightarrow> VValue r)) (tv_Get_read t)"
| "tv_step (t, s) VGetLocked = map_option (\<lambda>(t, r). ((t, s), VValue r)) (tv_Get_locked t s)"
| "tv_step (t, s) VHas = map_option (\<lambda>(t, r). ((t, s), VBool r)) (tv_Has t s)"
| "tv_step (t, s) VHasRead = map_option (\<lambda>(t, r). ((t, s), case r of None \<Rightarrow> VMiss | Some has \<Rightarrow> VBool (Inr has))) (tv_Has_read t)"
| "tv_step (t, s) VHasLocked = map_option (\<lambda>(t, r). ((t, s), VBool r)) (tv_Has_locked t s)"
| "tv_step (t, s) (VCompute f) = map_option (\<lambda>(t, s, v, err). ((t, s), VComputed v err)) (tv_Compute t f s)"
| "tv_step (t, s) (VSet v) = map_option (\<lambda>(t, s, err). ((t, s), VErr err)) (tv_Set t v s)"
| "tv_step (t, s) VDelete = map_option (\<lambda>(t, s, err). ((t, s), VErr err)) (tv_Delete t s)"
| "tv_step (t, s) VCloseStore = Some ((t, fst (kv_Close (tv_kv t) s)), VErr (snd (kv_Close (tv_kv t) s)))"

text \<open>What one optional value allows. A section that reads gives the current value, or misses the cache, or fails because
  the store is closed; once the store is closed nothing changes the value.\<close>

definition reads :: "'v option \<Rightarrow> bool \<Rightarrow> kv_error + 'v \<Rightarrow> bool" where
  "reads a c r =
     (case r of
        Inr v \<Rightarrow> a = Some v
      | Inl e \<Rightarrow> a = None \<and> errors_Is e ErrKeyNotFound \<or> c \<and> errors_Is e ErrStoreClosed)"

definition reads_has :: "'v option \<Rightarrow> bool \<Rightarrow> kv_error + bool \<Rightarrow> bool" where
  "reads_has a c r = (case r of Inr has \<Rightarrow> has = (a \<noteq> None) | Inl e \<Rightarrow> c \<and> errors_Is e ErrStoreClosed)"

fun tv_allows :: "'v \<Rightarrow> 'v option \<times> bool \<Rightarrow> 'v tv_op \<Rightarrow> 'v option \<times> bool \<Rightarrow> 'v tv_result \<Rightarrow> bool" where
  "tv_allows zero a VGet a' r \<longleftrightarrow> a' = a \<and> (\<exists>x. r = VValue x \<and> reads (fst a) (snd a) x)"
| "tv_allows zero a VGetRead a' r \<longleftrightarrow> a' = a \<and> (r = VMiss \<or> (\<exists>x. r = VValue x \<and> reads (fst a) False x))"
| "tv_allows zero a VGetLocked a' r \<longleftrightarrow> a' = a \<and> (\<exists>x. r = VValue x \<and> reads (fst a) (snd a) x)"
| "tv_allows zero a VHas a' r \<longleftrightarrow> a' = a \<and> (\<exists>x. r = VBool x \<and> reads_has (fst a) (snd a) x)"
| "tv_allows zero a VHasRead a' r \<longleftrightarrow> a' = a \<and> (r = VMiss \<or> (\<exists>x. r = VBool x \<and> reads_has (fst a) False x))"
| "tv_allows zero a VHasLocked a' r \<longleftrightarrow> a' = a \<and> (\<exists>x. r = VBool x \<and> reads_has (fst a) (snd a) x)"
| "tv_allows zero (a, c) (VCompute f) a' r \<longleftrightarrow>
     (let cur = (case a of None \<Rightarrow> zero | Some v \<Rightarrow> v) in
      if c then a' = (a, c) \<and> (\<exists>v err. r = VComputed v err)
      else case f cur (a \<noteq> None) of
        (new, None) \<Rightarrow> a' = (Some new, c) \<and> r = VComputed new None
      | (new, Some err) \<Rightarrow> a' = (a, c) \<and> r = (if errors_Is err ErrTypedValueNotChanged then VComputed cur None
            else VComputed new (Some (WrappedError ''failed to compute new value'' err))))"
| "tv_allows zero (a, c) (VSet v) a' r \<longleftrightarrow>
     (if c then a' = (a, c) \<and> (\<exists>e. r = VErr (Some e) \<and> errors_Is e ErrStoreClosed) else a' = (Some v, c) \<and> r = VErr None)"
| "tv_allows zero (a, c) VDelete a' r \<longleftrightarrow>
     (if c then a' = (a, c) \<and> (\<exists>e. r = VErr (Some e) \<and> errors_Is e ErrStoreClosed) else a' = (None, c) \<and> r = VErr None)"
| "tv_allows zero (a, c) VCloseStore a' r \<longleftrightarrow> a' = (a, True) \<and> r = VErr None"

section \<open>Coherence of the cache\<close>

locale typed_value = kv_contract kv contents closed inv pending binv
  for kv :: "('s, 'b) KVStore" and contents closed inv pending binv +
  fixes key :: bytes and enc :: "'v ObjectToBytes" and dec :: "'v BytesToObject" and zero :: 'v
  assumes enc_law: "inv s \<Longrightarrow> snd (enc v) = None"
    and dec_law: "inv s \<Longrightarrow> \<exists>n. dec (fst (enc v)) = Inr (v, n)"

text \<open>The value in the store; the cache never contradicts it.\<close>

definition stored_value :: "'v ObjectToBytes \<Rightarrow> 'v BytesToObject \<Rightarrow> bytes option \<Rightarrow> 'v option \<Rightarrow> bool" where
  "stored_value enc dec b a \<longleftrightarrow>
     (case b of None \<Rightarrow> a = None | Some vb \<Rightarrow> (\<exists>v n. a = Some v \<and> vb = fst (enc v) \<and> dec vb = Inr (v, n)))"

definition coherent :: "('s, 'b, 'v) TypedValue \<Rightarrow> 'v option \<Rightarrow> bool" where
  "coherent t a \<longleftrightarrow> (\<forall>v. valueCached t = Some v \<longrightarrow> hasCached t = Some True \<and> a = Some v) \<and>
     (\<forall>h. hasCached t = Some h \<longrightarrow> h = (a \<noteq> None)) \<and> tv_mutex t = free_lock"

context typed_value
begin

abbreviation the_value :: "('s, 'b, 'v) TypedValue \<Rightarrow> bool" where
  "the_value t \<equiv> tv_kv t = kv \<and> tv_keyBytes t = key \<and> tv_vToBytes t = enc \<and> tv_bytesToV t = dec \<and> tv_zero t = zero"

abbreviation tv_rel :: "('s, 'b, 'v) TypedValue \<times> 's \<Rightarrow> 'v option \<times> bool \<Rightarrow> bool" where
  "tv_rel x a \<equiv> the_value (fst x) \<and> coherent (fst x) (fst a) \<and> inv (snd x) \<and> closed (snd x) = snd a \<and>
     stored_value enc dec (contents (snd x) key) (fst a)"

lemma Get_allowed:
  assumes "tv_rel (t, s) (a, c)"
  shows "\<exists>t' r. tv_Get_locked t s = Some (t', r) \<and> tv_rel (t', s) (a, c) \<and> reads a c r"
    and "\<exists>r. tv_Get_read t = Some (t, r) \<and> (case r of None \<Rightarrow> True | Some x \<Rightarrow> reads a False x)"
proof -
  have inv: "inv s" using assms by simp
  show "\<exists>t' r. tv_Get_locked t s = Some (t', r) \<and> tv_rel (t', s) (a, c) \<and> reads a c r"
    using assms Get_law [OF inv, of key]
    by (cases "contents s key"; cases "closed s"; cases "valueCached t"; cases "hasCached t")
      (auto simp: tv_Get_locked_def tv_cached_def coherent_def stored_value_def reads_def)
  show "\<exists>r. tv_Get_read t = Some (t, r) \<and> (case r of None \<Rightarrow> True | Some x \<Rightarrow> reads a False x)"
    using assms by (cases "valueCached t") (auto simp: tv_Get_read_def tv_cached_def coherent_def reads_def)
qed

lemma Has_allowed:
  assumes "tv_rel (t, s) (a, c)"
  shows "\<exists>t' r. tv_Has_locked t s = Some (t', r) \<and> tv_rel (t', s) (a, c) \<and> reads_has a c r"
    and "\<exists>r. tv_Has_read t = Some (t, r) \<and> (case r of None \<Rightarrow> True | Some x \<Rightarrow> reads_has a False (Inr x))"
proof -
  have inv: "inv s" using assms by simp
  show "\<exists>t' r. tv_Has_locked t s = Some (t', r) \<and> tv_rel (t', s) (a, c) \<and> reads_has a c r"
    using assms Has_law [OF inv, of key]
    by (cases "contents s key"; cases "closed s"; cases "hasCached t")
      (auto simp: tv_Has_locked_def coherent_def stored_value_def reads_has_def)
  show "\<exists>r. tv_Has_read t = Some (t, r) \<and> (case r of None \<Rightarrow> True | Some x \<Rightarrow> reads_has a False (Inr x))"
    using assms by (cases "hasCached t") (auto simp: tv_Has_read_def coherent_def reads_has_def)
qed

lemma writes:
  assumes rel: "tv_rel (t, s) (a, False)"
  shows "\<exists>s'. kv_Set kv key (fst (enc v)) s = (s', None) \<and>
      tv_rel (t\<lparr>valueCached := Some v, hasCached := Some True, tv_mutex := free_lock\<rparr>, s') (Some v, False)"
    and "\<exists>s'. kv_Delete kv key s = (s', None) \<and>
      tv_rel (t\<lparr>valueCached := None, hasCached := Some False, tv_mutex := free_lock\<rparr>, s') (None, False)"
proof -
  have inv: "inv s" "\<not> closed s" using rel by simp_all
  show "\<exists>s'. kv_Set kv key (fst (enc v)) s = (s', None) \<and>
      tv_rel (t\<lparr>valueCached := Some v, hasCached := Some True, tv_mutex := free_lock\<rparr>, s') (Some v, False)"
    using Set_law [OF inv, of key "fst (enc v)"] dec_law [OF inv(1), of v] rel by (auto simp: coherent_def stored_value_def)
  show "\<exists>s'. kv_Delete kv key s = (s', None) \<and>
      tv_rel (t\<lparr>valueCached := None, hasCached := Some False, tv_mutex := free_lock\<rparr>, s') (None, False)"
    using Delete_law [OF inv, of key] rel by (auto simp: coherent_def stored_value_def)
qed

lemma current_value:
  assumes rel: "tv_rel (t, s) (a, c)"
  shows "\<exists>r. tv_current t s = Some r \<and> (c \<or> r = Inr (case a of None \<Rightarrow> zero | Some v \<Rightarrow> v, a \<noteq> None))"
proof -
  have inv: "inv s" using rel by simp
  show ?thesis using rel Get_law [OF inv, of key]
    by (cases "contents s key"; cases "closed s"; cases "valueCached t"; cases "hasCached t")
      (auto simp: tv_current_def tv_must_read_def coherent_def stored_value_def)
qed

lemma Compute_allowed:
  assumes rel: "tv_rel (t, s) (a, c)"
  shows "\<exists>t' s' v err a'. tv_Compute t f s = Some (t', s', v, err) \<and> tv_rel (t', s') a' \<and> tv_allows zero (a, c) (VCompute f) a' (VComputed v err)"
proof -
  have lock: "tv_mutex t = free_lock" "t\<lparr>tv_mutex := free_lock\<rparr> = t" and kv: "tv_kv t = kv" "tv_keyBytes t = key" "tv_vToBytes t = enc"
    and inv: "inv s" using rel by (auto simp: coherent_def)
  obtain r where r: "tv_current t s = Some r" "c \<or> r = Inr (case a of None \<Rightarrow> zero | Some v \<Rightarrow> v, a \<noteq> None)"
    using current_value [OF rel] by blast
  show ?thesis
  proof (cases c)
    case True
    then have "kv_Set kv key b s = (s, Some ErrStoreClosed)" for b using closed_law [OF inv] rel by simp
    then show ?thesis using True r(1) rel lock kv
      by (intro exI [of _ t] exI [of _ s]) (cases r; auto simp: tv_Compute_def Let_def split: prod.splits option.splits)
  next
    case False
    define cur where "cur = (case a of None \<Rightarrow> zero | Some v \<Rightarrow> v)"
    obtain new err where f: "f cur (a \<noteq> None) = (new, err)" by (cases "f cur (a \<noteq> None)")
    have r': "r = Inr (cur, a \<noteq> None)" using r(2) False by (simp add: cur_def)
    show ?thesis
    proof (cases err)
      case None
      obtain s' where s': "kv_Set kv key (fst (enc new)) s = (s', None)"
        "tv_rel (t\<lparr>valueCached := Some new, hasCached := Some True, tv_mutex := free_lock\<rparr>, s') (Some new, False)"
        using writes(1) [of t s a new] rel False by auto
      have "tv_Compute t f s = Some (t\<lparr>valueCached := Some new, hasCached := Some True, tv_mutex := free_lock\<rparr>, s', new, None)"
        using lock kv r(1) r' f None s'(1) by (simp add: tv_Compute_def Let_def)
      moreover have "tv_allows zero (a, c) (VCompute f) (Some new, False) (VComputed new None)"
        using False f None by (simp add: cur_def [symmetric])
      ultimately show ?thesis using s'(2) by blast
    next
      case (Some e)
      let ?out = "if errors_Is e ErrTypedValueNotChanged then (cur, None) else (new, Some (WrappedError ''failed to compute new value'' e))"
      have "tv_Compute t f s = Some (t, s, ?out)"
        using lock kv r(1) r' f Some by (simp add: tv_Compute_def Let_def)
      moreover have "tv_allows zero (a, c) (VCompute f) (a, c) (VComputed (fst ?out) (snd ?out))"
        using False f Some by (simp add: cur_def [symmetric])
      ultimately show ?thesis using rel by (metis prod.collapse)
    qed
  qed
qed

lemma tv_step_allowed:
  assumes rel: "tv_rel x a"
  shows "\<exists>x' r a'. tv_step x op = Some (x', r) \<and> tv_allows zero a op a' r \<and> tv_rel x' a'"
proof -
  obtain t s v c where x: "x = (t, s)" "a = (v, c)" by (cases x; cases a)
  have rel': "tv_rel (t, s) (v, c)" and inv: "inv s" and lock: "tv_mutex t = free_lock" "t\<lparr>tv_mutex := free_lock\<rparr> = t"
    using rel x by (auto simp: coherent_def)
  note Get = Get_allowed [OF rel'] and Has = Has_allowed [OF rel'] and closed = closed_law [OF inv]
  have step: ?thesis if "tv_step (t, s) op = Some ((t', s'), r)" "tv_allows zero (v, c) op a' r" "tv_rel (t', s') a'" for t' s' r a'
    using that x by (intro exI [of _ "(t', s')"] exI [of _ r] exI [of _ a']) simp
  from Get obtain t1 r1 r2 where get: "tv_Get_locked t s = Some (t1, r1)" "tv_rel (t1, s) (v, c)" "reads v c r1"
      "tv_Get_read t = Some (t, r2)" "case r2 of None \<Rightarrow> True | Some x \<Rightarrow> reads v False x" by blast
  from Has obtain t3 r3 r4 where has: "tv_Has_locked t s = Some (t3, r3)" "tv_rel (t3, s) (v, c)" "reads_has v c r3"
      "tv_Has_read t = Some (t, r4)" "case r4 of None \<Rightarrow> True | Some x \<Rightarrow> reads_has v False (Inr x)" by blast
  show ?thesis
  proof (cases op)
    case VGet
    show ?thesis
    proof (cases r2)
      case None
      then show ?thesis using VGet get by (intro step [of t1 s "VValue r1" "(v, c)"]) (simp_all add: tv_Get_def)
    next
      case (Some y)
      then show ?thesis using VGet get rel' by (intro step [of t s "VValue y" "(v, c)"]) (auto simp: tv_Get_def reads_def split: sum.splits)
    qed
  next
    case VHas
    show ?thesis
    proof (cases r4)
      case None
      then show ?thesis using VHas has by (intro step [of t3 s "VBool r3" "(v, c)"]) (simp_all add: tv_Has_def)
    next
      case (Some y)
      then show ?thesis using VHas has rel' by (intro step [of t s "VBool (Inr y)" "(v, c)"]) (auto simp: tv_Has_def reads_has_def)
    qed
  next
    case VGetRead
    then show ?thesis using get rel' by (intro step [of t s "case r2 of None \<Rightarrow> VMiss | Some r \<Rightarrow> VValue r" "(v, c)"]) (auto split: option.splits)
  next
    case VHasRead
    then show ?thesis using has rel' by (intro step [of t s "case r4 of None \<Rightarrow> VMiss | Some r \<Rightarrow> VBool (Inr r)" "(v, c)"]) (auto split: option.splits)
  next
    case VGetLocked
    then show ?thesis using get by (intro step [of t1 s "VValue r1" "(v, c)"]) simp_all
  next
    case VHasLocked
    then show ?thesis using has by (intro step [of t3 s "VBool r3" "(v, c)"]) simp_all
  next
    case (VCompute f)
    from Compute_allowed [OF rel', of f] obtain t' s' v' err a' where computed:
      "tv_Compute t f s = Some (t', s', v', err)" "tv_rel (t', s') a'" "tv_allows zero (v, c) (VCompute f) a' (VComputed v' err)" by blast
    show ?thesis by (rule step [OF _ _ computed(2)]) (use VCompute computed(1) in simp, use VCompute computed(3) in \<open>simp only:\<close>)
  next
    case (VSet w)
    obtain b where b: "enc w = (b, None)" using enc_law [OF inv, of w] by (metis prod.collapse)
    show ?thesis
    proof (cases c)
      case True
      then show ?thesis using VSet rel' lock closed b
        by (intro step [of t s "VErr (Some (WrappedError ''failed to store value in KV store'' ErrStoreClosed))" "(v, c)"]) (simp_all add: tv_Set_def)
    next
      case False
      then obtain s' where s': "kv_Set kv key b s = (s', None)"
        "tv_rel (t\<lparr>valueCached := Some w, hasCached := Some True, tv_mutex := free_lock\<rparr>, s') (Some w, False)"
        using writes(1) [of t s v w] rel' b by auto
      show ?thesis by (rule step [OF _ _ s'(2)]) (use VSet rel' lock b False s'(1) in \<open>simp_all add: tv_Set_def\<close>)
    qed
  next
    case VDelete
    show ?thesis
    proof (cases c)
      case True
      then show ?thesis using VDelete rel' lock closed
        by (intro step [of t s "VErr (Some (WrappedError ''failed to delete entry from KV store'' ErrStoreClosed))" "(v, c)"])
          (simp_all add: tv_Delete_def)
    next
      case False
      then obtain s' where s': "kv_Delete kv key s = (s', None)"
        "tv_rel (t\<lparr>valueCached := None, hasCached := Some False, tv_mutex := free_lock\<rparr>, s') (None, False)"
        using writes(2) [of t s v] rel' by auto
      show ?thesis by (rule step [OF _ _ s'(2)]) (use VDelete rel' lock False s'(1) in \<open>simp_all add: tv_Delete_def\<close>)
    qed
  next
    case VCloseStore
    then show ?thesis using Close_law [OF inv] rel' x by auto
  qed
qed

end

sublocale typed_value \<subseteq> concurrent: nondet_simulation tv_step "tv_allows zero" tv_rel
  by unfold_locales (rule tv_step_allowed)

definition total_codec :: "'v ObjectToBytes \<Rightarrow> 'v BytesToObject \<Rightarrow> bool" where
  "total_codec enc dec \<longleftrightarrow> (\<forall>v. snd (enc v) = None \<and> (\<exists>n. dec (fst (enc v)) = Inr (v, n)))"

interpretation db_value: typed_value "mapDB_KVStore ord ordu realm" "db_contents realm" db_closed
  "\<lambda>s. total_codec enc dec \<and> db_inv ord ordu s" batch_pending batch_inv key enc dec zero for ord ordu realm key enc dec and zero :: 'v
  by (intro typed_value.intro map_db.guarded) (unfold_locales, auto simp: total_codec_def)

section \<open>Properties\<close>



text \<open>A failing encoder: \<^verbatim>\<open>Compute\<close> reports success, writes the bytes that came with the error and caches the new value,
  so that the next instance reads something else.\<close>

definition failing_encoder :: "bool ObjectToBytes" where
  "failing_encoder v = (if v then ([], Some ErrKeyNotFound) else ([0], None))"

definition order_keys :: "(bytes \<rightharpoonup> 'v) \<Rightarrow> bytes list" where
  "order_keys m = sorted_list_of_set (dom m)"

theorem compute_ignores_encode_error:
  "\<exists>t s. tv_Compute (NewTypedValue False (mapDB_KVStore order_keys order_keys [7]) [1] failing_encoder (\<lambda>b. Inr (b = [1], 1)))
      (\<lambda>v e. (True, None)) NewMapDB = Some (t, s, True, None) \<and> db_contents [7] s [1] = Some [] \<and> valueCached t = Some True"
  by (simp add: tv_Compute_def NewTypedValue_def tv_current_def tv_must_read_def mapDB_KVStore_def mapDB_Get_def NewMapDB_def skv_get_def
      failing_encoder_def mapDB_Set_def mapDB_set_def skv_set_def db_contents_def Let_def)

end
