(* ===== verification/KV_Sequence.thy ===== *)
theory KV_Sequence
  imports Map_DB
begin

text \<open>
  \<^verbatim>\<open>kvstore/sequence.go\<close>: numbers that are reserved in a store in intervals.
\<close>

section \<open>Definitions\<close>

subsection \<open>Sequences\<close>

text \<open>\<^verbatim>\<open>binary.BigEndian.Uint64\<close> panics on a slice of fewer than 8 bytes.\<close>

definition BigEndian_PutUint64 :: "u64 \<Rightarrow> bytes" where
  "BigEndian_PutUint64 v = be_bytes 8 (unat v)"

definition BigEndian_Uint64 :: "bytes \<Rightarrow> u64 option" where
  "BigEndian_Uint64 b = (if length b < 8 then None else Some (word_of_nat (be_val (take 8 b))))"

record ('s, 'b) Sequence =
  sq_store :: "('s, 'b) KVStore"
  sq_key :: bytes
  sq_interval :: u64
  sq_next :: u64
  sq_reserved :: u64

definition NewSequence :: "('s, 'b) KVStore \<Rightarrow> bytes \<Rightarrow> u64 \<Rightarrow> ('s, 'b) Sequence option" where
  "NewSequence store key interval =
     (if interval = 0 then None
      else Some \<lparr>sq_store = store, sq_key = key, sq_interval = interval, sq_next = 0, sq_reserved = 0\<rparr>)"

definition Sequence_update :: "('s, 'b) Sequence \<Rightarrow> 's \<Rightarrow> (('s, 'b) Sequence \<times> 's \<times> kv_error option) option" where
  "Sequence_update seq s = do {
     read \<leftarrow> (case kv_Get (sq_store seq) (sq_key seq) s of
                Inl err \<Rightarrow> Some (if errors_Is err ErrKeyNotFound then Inr (seq\<lparr>sq_next := 0\<rparr>) else Inl err)
              | Inr value \<Rightarrow> do { num \<leftarrow> BigEndian_Uint64 value; Some (Inr (seq\<lparr>sq_next := num\<rparr>)) });
     Some (case read of
        Inl err \<Rightarrow> (seq, s, Some err)
      | Inr seq \<Rightarrow>
          (let reserved = sq_next seq + sq_interval seq in
           case kv_Set (sq_store seq) (sq_key seq) (BigEndian_PutUint64 reserved) s of
             (s, Some err) \<Rightarrow> (seq, s, Some err)
           | (s, None) \<Rightarrow> (seq\<lparr>sq_reserved := reserved\<rparr>, s, None)))
   }"

definition Sequence_Next :: "('s, 'b) Sequence \<Rightarrow> 's \<Rightarrow> (('s, 'b) Sequence \<times> 's \<times> (kv_error + u64)) option" where
  "Sequence_Next seq s = do {
     (seq, s, err) \<leftarrow> (if sq_next seq \<ge> sq_reserved seq then Sequence_update seq s else Some (seq, s, None));
     Some (case err of
        Some err \<Rightarrow> (seq, s, Inl err)
      | None \<Rightarrow> (seq\<lparr>sq_next := sq_next seq + 1\<rparr>, s, Inr (sq_next seq)))
   }"

definition Sequence_Release :: "('s, 'b) Sequence \<Rightarrow> 's \<Rightarrow> ('s, 'b) Sequence \<times> 's \<times> kv_error option" where
  "Sequence_Release seq s =
     (case kv_Set (sq_store seq) (sq_key seq) (BigEndian_PutUint64 (sq_next seq)) s of
        (s, Some err) \<Rightarrow> (seq, s, Some err)
      | (s, None) \<Rightarrow> (seq\<lparr>sq_reserved := sq_next seq\<rparr>, s, None))"

text \<open>The life of a sequence: calls, and restarts of the program that create the sequence again on the same key.\<close>

datatype sq_op = SNext | SRelease | SRestart u64

datatype sq_result = RNumber "kv_error + u64" | RReleased "kv_error option" | RRestarted

fun sq_step :: "('s, 'b) Sequence \<times> 's \<Rightarrow> sq_op \<Rightarrow> ((('s, 'b) Sequence \<times> 's) \<times> sq_result) option" where
  "sq_step (seq, s) SNext = map_option (\<lambda>(seq, s, r). ((seq, s), RNumber r)) (Sequence_Next seq s)"
| "sq_step (seq, s) SRelease = (let (seq, s, err) = Sequence_Release seq s in Some ((seq, s), RReleased err))"
| "sq_step (seq, s) (SRestart interval) =
     map_option (\<lambda>seq. ((seq, s), RRestarted)) (NewSequence (sq_store seq) (sq_key seq) interval)"

fun numbers :: "sq_result list \<Rightarrow> nat list" where
  "numbers [] = []"
| "numbers (RNumber (Inr n) # rs) = unat n # numbers rs"
| "numbers (_ # rs) = numbers rs"

text \<open>Intervals are positive and at most \<open>I\<close>, and a sequence is released only after it gave a number in the same run.\<close>

fun releases_ok :: "nat \<Rightarrow> bool \<Rightarrow> sq_op list \<Rightarrow> bool" where
  "releases_ok I fresh [] = True"
| "releases_ok I fresh (SNext # ops) = releases_ok I False ops"
| "releases_ok I fresh (SRelease # ops) = (\<not> fresh \<and> releases_ok I False ops)"
| "releases_ok I fresh (SRestart interval # ops) = (0 < unat interval \<and> unat interval \<le> I \<and> releases_ok I True ops)"

text \<open>The counter in the store.\<close>

definition counter :: "bytes option \<Rightarrow> nat option" where
  "counter b = (case b of None \<Rightarrow> Some 0 | Some v \<Rightarrow> if length v = 8 then Some (be_val v) else None)"

section \<open>Lemmas\<close>

lemma counter_put: "counter (Some (BigEndian_PutUint64 v)) = Some (unat v)"
  using unsigned_less [of v, where ?'a = nat] by (simp add: counter_def BigEndian_PutUint64_def be_val_be_bytes)

lemma counter_get: "counter (Some b) = Some n \<Longrightarrow> BigEndian_Uint64 b = Some (word_of_nat n) \<and> n < 2 ^ 64"
  using le_val_less [of "rev b"] by (auto simp: counter_def BigEndian_Uint64_def be_val_def split: if_splits)

lemma unat_small: "n < 2 ^ 64 \<Longrightarrow> unat (word_of_nat n :: u64) = n"
  by (simp add: unsigned_of_nat take_bit_nat_eq_self)

text \<open>The state of a sequence between calls: the stored counter is \<open>C\<close> and no number from \<open>lo\<close> on was given.\<close>

definition sq_ok :: "nat \<Rightarrow> ('s, 'b) KVStore \<Rightarrow> bytes \<Rightarrow> bool \<Rightarrow> nat \<Rightarrow> nat \<Rightarrow> ('s, 'b) Sequence \<Rightarrow> bool" where
  "sq_ok I kv key fresh lo C seq \<longleftrightarrow> sq_store seq = kv \<and> sq_key seq = key \<and> 0 < unat (sq_interval seq) \<and> unat (sq_interval seq) \<le> I \<and> lo \<le> C \<and>
     (if fresh then sq_next seq = 0 \<and> sq_reserved seq = 0
      else lo \<le> unat (sq_next seq) \<and> unat (sq_next seq) \<le> unat (sq_reserved seq) \<and> unat (sq_reserved seq) = C)"

context kv_contract
begin

lemma update_reserves:
  assumes inv: "inv s" "\<not> closed s" and C: "counter (contents s key) = Some C" and seq: "sq_store seq = kv" "sq_key seq = key"
    and bound: "C + unat (sq_interval seq) < 2 ^ 64"
  shows "\<exists>s'. Sequence_update seq s = Some (seq\<lparr>sq_next := word_of_nat C, sq_reserved := word_of_nat (C + unat (sq_interval seq))\<rparr>, s', None) \<and>
    inv s' \<and> \<not> closed s' \<and> counter (contents s' key) = Some (C + unat (sq_interval seq))"
proof -
  let ?r = "word_of_nat (C + unat (sq_interval seq)) :: u64"
  have r: "unat ?r = C + unat (sq_interval seq)" "word_of_nat C + sq_interval seq = ?r" using unat_small [OF bound] by simp_all
  obtain s' where s': "kv_Set kv key (BigEndian_PutUint64 ?r) s = (s', None)" "inv s'" "\<not> closed s'"
    "contents s' key = Some (BigEndian_PutUint64 ?r)" using Set_law [OF inv, of key "BigEndian_PutUint64 ?r"] by auto
  have "counter (contents s' key) = Some (C + unat (sq_interval seq))" unfolding s'(4) counter_put r(1) ..
  moreover have "Sequence_update seq s = Some (seq\<lparr>sq_next := word_of_nat C, sq_reserved := ?r\<rparr>, s', None)"
  proof (cases "contents s key")
    case None
    then have "C = 0" using C by (simp add: counter_def)
    then show ?thesis using None Get_law [OF inv(1), of key] inv(2) seq s'(1) by (simp add: Sequence_update_def)
  next
    case (Some b)
    then have "BigEndian_Uint64 b = Some (word_of_nat C)" using C counter_get [of b C] by simp
    then show ?thesis using Some Get_law [OF inv(1), of key] inv(2) seq s'(1) by (simp add: Sequence_update_def)
  qed
  ultimately show ?thesis using s'(2,3) by blast
qed

lemma Next_gives:
  assumes inv: "inv s" "\<not> closed s" and C: "counter (contents s key) = Some C" and seq: "sq_ok I kv key fresh lo C seq"
    and bound: "C + I < 2 ^ 64"
  shows "\<exists>seq' s' n C'. Sequence_Next seq s = Some (seq', s', Inr n) \<and> lo \<le> unat n \<and> inv s' \<and> \<not> closed s' \<and>
    counter (contents s' key) = Some C' \<and> C' \<le> C + I \<and> sq_ok I kv key False (unat n + 1) C' seq'"
proof (cases "sq_next seq \<ge> sq_reserved seq")
  case True
  have b: "C + unat (sq_interval seq) < 2 ^ 64" using seq bound by (simp add: sq_ok_def)
  obtain s' where s': "Sequence_update seq s = Some (seq\<lparr>sq_next := word_of_nat C, sq_reserved := word_of_nat (C + unat (sq_interval seq))\<rparr>, s', None)"
    "inv s'" "\<not> closed s'" "counter (contents s' key) = Some (C + unat (sq_interval seq))"
    using update_reserves [OF inv C _ _ b] seq unfolding sq_ok_def by blast
  have n: "unat (word_of_nat C :: u64) = C" "unat (word_of_nat (C + unat (sq_interval seq)) :: u64) = C + unat (sq_interval seq)"
    "unat (word_of_nat C + 1 :: u64) = C + 1"
    using unat_small [of C] unat_small [OF b] unat_small [of "C + 1"] b seq by (simp_all add: sq_ok_def add.commute)
  then show ?thesis using True s' seq
    by (intro exI [of _ "seq\<lparr>sq_next := word_of_nat C + 1, sq_reserved := word_of_nat (C + unat (sq_interval seq))\<rparr>"] exI [of _ s']
        exI [of _ "word_of_nat C"] exI [of _ "C + unat (sq_interval seq)"]) (simp add: Sequence_Next_def sq_ok_def split: if_splits)
next
  case False
  then have lt: "unat (sq_next seq) < unat (sq_reserved seq)" by (simp add: word_le_nat_alt)
  then have n: "unat (sq_next seq + 1) = unat (sq_next seq) + 1" using unsigned_less [of "sq_reserved seq", where ?'a = nat] by (simp add: unat_word_ariths)
  then show ?thesis using False lt inv C seq
    by (intro exI [of _ "seq\<lparr>sq_next := sq_next seq + 1\<rparr>"] exI [of _ s] exI [of _ "sq_next seq"] exI [of _ C])
      (auto simp: Sequence_Next_def sq_ok_def split: if_splits)
qed

lemma sequence_run:
  assumes "inv s" "\<not> closed s" "counter (contents s key) = Some C" "sq_ok I kv key fresh lo C seq" "releases_ok I fresh ops"
    and "C + length ops * I < 2 ^ 64"
  shows "\<exists>x rs. run_ops sq_step (seq, s) ops = Some (x, rs) \<and> sorted_wrt (<) (numbers rs) \<and> (\<forall>n \<in> set (numbers rs). lo \<le> n) \<and>
    length (numbers rs) = length (filter (\<lambda>op. op = SNext) ops)"
  using assms
proof (induction ops arbitrary: s seq C fresh lo)
  case (Cons op ops)
  note inv = Cons.prems(1-3) and seq = Cons.prems(4) and bound = Cons.prems(6)
  show ?case
  proof (cases op)
    case SNext
    have "C + I < 2 ^ 64" using bound by simp
    from Next_gives [OF inv seq this] obtain seq' s' n C' where nxt: "Sequence_Next seq s = Some (seq', s', Inr n)" "lo \<le> unat n" "inv s'"
      "\<not> closed s'" "counter (contents s' key) = Some C'" "C' \<le> C + I" "sq_ok I kv key False (unat n + 1) C' seq'" by blast
    have "C' + length ops * I < 2 ^ 64" using nxt(6) bound by simp
    moreover have "releases_ok I False ops" using Cons.prems(5) SNext by simp
    ultimately obtain x rs where run: "run_ops sq_step (seq', s') ops = Some (x, rs)" "sorted_wrt (<) (numbers rs)"
      "\<forall>m \<in> set (numbers rs). unat n + 1 \<le> m" "length (numbers rs) = length (filter (\<lambda>op. op = SNext) ops)"
      using Cons.IH [OF nxt(3-5,7)] by blast
    then show ?thesis using nxt(1,2) SNext by auto
  next
    case SRelease
    let ?b = "BigEndian_PutUint64 (sq_next seq)"
    have fresh: "\<not> fresh" using Cons.prems(5) SRelease by simp
    obtain s' where s': "kv_Set kv key ?b s = (s', None)" "inv s'" "\<not> closed s'" "contents s' key = Some ?b"
      using Set_law [OF inv(1,2), of key ?b] by auto
    have "counter (contents s' key) = Some (unat (sq_next seq))" unfolding s'(4) counter_put ..
    moreover have "sq_ok I kv key False lo (unat (sq_next seq)) (seq\<lparr>sq_reserved := sq_next seq\<rparr>)"
      using seq fresh by (simp add: sq_ok_def)
    moreover have "releases_ok I False ops" "unat (sq_next seq) + length ops * I < 2 ^ 64"
      using Cons.prems(5) SRelease seq fresh bound by (simp_all add: sq_ok_def)
    ultimately obtain x rs where "run_ops sq_step (seq\<lparr>sq_reserved := sq_next seq\<rparr>, s') ops = Some (x, rs)" "sorted_wrt (<) (numbers rs)"
      "\<forall>m \<in> set (numbers rs). lo \<le> m" "length (numbers rs) = length (filter (\<lambda>op. op = SNext) ops)"
      using Cons.IH [OF s'(2,3)] by blast
    then show ?thesis using SRelease s'(1) seq by (auto simp: Sequence_Release_def sq_ok_def)
  next
    case (SRestart interval)
    let ?seq = "\<lparr>sq_store = kv, sq_key = key, sq_interval = interval, sq_next = 0, sq_reserved = 0\<rparr>"
    have int: "0 < unat interval" "unat interval \<le> I" "releases_ok I True ops" using Cons.prems(5) SRestart by simp_all
    have "sq_ok I kv key True lo C ?seq" using seq int by (simp add: sq_ok_def)
    from Cons.IH [OF inv this int(3)] bound obtain x rs where "run_ops sq_step (?seq, s) ops = Some (x, rs)" "sorted_wrt (<) (numbers rs)"
      "\<forall>m \<in> set (numbers rs). lo \<le> m" "length (numbers rs) = length (filter (\<lambda>op. op = SNext) ops)" by auto
    then show ?thesis using SRestart int(1) seq by (auto simp: NewSequence_def sq_ok_def)
  qed
qed simp

end

section \<open>Properties\<close>



text \<open>Releasing a sequence that gave no number in this run writes its counter 0 over the one in the store: numbers repeat.\<close>

theorem release_of_fresh_sequence_repeats:
  assumes "NewSequence (mapDB_KVStore ord ordu realm) key 5 = Some seq"
  shows "\<exists>x. run_ops sq_step (seq, NewMapDB) [SNext, SRestart 5, SRelease, SNext] =
    Some (x, [RNumber (Inr 0), RRestarted, RReleased None, RNumber (Inr 0)])"
  using assms
  by (auto simp: NewSequence_def NewMapDB_def Sequence_Next_def Sequence_update_def Sequence_Release_def mapDB_KVStore_def mapDB_Get_def skv_get_def
      mapDB_Set_def mapDB_set_def skv_set_def BigEndian_Uint64_def BigEndian_PutUint64_def be_val_be_bytes Let_def)

end
