(* ===== verification/Health_Tracker.thy ===== *)
theory Health_Tracker
  imports Typed_Store
begin

text \<open>
  \<^verbatim>\<open>kvstore/health_tracker.go\<close>: the flags and the version that a program keeps beside its data.
\<close>

section \<open>Definitions\<close>

definition StoreVersionNone :: byte where "StoreVersionNone = 0"

text \<open>A string literal as its bytes.\<close>

definition ascii :: "string \<Rightarrow> bytes" where
  "ascii = map (\<lambda>c. word_of_nat (of_char c))"

text \<open>The update function migrates the data of the program: it may change the state of the database.\<close>

record ('s, 'b) StoreHealthTracker =
  ht_store :: "('s, 'b) KVStore"
  ht_storeVersion :: byte
  ht_updateFunc :: "(byte \<Rightarrow> byte \<Rightarrow> 's \<Rightarrow> 's \<times> kv_error option) option"

definition ht_setStoreVersion :: "('s, 'b) StoreHealthTracker \<Rightarrow> byte \<Rightarrow> 's \<Rightarrow> 's \<times> kv_error option" where
  "ht_setStoreVersion t version s =
     (case kv_Get (ht_store t) (ascii ''dbVersion'') s of
        Inl err \<Rightarrow>
          if errors_Is err ErrKeyNotFound
          then (case kv_Set (ht_store t) (ascii ''dbVersion'') [version] s of
                  (s, Some _) \<Rightarrow> (s, Some (TextError ''failed to set store health version''))
                | (s, None) \<Rightarrow> (s, None))
          else (s, None)
      | Inr _ \<Rightarrow> (s, None))"

text \<open>The store of the health realm, or the error of \<^verbatim>\<open>WithRealm\<close>, is an argument.\<close>

definition NewStoreHealthTracker :: "kv_error + ('s, 'b) KVStore \<Rightarrow> byte \<Rightarrow> (byte \<Rightarrow> byte \<Rightarrow> 's \<Rightarrow> 's \<times> kv_error option) option \<Rightarrow> 's
    \<Rightarrow> 's \<times> (kv_error + ('s, 'b) StoreHealthTracker)" where
  "NewStoreHealthTracker healthStore storeVersion updateFunc s =
     (case healthStore of
        Inl err \<Rightarrow> (s, Inl err)
      | Inr store \<Rightarrow>
          (let t = \<lparr>ht_store = store, ht_storeVersion = storeVersion, ht_updateFunc = updateFunc\<rparr> in
           if storeVersion \<noteq> StoreVersionNone
           then (case ht_setStoreVersion t storeVersion s of (s, Some err) \<Rightarrow> (s, Inl err) | (s, None) \<Rightarrow> (s, Inr t))
           else (s, Inr t)))"

definition ht_MarkCorrupted :: "('s, 'b) StoreHealthTracker \<Rightarrow> 's \<Rightarrow> 's \<times> kv_error option" where
  "ht_MarkCorrupted t s =
     (case kv_Set (ht_store t) (ascii ''dbCorrupted'') [] s of
        (s, Some _) \<Rightarrow> (s, Some (TextError ''failed to set store health status''))
      | (s, None) \<Rightarrow> kv_Flush (ht_store t) s)"

definition ht_MarkTainted :: "('s, 'b) StoreHealthTracker \<Rightarrow> 's \<Rightarrow> 's \<times> kv_error option" where
  "ht_MarkTainted t s =
     (case kv_Set (ht_store t) (ascii ''dbTainted'') [] s of
        (s, Some _) \<Rightarrow> (s, Some (TextError ''failed to set store health status''))
      | (s, None) \<Rightarrow> kv_Flush (ht_store t) s)"

definition ht_MarkHealthy :: "('s, 'b) StoreHealthTracker \<Rightarrow> 's \<Rightarrow> 's \<times> kv_error option" where
  "ht_MarkHealthy t s =
     (case kv_Delete (ht_store t) (ascii ''dbCorrupted'') s of
        (s, Some _) \<Rightarrow> (s, Some (TextError ''failed to set store health status''))
      | (s, None) \<Rightarrow> (s, None))"

definition ht_IsCorrupted :: "('s, 'b) StoreHealthTracker \<Rightarrow> 's \<Rightarrow> bool \<times> kv_error option" where
  "ht_IsCorrupted t s =
     (case kv_Has (ht_store t) (ascii ''dbCorrupted'') s of
        Inl _ \<Rightarrow> (True, Some (TextError ''failed to read store health status''))
      | Inr contains \<Rightarrow> (contains, None))"

definition ht_IsTainted :: "('s, 'b) StoreHealthTracker \<Rightarrow> 's \<Rightarrow> bool \<times> kv_error option" where
  "ht_IsTainted t s =
     (case kv_Has (ht_store t) (ascii ''dbTainted'') s of
        Inl _ \<Rightarrow> (True, Some (TextError ''failed to read store health status''))
      | Inr contains \<Rightarrow> (contains, None))"

definition ht_StoreVersion :: "('s, 'b) StoreHealthTracker \<Rightarrow> 's \<Rightarrow> kv_error + byte" where
  "ht_StoreVersion t s =
     (case kv_Get (ht_store t) (ascii ''dbVersion'') s of
        Inl _ \<Rightarrow> Inl (TextError ''failed to read store health version'')
      | Inr [] \<Rightarrow> Inl (TextError ''failed to read store health version'')
      | Inr (v # _) \<Rightarrow> Inr v)"

definition ht_CheckCorrectStoreVersion :: "('s, 'b) StoreHealthTracker \<Rightarrow> 's \<Rightarrow> bool \<times> kv_error option" where
  "ht_CheckCorrectStoreVersion t s =
     (if ht_storeVersion t = StoreVersionNone then (False, Some ErrStoreVersionCheckNotSupported)
      else case ht_StoreVersion t s of
        Inl err \<Rightarrow> (False, Some err)
      | Inr storeVersion \<Rightarrow> (storeVersion = ht_storeVersion t, None))"

definition ht_UpdateStoreVersion :: "('s, 'b) StoreHealthTracker \<Rightarrow> 's \<Rightarrow> 's \<times> bool \<times> kv_error option" where
  "ht_UpdateStoreVersion t s =
     (case ht_StoreVersion t s of
        Inl err \<Rightarrow> (s, False, Some err)
      | Inr storeVersion \<Rightarrow>
          if storeVersion = ht_storeVersion t then (s, False, None)
          else case ht_updateFunc t of
            None \<Rightarrow> (s, True, Some ErrStoreVersionUpdateFuncNotGiven)
          | Some update \<Rightarrow>
              (case update storeVersion (ht_storeVersion t) s of
                 (s, Some err) \<Rightarrow> (s, True, Some err)
               | (s, None) \<Rightarrow>
                   (case kv_Set (ht_store t) (ascii ''dbVersion'') [ht_storeVersion t] s of
                      (s, Some _) \<Rightarrow> (s, True, Some (TextError ''failed to set store health version''))
                    | (s, None) \<Rightarrow> (s, True, None))))"

definition ht_Flush :: "('s, 'b) StoreHealthTracker \<Rightarrow> 's \<Rightarrow> 's \<times> kv_error option" where
  "ht_Flush t s = kv_Flush (ht_store t) s"

definition ht_Close :: "('s, 'b) StoreHealthTracker \<Rightarrow> 's \<Rightarrow> 's \<times> kv_error option" where
  "ht_Close t s = kv_Close (ht_store t) s"

subsection \<open>A client\<close>

text \<open>\<open>HOpen\<close> creates the tracker for a version of the program, as every start of it does.\<close>

datatype ht_op = HOpen byte | HMarkCorrupted | HMarkTainted | HMarkHealthy | HIsCorrupted | HIsTainted | HStoreVersion | HCheck | HUpdate
  | HFlush | HClose

datatype ht_result = HErr "kv_error option" | HBool bool "kv_error option" | HVersion "kv_error + byte"

fun ht_step :: "('s \<Rightarrow> kv_error + ('s, 'b) KVStore) \<Rightarrow> ('s, 'b) StoreHealthTracker \<times> 's \<Rightarrow> ht_op \<Rightarrow> ((('s, 'b) StoreHealthTracker \<times> 's) \<times> ht_result) option" where
  "ht_step withRealm (t, s) (HOpen v) =
     (case NewStoreHealthTracker (withRealm s) v (ht_updateFunc t) s of
        (s, Inl err) \<Rightarrow> Some ((t, s), HErr (Some err))
      | (s, Inr t) \<Rightarrow> Some ((t, s), HErr None))"
| "ht_step withRealm (t, s) HMarkCorrupted = (let (s, err) = ht_MarkCorrupted t s in Some ((t, s), HErr err))"
| "ht_step withRealm (t, s) HMarkTainted = (let (s, err) = ht_MarkTainted t s in Some ((t, s), HErr err))"
| "ht_step withRealm (t, s) HMarkHealthy = (let (s, err) = ht_MarkHealthy t s in Some ((t, s), HErr err))"
| "ht_step withRealm (t, s) HIsCorrupted = (let (b, err) = ht_IsCorrupted t s in Some ((t, s), HBool b err))"
| "ht_step withRealm (t, s) HIsTainted = (let (b, err) = ht_IsTainted t s in Some ((t, s), HBool b err))"
| "ht_step withRealm (t, s) HStoreVersion = Some ((t, s), HVersion (ht_StoreVersion t s))"
| "ht_step withRealm (t, s) HCheck = (let (b, err) = ht_CheckCorrectStoreVersion t s in Some ((t, s), HBool b err))"
| "ht_step withRealm (t, s) HUpdate = (let (s, b, err) = ht_UpdateStoreVersion t s in Some ((t, s), HBool b err))"
| "ht_step withRealm (t, s) HFlush = (let (s, err) = ht_Flush t s in Some ((t, s), HErr err))"
| "ht_step withRealm (t, s) HClose = (let (s, err) = ht_Close t s in Some ((t, s), HErr err))"

text \<open>The specification: two flags, the version the data has, the version of the program and whether the store is closed.
  When the flags cannot be read the store counts as corrupted and tainted. \<open>mig\<close> is the error of the migration from one
  version to another, if there is a migration at all.\<close>

record health =
  h_corrupted :: bool
  h_tainted :: bool
  h_version :: "byte option"
  h_program :: byte
  h_closed :: bool

fun ht_spec :: "(byte \<Rightarrow> byte \<Rightarrow> kv_error option) option \<Rightarrow> health \<Rightarrow> ht_op \<Rightarrow> health \<times> ht_result" where
  "ht_spec mig h (HOpen v) =
     (if h_closed h then (h, HErr (Some ErrStoreClosed))
      else if v \<noteq> 0 \<and> h_version h = None then (h\<lparr>h_version := Some v, h_program := v\<rparr>, HErr None)
      else (h\<lparr>h_program := v\<rparr>, HErr None))"
| "ht_spec mig h HMarkCorrupted = (if h_closed h then (h, HErr (Some (TextError ''failed to set store health status'')))
     else (h\<lparr>h_corrupted := True\<rparr>, HErr None))"
| "ht_spec mig h HMarkTainted = (if h_closed h then (h, HErr (Some (TextError ''failed to set store health status'')))
     else (h\<lparr>h_tainted := True\<rparr>, HErr None))"
| "ht_spec mig h HMarkHealthy = (if h_closed h then (h, HErr (Some (TextError ''failed to set store health status'')))
     else (h\<lparr>h_corrupted := False\<rparr>, HErr None))"
| "ht_spec mig h HIsCorrupted = (h, if h_closed h then HBool True (Some (TextError ''failed to read store health status''))
     else HBool (h_corrupted h) None)"
| "ht_spec mig h HIsTainted = (h, if h_closed h then HBool True (Some (TextError ''failed to read store health status''))
     else HBool (h_tainted h) None)"
| "ht_spec mig h HStoreVersion = (h, HVersion
     (case (if h_closed h then None else h_version h) of None \<Rightarrow> Inl (TextError ''failed to read store health version'') | Some v \<Rightarrow> Inr v))"
| "ht_spec mig h HCheck = (h,
     if h_program h = 0 then HBool False (Some ErrStoreVersionCheckNotSupported)
     else case (if h_closed h then None else h_version h) of
       None \<Rightarrow> HBool False (Some (TextError ''failed to read store health version''))
     | Some v \<Rightarrow> HBool (v = h_program h) None)"
| "ht_spec mig h HUpdate =
     (case (if h_closed h then None else h_version h) of
        None \<Rightarrow> (h, HBool False (Some (TextError ''failed to read store health version'')))
      | Some v \<Rightarrow>
          if v = h_program h then (h, HBool False None)
          else case mig of
            None \<Rightarrow> (h, HBool True (Some ErrStoreVersionUpdateFuncNotGiven))
          | Some f \<Rightarrow>
              (case f v (h_program h) of
                 Some err \<Rightarrow> (h, HBool True (Some err))
               | None \<Rightarrow> (h\<lparr>h_version := Some (h_program h)\<rparr>, HBool True None)))"
| "ht_spec mig h HFlush = (h, HErr (if h_closed h then Some ErrStoreClosed else None))"
| "ht_spec mig h HClose = (h\<lparr>h_closed := True\<rparr>, HErr None)"

section \<open>The tracker over a store\<close>

text \<open>The migration leaves the realm of the tracker alone.\<close>

locale health_tracker = kv_contract kv contents closed inv pending binv
  for kv :: "('s, 'b) KVStore" and contents closed inv pending binv +
  fixes upd :: "(byte \<Rightarrow> byte \<Rightarrow> 's \<Rightarrow> 's \<times> kv_error option) option" and mig :: "(byte \<Rightarrow> byte \<Rightarrow> kv_error option) option"
    and withRealm :: "'s \<Rightarrow> kv_error + ('s, 'b) KVStore"
  assumes mig_law: "inv s \<Longrightarrow> (upd = None \<longleftrightarrow> mig = None)"
    and realm_law: "inv s \<Longrightarrow> withRealm s = (if closed s then Inl ErrStoreClosed else Inr kv)"
    and upd_law: "inv s \<Longrightarrow> \<not> closed s \<Longrightarrow> upd = Some u \<Longrightarrow> mig = Some g \<Longrightarrow>
      snd (u v w s) = g v w \<and> inv (fst (u v w s)) \<and> \<not> closed (fst (u v w s)) \<and> contents (fst (u v w s)) = contents s"

definition health_of :: "(bytes \<rightharpoonup> bytes) \<Rightarrow> byte \<Rightarrow> bool \<Rightarrow> health" where
  "health_of m v c = \<lparr>h_corrupted = m (ascii ''dbCorrupted'') \<noteq> None, h_tainted = m (ascii ''dbTainted'') \<noteq> None,
     h_version = map_option hd (m (ascii ''dbVersion'')), h_program = v, h_closed = c\<rparr>"

lemma ascii_keys: "ascii ''dbCorrupted'' \<noteq> ascii ''dbTainted''" "ascii ''dbCorrupted'' \<noteq> ascii ''dbVersion''"
  "ascii ''dbTainted'' \<noteq> ascii ''dbVersion''"
  by (simp_all add: ascii_def)


context health_tracker
begin

abbreviation ht_inv :: "('s, 'b) StoreHealthTracker \<times> 's \<Rightarrow> bool" where
  "ht_inv x \<equiv> ht_store (fst x) = kv \<and> ht_updateFunc (fst x) = upd \<and> inv (snd x) \<and> contents (snd x) (ascii ''dbVersion'') \<noteq> Some []"

abbreviation ht_abs :: "('s, 'b) StoreHealthTracker \<times> 's \<Rightarrow> health" where
  "ht_abs x \<equiv> health_of (contents (snd x)) (ht_storeVersion (fst x)) (closed (snd x))"

lemma reads_version:
  assumes "ht_inv (t, s)"
  shows "ht_StoreVersion t s =
    (case (if closed s then None else map_option hd (contents s (ascii ''dbVersion''))) of
       None \<Rightarrow> Inl (TextError ''failed to read store health version'') | Some v \<Rightarrow> Inr v)"
proof -
  have inv: "inv s" using assms by simp
  show ?thesis using assms Get_law [OF inv, of "ascii ''dbVersion''"]
    by (cases "contents s (ascii ''dbVersion'')") (auto simp: ht_StoreVersion_def split: list.splits)
qed

lemma update_refines:
  assumes "ht_inv (t, s)"
  shows "\<exists>x'. ht_step withRealm (t, s) HUpdate = Some (x', snd (ht_spec mig (ht_abs (t, s)) HUpdate)) \<and> ht_inv x' \<and>
    ht_abs x' = fst (ht_spec mig (ht_abs (t, s)) HUpdate)"
proof (cases "if closed s then None else map_option hd (contents s (ascii ''dbVersion''))")
  case None
  then show ?thesis using assms reads_version [OF assms] by (auto simp: ht_UpdateStoreVersion_def health_of_def split: if_splits)
next
  case (Some v)
  then have opened: "\<not> closed s" and v: "ht_StoreVersion t s = Inr v" "map_option hd (contents s (ascii ''dbVersion'')) = Some v"
    and inv: "inv s" using assms reads_version [OF assms] by (auto split: if_splits)
  obtain vb where vb: "contents s (ascii ''dbVersion'') = Some vb" "hd vb = v" using v(2) by blast
  consider "v = ht_storeVersion t" | "v \<noteq> ht_storeVersion t" "upd = None" "mig = None"
    | u g where "v \<noteq> ht_storeVersion t" "upd = Some u" "mig = Some g"
    using mig_law [OF inv] by (cases upd; cases mig) auto
  then show ?thesis
  proof cases
    case 1
    then show ?thesis using assms opened v(1) vb by (simp add: ht_UpdateStoreVersion_def health_of_def)
  next
    case 2
    then show ?thesis using assms opened v(1) vb by (simp add: ht_UpdateStoreVersion_def health_of_def)
  next
    case (3 u g)
    obtain s1 err where s1: "u v (ht_storeVersion t) s = (s1, err)" by (cases "u v (ht_storeVersion t) s")
    with upd_law [OF inv opened 3(2,3), of v "ht_storeVersion t"]
    have u: "g v (ht_storeVersion t) = err" "inv s1" "\<not> closed s1" "contents s1 = contents s" by simp_all
    obtain s2 where s2: "kv_Set kv (ascii ''dbVersion'') [ht_storeVersion t] s1 = (s2, None)" "inv s2" "\<not> closed s2"
      "contents s2 = (contents s)(ascii ''dbVersion'' \<mapsto> [ht_storeVersion t])"
      using Set_law [OF u(2,3), of "ascii ''dbVersion''" "[ht_storeVersion t]"] u(4) by auto
    show ?thesis using 3 assms opened v(1) vb s1 u s2 ascii_keys
      by (cases err) (simp_all add: ht_UpdateStoreVersion_def health_of_def)
  qed
qed

lemma open_refines:
  assumes "ht_inv (t, s)"
  shows "\<exists>x'. ht_step withRealm (t, s) (HOpen v) = Some (x', snd (ht_spec mig (ht_abs (t, s)) (HOpen v))) \<and> ht_inv x' \<and>
    ht_abs x' = fst (ht_spec mig (ht_abs (t, s)) (HOpen v))"
proof (cases "closed s")
  case True
  then show ?thesis using assms realm_law [of s] by (auto simp: NewStoreHealthTracker_def health_of_def)
next
  case False
  have inv: "inv s" using assms by simp
  obtain s' where s': "kv_Set kv (ascii ''dbVersion'') [v] s = (s', None)" "inv s'" "\<not> closed s'"
    "contents s' = (contents s)(ascii ''dbVersion'' \<mapsto> [v])" using Set_law [OF inv False, of "ascii ''dbVersion''" "[v]"] by auto
  show ?thesis using assms realm_law [OF inv] False s' Get_law [OF inv, of "ascii ''dbVersion''"] ascii_keys
    by (cases "contents s (ascii ''dbVersion'')"; cases "v = 0")
      (auto simp: NewStoreHealthTracker_def ht_setStoreVersion_def health_of_def StoreVersionNone_def Let_def)
qed

lemma ht_refines:
  assumes "ht_inv x"
  shows "\<exists>x'. ht_step withRealm x op = Some (x', snd (ht_spec mig (ht_abs x) op)) \<and> ht_inv x' \<and> ht_abs x' = fst (ht_spec mig (ht_abs x) op)"
proof -
  obtain t s where x: "x = (t, s)" by (cases x)
  have inv: "inv s" and ts: "ht_inv (t, s)" using assms x by simp_all
  note closed = closed_law [OF inv] and version = reads_version [OF ts]
  have set: "\<exists>s'. kv_Set kv k [] s = (s', None) \<and> (\<exists>s2. kv_Flush kv s' = (s2, None) \<and> inv s2 \<and> \<not> closed s2 \<and> contents s2 = (contents s)(k \<mapsto> []))"
    if "\<not> closed s" for k
    using Set_law [OF inv that, of k "[]"] Flush_law by metis
  show ?thesis
  proof (cases op)
    case (HOpen v)
    then show ?thesis using open_refines [OF ts] x by blast
  next
    case HUpdate
    then show ?thesis using update_refines [OF ts] x by blast
  next
    case HMarkCorrupted
    then show ?thesis using x ts closed set [of "ascii ''dbCorrupted''"] ascii_keys
      by (cases "closed s") (auto simp: ht_MarkCorrupted_def health_of_def)
  next
    case HMarkTainted
    then show ?thesis using x ts closed set [of "ascii ''dbTainted''"] ascii_keys
      by (cases "closed s") (auto simp: ht_MarkTainted_def health_of_def)
  next
    case HMarkHealthy
    then show ?thesis using x ts closed Delete_law [OF inv, of "ascii ''dbCorrupted''"] ascii_keys
      by (cases "closed s") (auto simp: ht_MarkHealthy_def health_of_def)
  qed (use x ts closed version Has_law [OF inv] Flush_law [OF inv] Close_law [OF inv] in
      \<open>auto simp: ht_IsCorrupted_def ht_IsTainted_def ht_CheckCorrectStoreVersion_def ht_Flush_def ht_Close_def health_of_def StoreVersionNone_def
        split: option.splits\<close>)
qed

end

sublocale health_tracker \<subseteq> tracked: data_refinement "ht_step withRealm" "ht_spec mig" ht_abs ht_inv
  by unfold_locales (rule ht_refines)

definition db_withRealm :: "(kv_map \<Rightarrow> bytes list) \<Rightarrow> ((bytes \<rightharpoonup> unit) \<Rightarrow> bytes list) \<Rightarrow> bytes \<Rightarrow> mapDB \<Rightarrow> kv_error + (mapDB, mapDB_batch) KVStore" where
  "db_withRealm ord ordu realm s = map_sum id (mapDB_KVStore ord ordu) (mapDB_WithRealm realm s)"

text \<open>What the tracker relies on: the migration reports \<open>mig\<close>, does not close the database and leaves the realm of the
  tracker alone.\<close>

definition good_migration :: "(mapDB \<Rightarrow> bool) \<Rightarrow> bytes \<Rightarrow> (byte \<Rightarrow> byte \<Rightarrow> mapDB \<Rightarrow> mapDB \<times> kv_error option) option
    \<Rightarrow> (byte \<Rightarrow> byte \<Rightarrow> kv_error option) option \<Rightarrow> bool" where
  "good_migration ok realm upd mig \<longleftrightarrow> (upd = None \<longleftrightarrow> mig = None) \<and>
     (\<forall>u g s v w. upd = Some u \<and> mig = Some g \<and> ok s \<and> \<not> db_closed s \<longrightarrow>
        snd (u v w s) = g v w \<and> ok (fst (u v w s)) \<and> \<not> db_closed (fst (u v w s)) \<and> db_contents realm (fst (u v w s)) = db_contents realm s)"

interpretation db_health: health_tracker "mapDB_KVStore ord ordu realm" "db_contents realm" db_closed
  "\<lambda>s. good_migration (db_inv ord ordu) realm upd mig \<and> db_inv ord ordu s" batch_pending batch_inv upd mig "db_withRealm ord ordu realm"
  by (intro health_tracker.intro map_db.guarded)
    (unfold_locales, auto simp: good_migration_def db_withRealm_def mapDB_WithRealm_def)

section \<open>Properties\<close>

text \<open>C36: For every history of starts of the program and calls of the tracker, every call returns what two flags and a version
  number would: a mark is seen until it is taken back, also by later starts; the version of the data is the one of the first
  start with a version until an update succeeds, and is then the version of the program; a failing migration changes nothing.
  When the store is closed the flags read as set, with an error.\<close>

theorem health_tracker_is_flags:
  assumes "good_order ord" and "good_order ordu" and "good_migration (db_inv ord ordu) realm upd mig"
    and "NewStoreHealthTracker (db_withRealm ord ordu realm NewMapDB) v upd NewMapDB = (s, Inr t)"
  shows "\<exists>x. run_ops (ht_step (db_withRealm ord ordu realm)) (t, s) ops =
    Some (x, snd (run_spec (ht_spec mig)
      \<lparr>h_corrupted = False, h_tainted = False, h_version = (if v = 0 then None else Some v), h_program = v, h_closed = False\<rparr> ops))"
proof -
  have "(ht_store t = mapDB_KVStore ord ordu realm \<and> ht_updateFunc t = upd \<and>
      (good_migration (db_inv ord ordu) realm upd mig \<and> db_inv ord ordu s) \<and> db_contents realm s (ascii ''dbVersion'') \<noteq> Some []) \<and>
    health_of (db_contents realm s) (ht_storeVersion t) (db_closed s) =
      \<lparr>h_corrupted = False, h_tainted = False, h_version = (if v = 0 then None else Some v), h_program = v, h_closed = False\<rparr>"
    using assms ascii_keys
    by (auto simp: NewStoreHealthTracker_def ht_setStoreVersion_def db_withRealm_def mapDB_WithRealm_def NewMapDB_def StoreVersionNone_def
        mapDB_KVStore_def mapDB_Get_def skv_get_def mapDB_Set_def mapDB_set_def skv_set_def db_inv_def db_contents_def health_of_def Let_def
        split: if_splits)
  then show ?thesis using db_health.tracked.run_refines [of "(t, s)" ord ordu realm upd mig ops] by auto
qed

theorem health_tracker_is_flags_witness:
  "\<exists>s t x. NewStoreHealthTracker (db_withRealm (\<lambda>m. sorted_list_of_set (dom m)) (\<lambda>m. sorted_list_of_set (dom m)) [7] NewMapDB) 1
       (Some (\<lambda>old new s. (s, None))) NewMapDB = (s, Inr t) \<and>
     run_ops (ht_step (db_withRealm (\<lambda>m. sorted_list_of_set (dom m)) (\<lambda>m. sorted_list_of_set (dom m)) [7])) (t, s)
       [HMarkCorrupted, HOpen 2, HIsCorrupted, HCheck, HUpdate, HCheck, HClose, HIsTainted] =
     Some (x, [HErr None, HErr None, HBool True None, HBool False None, HBool True None, HBool True None, HErr None,
       HBool True (Some (TextError ''failed to read store health status''))])"
proof -
  let ?ord = "\<lambda>m. sorted_list_of_set (dom m)" and ?ordu = "\<lambda>m. sorted_list_of_set (dom m)"
  have "\<exists>s t. NewStoreHealthTracker (db_withRealm ?ord ?ordu [7] NewMapDB) 1 (Some (\<lambda>old new s. (s, None))) NewMapDB = (s, Inr t)"
    by (simp add: NewStoreHealthTracker_def ht_setStoreVersion_def db_withRealm_def mapDB_WithRealm_def NewMapDB_def StoreVersionNone_def
        mapDB_KVStore_def mapDB_Get_def skv_get_def mapDB_Set_def Let_def)
  then obtain s t where st: "NewStoreHealthTracker (db_withRealm ?ord ?ordu [7] NewMapDB) 1 (Some (\<lambda>old new s. (s, None))) NewMapDB = (s, Inr t)"
    by blast
  have "good_migration (db_inv ?ord ?ordu) [7] (Some (\<lambda>old new s. (s, None))) (Some (\<lambda>old new. None))" by (simp add: good_migration_def)
  from health_tracker_is_flags [OF good_order_sorted good_order_sorted this st,
      of "[HMarkCorrupted, HOpen 2, HIsCorrupted, HCheck, HUpdate, HCheck, HClose, HIsTainted]"] st
  show ?thesis by (intro exI [of _ s] exI [of _ t]) (simp del: run_ops.simps)
qed

end
