(* ===== verification/Starving_Mutex.thy ===== *)
theory Starving_Mutex
  imports Hive_Prelude
begin

text \<open>
  \<^verbatim>\<open>runtime/syncutils/starvingmutex.go\<close>: a reader/writer lock built on a mutex and two condition variables. The sections that hold the
  mutex are functions, the goroutines a step relation.
\<close>

section \<open>Definitions\<close>

subsection \<open>The critical sections\<close>

text \<open>The fields that the inner mutex protects. A section that holds the inner mutex is one function.\<close>

record StarvingMutex =
  readersActive :: int
  writerActive :: bool
  pendingWriters :: int

definition NewStarvingMutex :: StarvingMutex where
  "NewStarvingMutex = \<lparr>readersActive = 0, writerActive = False, pendingWriters = 0\<rparr>"

definition canWrite :: "StarvingMutex \<Rightarrow> bool" where
  "canWrite f \<longleftrightarrow> \<not> writerActive f \<and> readersActive f = 0"

text \<open>What a goroutine does after a section: it goes on, waits on one of the condition variables, or goes on after it has
  signalled.\<close>

datatype sm_next = Proceed | WaitReader | WaitWriter | SignalWriter | BroadcastReaders

text \<open>One turn of the loop of \<^verbatim>\<open>RLock\<close>, on entry or after it was woken.\<close>

definition sm_RLock :: "StarvingMutex \<Rightarrow> StarvingMutex \<times> sm_next" where
  "sm_RLock f = (if writerActive f then (f, WaitReader) else (f\<lparr>readersActive := readersActive f + 1\<rparr>, Proceed))"

text \<open>\<^term>\<open>None\<close> is a panic.\<close>

definition sm_RUnlock :: "StarvingMutex \<Rightarrow> (StarvingMutex \<times> sm_next) option" where
  "sm_RUnlock f =
     (if readersActive f = 0 then None
      else if writerActive f then None
      else let f = f\<lparr>readersActive := readersActive f - 1\<rparr> in
        Some (f, if readersActive f = 0 \<and> pendingWriters f > 0 then SignalWriter else Proceed))"

text \<open>The loop of \<^verbatim>\<open>Lock\<close>, on entry and after a wait.\<close>

definition sm_Lock_loop :: "StarvingMutex \<Rightarrow> StarvingMutex \<times> sm_next" where
  "sm_Lock_loop f =
     (if \<not> canWrite f then (f, WaitWriter)
      else (f\<lparr>pendingWriters := pendingWriters f - 1, writerActive := True\<rparr>, Proceed))"

definition sm_Lock :: "StarvingMutex \<Rightarrow> StarvingMutex \<times> sm_next" where
  "sm_Lock f = sm_Lock_loop (f\<lparr>pendingWriters := pendingWriters f + 1\<rparr>)"

definition sm_Unlock :: "StarvingMutex \<Rightarrow> (StarvingMutex \<times> sm_next) option" where
  "sm_Unlock f =
     (if readersActive f > 0 then None
      else let f = f\<lparr>writerActive := False\<rparr> in
        Some (f, if pendingWriters f = 0 then BroadcastReaders else SignalWriter))"

subsection \<open>Goroutines\<close>

text \<open>Where a goroutine is: outside, waiting on a condition variable, woken and about to take the inner mutex again, holding the
  lock, or between the release of the inner mutex and its signal.\<close>

datatype sm_pc = Outside | RWaiting | RWoken | Reading | WWaiting | WWoken | Writing | Signalling | Broadcasting

type_synonym sm_state = "StarvingMutex \<times> (nat \<Rightarrow> sm_pc)"

definition sm_init :: sm_state where
  "sm_init = (NewStarvingMutex, \<lambda>_. Outside)"

definition after :: "sm_pc \<Rightarrow> sm_next \<Rightarrow> sm_pc" where
  "after holds n = (case n of Proceed \<Rightarrow> holds | WaitReader \<Rightarrow> RWaiting | WaitWriter \<Rightarrow> WWaiting | SignalWriter \<Rightarrow> Signalling
     | BroadcastReaders \<Rightarrow> Broadcasting)"

text \<open>The steps by which calls that have begun go on; a goroutine that holds the lock releases it in the end. \<^verbatim>\<open>Signal\<close> wakes one
  goroutine that waits, whichever, if there is one; \<^verbatim>\<open>Broadcast\<close> wakes all of them.\<close>

inductive sm_continue :: "sm_state \<Rightarrow> sm_state \<Rightarrow> bool" where
  rwoken: "pc t = RWoken \<Longrightarrow> sm_RLock f = (f', n) \<Longrightarrow> sm_continue (f, pc) (f', pc(t := after Reading n))"
| wwoken: "pc t = WWoken \<Longrightarrow> sm_Lock_loop f = (f', n) \<Longrightarrow> sm_continue (f, pc) (f', pc(t := after Writing n))"
| runlock: "pc t = Reading \<Longrightarrow> sm_RUnlock f = Some (f', n) \<Longrightarrow> sm_continue (f, pc) (f', pc(t := after Outside n))"
| unlock: "pc t = Writing \<Longrightarrow> sm_Unlock f = Some (f', n) \<Longrightarrow> sm_continue (f, pc) (f', pc(t := after Outside n))"
| signal_one: "pc t = Signalling \<Longrightarrow> pc u = WWaiting \<Longrightarrow> sm_continue (f, pc) (f, pc(t := Outside, u := WWoken))"
| signal_none: "pc t = Signalling \<Longrightarrow> \<forall>u. pc u \<noteq> WWaiting \<Longrightarrow> sm_continue (f, pc) (f, pc(t := Outside))"
| broadcast: "pc t = Broadcasting \<Longrightarrow>
    sm_continue (f, pc) (f, \<lambda>u. if u = t then Outside else if pc u = RWaiting then RWoken else pc u)"

text \<open>The steps that begin a call.\<close>

inductive sm_begin :: "sm_state \<Rightarrow> sm_state \<Rightarrow> bool" where
  rlock: "pc t = Outside \<Longrightarrow> sm_RLock f = (f', n) \<Longrightarrow> sm_begin (f, pc) (f', pc(t := after Reading n))"
| lock: "pc t = Outside \<Longrightarrow> sm_Lock f = (f', n) \<Longrightarrow> sm_begin (f, pc) (f', pc(t := after Writing n))"

inductive sm_reach :: "sm_state \<Rightarrow> bool" where
  start: "sm_reach sm_init"
| more: "sm_reach s \<Longrightarrow> sm_continue s s' \<or> sm_begin s s' \<Longrightarrow> sm_reach s'"

section \<open>Lemmas\<close>

text \<open>How many goroutines are at a place, and the invariant: the fields count them, a writer is alone, and nobody waits without a
  reason: somebody holds the lock, or a signal is on its way, or a woken goroutine will pass it on.\<close>

definition num :: "(nat \<Rightarrow> sm_pc) \<Rightarrow> sm_pc \<Rightarrow> nat" where
  "num pc p = card {t. pc t = p}"

definition active :: "(nat \<Rightarrow> sm_pc) \<Rightarrow> nat set" where
  "active pc = {t. pc t \<noteq> Outside}"

definition sm_inv :: "sm_state \<Rightarrow> bool" where
  "sm_inv s = (case s of (f, pc) \<Rightarrow>
     finite (active pc) \<and>
     readersActive f = int (num pc Reading) \<and>
     num pc Writing = (if writerActive f then 1 else 0) \<and>
     pendingWriters f = int (num pc WWaiting + num pc WWoken) \<and>
     (writerActive f \<longrightarrow> num pc Reading = 0) \<and>
     (num pc WWaiting > 0 \<longrightarrow> num pc Reading + num pc Writing + num pc WWoken + num pc Signalling > 0) \<and>
     (num pc RWaiting > 0 \<longrightarrow> num pc Writing + num pc WWaiting + num pc WWoken + num pc Broadcasting > 0))"

lemma finite_at: "finite (active pc) \<Longrightarrow> p \<noteq> Outside \<Longrightarrow> finite {t. pc t = p}"
  by (rule finite_subset [of _ "active pc"]) (auto simp: active_def)

lemma finite_upd: "finite (active pc) \<Longrightarrow> finite (active (pc(t := q)))"
  by (rule finite_subset [of _ "insert t (active pc)"]) (auto simp: active_def)

lemma num_pos: "finite (active pc) \<Longrightarrow> p \<noteq> Outside \<Longrightarrow> 0 < num pc p \<longleftrightarrow> (\<exists>t. pc t = p)"
  using finite_at [of pc p] by (simp add: num_def card_gt_0_iff)

lemma num_upd:
  assumes fin: "finite (active pc)" and p: "p \<noteq> Outside"
  shows "num (pc(t := q)) p = (if p = q then (if pc t = p then num pc p else num pc p + 1) else if pc t = p then num pc p - 1 else num pc p)"
proof (cases "p = q")
  case True
  then have "{u. (pc(t := q)) u = p} = insert t {u. pc u = p}" by auto
  moreover have "insert t {u. pc u = p} = {u. pc u = p}" if "pc t = p" using that by auto
  ultimately show ?thesis using True finite_at [OF fin p] unfolding num_def by (cases "pc t = p") simp_all
next
  case False
  then have "{u. (pc(t := q)) u = p} = {u. pc u = p} - {t}" by auto
  then show ?thesis using False finite_at [OF fin p] unfolding num_def by simp
qed

lemma num_ge_1: "finite (active pc) \<Longrightarrow> pc t = p \<Longrightarrow> p \<noteq> Outside \<Longrightarrow> 1 \<le> num pc p"
  using num_pos [of pc p] by (metis One_nat_def Suc_leI)

lemmas sm_sections = sm_RLock_def sm_RUnlock_def sm_Lock_loop_def sm_Lock_def sm_Unlock_def canWrite_def after_def

lemma sm_inv_begin:
  assumes "sm_begin s s'" "sm_inv s"
  shows "sm_inv s'"
  using assms
proof cases
  case (rlock pc t f f' n)
  then have fin: "finite (active pc)" using assms(2) by (simp add: sm_inv_def)
  show ?thesis using rlock assms(2) finite_upd [OF fin]
    by (auto simp: sm_inv_def sm_sections num_upd [OF fin] split: if_splits)
next
  case (lock pc t f f' n)
  then have fin: "finite (active pc)" using assms(2) by (simp add: sm_inv_def)
  show ?thesis using lock assms(2) finite_upd [OF fin]
    by (auto simp: sm_inv_def sm_sections num_upd [OF fin] split: if_splits)
qed

text \<open>A broadcast moves all waiting readers.\<close>

definition wake_readers :: "nat \<Rightarrow> (nat \<Rightarrow> sm_pc) \<Rightarrow> nat \<Rightarrow> sm_pc" where
  "wake_readers t pc = (\<lambda>u. if u = t then Outside else if pc u = RWaiting then RWoken else pc u)"

lemma num_wake_readers:
  assumes fin: "finite (active pc)" and t: "pc t = Broadcasting"
  shows "num (wake_readers t pc) RWaiting = 0" "num (wake_readers t pc) RWoken = num pc RWoken + num pc RWaiting"
    "num (wake_readers t pc) Broadcasting = num pc Broadcasting - 1" "finite (active (wake_readers t pc))"
    "num (wake_readers t pc) Reading = num pc Reading" "num (wake_readers t pc) WWaiting = num pc WWaiting"
    "num (wake_readers t pc) WWoken = num pc WWoken" "num (wake_readers t pc) Writing = num pc Writing"
    "num (wake_readers t pc) Signalling = num pc Signalling"
proof -
  have "{u. wake_readers t pc u = RWoken} = {u. pc u = RWoken} \<union> {u. pc u = RWaiting}"
    "{u. wake_readers t pc u = Broadcasting} = {u. pc u = Broadcasting} - {t}" "{u. wake_readers t pc u = RWaiting} = {}"
    using t by (auto simp: wake_readers_def)
  moreover have "card ({u. pc u = RWoken} \<union> {u. pc u = RWaiting}) = card {u. pc u = RWoken} + card {u. pc u = RWaiting}"
    by (rule card_Un_disjoint) (use finite_at [OF fin] in auto)
  ultimately show "num (wake_readers t pc) RWaiting = 0" "num (wake_readers t pc) RWoken = num pc RWoken + num pc RWaiting"
    "num (wake_readers t pc) Broadcasting = num pc Broadcasting - 1"
    using finite_at [OF fin] t by (simp_all add: num_def)
  show "finite (active (wake_readers t pc))"
    by (rule finite_subset [OF _ fin]) (auto simp: active_def wake_readers_def split: if_splits)
  have "{u. wake_readers t pc u = p} = {u. pc u = p}" if "p \<in> {Reading, WWaiting, WWoken, Writing, Signalling}" for p
    using that t by (auto simp: wake_readers_def)
  then show "num (wake_readers t pc) Reading = num pc Reading" "num (wake_readers t pc) WWaiting = num pc WWaiting"
    "num (wake_readers t pc) WWoken = num pc WWoken" "num (wake_readers t pc) Writing = num pc Writing"
    "num (wake_readers t pc) Signalling = num pc Signalling" by (simp_all add: num_def)
qed

lemma sm_inv_continue:
  assumes step: "sm_continue s s'" and inv: "sm_inv s"
  shows "sm_inv s'"
proof -
  obtain f pc where s: "s = (f, pc)" by (cases s)
  have fin: "finite (active pc)" using inv by (simp add: s sm_inv_def)
  note one = num_ge_1 [OF fin]
  from step show ?thesis unfolding s
  proof cases
    case (rwoken t f' n)
    then show ?thesis using inv finite_upd [OF fin] one [OF rwoken(2)]
      by (auto simp: s sm_inv_def sm_sections num_upd [OF fin] split: if_splits)
  next
    case (wwoken t f' n)
    then show ?thesis using inv finite_upd [OF fin] one [OF wwoken(2)]
      by (auto simp: s sm_inv_def sm_sections num_upd [OF fin] split: if_splits)
  next
    case (runlock t f' n)
    then show ?thesis using inv finite_upd [OF fin] one [OF runlock(2)]
      by (auto simp: s sm_inv_def sm_sections num_upd [OF fin] Let_def split: if_splits)
  next
    case (unlock t f' n)
    then show ?thesis using inv finite_upd [OF fin] one [OF unlock(2)]
      by (auto simp: s sm_inv_def sm_sections num_upd [OF fin] Let_def split: if_splits)
  next
    case (signal_one t u)
    have "u \<noteq> t" using signal_one(2,3) by auto
    then show ?thesis using inv signal_one one [OF signal_one(2)] one [OF signal_one(3)] finite_upd [OF finite_upd [OF fin]]
      by (auto simp: s sm_inv_def num_upd [OF finite_upd [OF fin]] num_upd [OF fin] split: if_splits)
  next
    case (signal_none t)
    then have "num pc WWaiting = 0" by (simp add: num_def)
    then show ?thesis using signal_none inv finite_upd [OF fin] one [OF signal_none(2)]
      by (auto simp: s sm_inv_def num_upd [OF fin] split: if_splits)
  next
    case (broadcast t)
    then have "s' = (f, wake_readers t pc)" by (simp add: wake_readers_def)
    then show ?thesis using inv num_wake_readers [OF fin broadcast(2)] by (auto simp: s sm_inv_def split: if_splits)
  qed
qed

lemma sm_inv_reach: "sm_reach s \<Longrightarrow> sm_inv s"
proof (induction rule: sm_reach.induct)
  case start
  show ?case by (simp add: sm_inv_def sm_init_def NewStarvingMutex_def num_def active_def)
next
  case (more s s')
  then show ?case using sm_inv_begin sm_inv_continue by blast
qed

text \<open>The measure that every step of a begun call decreases: calls that do not hold the lock yet count twice, those that hold it
  once; then the signals on their way; then the woken goroutines.\<close>

definition sm_measure :: "sm_state \<Rightarrow> nat \<times> nat \<times> nat" where
  "sm_measure s = (case s of (f, pc) \<Rightarrow>
     (2 * (num pc RWaiting + num pc RWoken + num pc WWaiting + num pc WWoken) + num pc Reading + num pc Writing,
      num pc Signalling + num pc Broadcasting,
      num pc RWoken + num pc WWoken))"

definition sm_order :: "(sm_state \<times> sm_state) set" where
  "sm_order = inv_image (less_than <*lex*> less_than <*lex*> less_than) sm_measure"

lemma wf_sm_order: "wf sm_order"
  by (simp add: sm_order_def wf_lex_prod)

lemma sm_continue_decreases:
  assumes step: "sm_continue s s'" and inv: "sm_inv s"
  shows "(s', s) \<in> sm_order"
proof -
  obtain f pc where s: "s = (f, pc)" by (cases s)
  have fin: "finite (active pc)" using inv by (simp add: s sm_inv_def)
  note one = num_ge_1 [OF fin]
  from step have "(s', (f, pc)) \<in> sm_order" unfolding s
  proof cases
    case (rwoken t f' n)
    then show ?thesis using one [OF rwoken(2)]
      by (auto simp: sm_order_def sm_measure_def sm_sections num_upd [OF fin] split: if_splits)
  next
    case (wwoken t f' n)
    then show ?thesis using one [OF wwoken(2)]
      by (auto simp: sm_order_def sm_measure_def sm_sections num_upd [OF fin] split: if_splits)
  next
    case (runlock t f' n)
    then show ?thesis using one [OF runlock(2)]
      by (auto simp: sm_order_def sm_measure_def sm_sections num_upd [OF fin] Let_def split: if_splits)
  next
    case (unlock t f' n)
    then show ?thesis using one [OF unlock(2)]
      by (auto simp: sm_order_def sm_measure_def sm_sections num_upd [OF fin] Let_def split: if_splits)
  next
    case (signal_one t u)
    then show ?thesis using one [OF signal_one(2)] one [OF signal_one(3)]
      by (auto simp: sm_order_def sm_measure_def num_upd [OF finite_upd [OF fin]] num_upd [OF fin])
  next
    case (signal_none t)
    then show ?thesis using one [OF signal_none(2)]
      by (auto simp: sm_order_def sm_measure_def num_upd [OF fin])
  next
    case (broadcast t)
    then have "s' = (f, wake_readers t pc)" by (simp add: wake_readers_def)
    then show ?thesis using num_wake_readers [OF fin broadcast(2)] one [OF broadcast(2)] by (auto simp: sm_order_def sm_measure_def)
  qed
  then show ?thesis by (simp add: s)
qed

text \<open>If no begun call can go on, there is none.\<close>

lemma sm_stuck_idle:
  assumes inv: "sm_inv (f, pc)" and stuck: "\<And>s'. \<not> sm_continue (f, pc) s'"
  shows "pc t = Outside"
proof -
  have fin: "finite (active pc)" using inv by (simp add: sm_inv_def)
  note pos = num_pos [OF fin]
  have "\<forall>t. pc t \<noteq> RWoken" "\<forall>t. pc t \<noteq> WWoken" "\<forall>t. pc t \<noteq> Broadcasting"
    using sm_continue.rwoken sm_continue.wwoken sm_continue.broadcast stuck by (metis surj_pair)+
  moreover have "\<forall>t. pc t \<noteq> Signalling" using sm_continue.signal_one sm_continue.signal_none stuck by metis
  moreover have "\<forall>t. pc t \<noteq> Reading"
  proof (intro allI notI)
    fix t assume t: "pc t = Reading"
    then have "0 < num pc Reading" using pos [of Reading] by auto
    then have "\<exists>r. sm_RUnlock f = Some r" using inv by (auto simp: sm_inv_def sm_RUnlock_def Let_def)
    then show False using sm_continue.runlock [of pc t] t stuck by (metis surj_pair)
  qed
  moreover have "\<forall>t. pc t \<noteq> Writing"
  proof (intro allI notI)
    fix t assume t: "pc t = Writing"
    then have "0 < num pc Writing" using pos [of Writing] by auto
    then have "\<exists>r. sm_Unlock f = Some r" using inv by (auto simp: sm_inv_def sm_Unlock_def Let_def split: if_splits)
    then show False using sm_continue.unlock [of pc t] t stuck by (metis surj_pair)
  qed
  ultimately have zero: "num pc RWoken = 0" "num pc WWoken = 0" "num pc Broadcasting = 0" "num pc Signalling = 0" "num pc Reading = 0"
    "num pc Writing = 0" by (simp_all add: num_def)
  then have "num pc WWaiting = 0" "num pc RWaiting = 0" using inv by (auto simp: sm_inv_def)
  with zero show ?thesis using pos by (cases "pc t") (metis sm_pc.distinct less_irrefl)+
qed

section \<open>Properties\<close>

text \<open>C13: In every reachable state of any number of goroutines that use the mutex, a goroutine that writes is alone, the fields count
  the readers and the waiting writers, and no release panics.\<close>

theorem starving_mutex_excludes:
  assumes "sm_reach (f, pc)"
  shows "(pc t = Writing \<longrightarrow> (\<forall>u. pc u \<in> {Reading, Writing} \<longrightarrow> u = t)) \<and>
    readersActive f = int (card {u. pc u = Reading}) \<and> pendingWriters f = int (card {u. pc u = WWaiting \<or> pc u = WWoken}) \<and>
    (pc t = Reading \<longrightarrow> sm_RUnlock f \<noteq> None) \<and> (pc t = Writing \<longrightarrow> sm_Unlock f \<noteq> None)"
proof -
  note inv = sm_inv_reach [OF assms]
  then have fin: "finite (active pc)" by (simp add: sm_inv_def)
  note fins = finite_at [OF fin] and pos = num_ge_1 [OF fin]
  have "u = t" if t: "pc t = Writing" and u: "pc u \<in> {Reading, Writing}" for u
  proof -
    have "num pc Writing = 1" "num pc Reading = 0" using inv pos [OF t] by (auto simp: sm_inv_def split: if_splits)
    then have "card {v. pc v = Writing} = 1" "pc u \<noteq> Reading" using pos [of u Reading] by (auto simp: num_def)
    then obtain x where "{v. pc v = Writing} = {x}" "pc u = Writing" using u by (auto simp: card_1_singleton_iff)
    then show ?thesis using t by (metis mem_Collect_eq singletonD)
  qed
  moreover have "card {u. pc u = WWaiting \<or> pc u = WWoken} = num pc WWaiting + num pc WWoken"
    using card_Un_disjoint [OF fins fins, of WWaiting WWoken] by (simp add: num_def Collect_disj_eq disjoint_iff)
  moreover have "pc t = Reading \<longrightarrow> sm_RUnlock f \<noteq> None" "pc t = Writing \<longrightarrow> sm_Unlock f \<noteq> None"
    using inv pos [of t Reading] pos [of t Writing] by (auto simp: sm_inv_def sm_RUnlock_def sm_Unlock_def Let_def split: if_splits)
  ultimately show ?thesis using inv by (auto simp: sm_inv_def num_def)
qed

theorem starving_mutex_excludes_witness:
  "readersActive \<lparr>readersActive = 1, writerActive = False, pendingWriters = 0\<rparr> = int (card {u :: nat. ((\<lambda>_. Outside)(3 := Reading)) u = Reading})"
proof -
  have "sm_reach (\<lparr>readersActive = 1, writerActive = False, pendingWriters = 0\<rparr>, (\<lambda>_. Outside)(3 := Reading))"
    using sm_reach.more [OF sm_reach.start, of "(\<lparr>readersActive = 1, writerActive = False, pendingWriters = 0\<rparr>, (\<lambda>_. Outside)(3 := Reading))"]
      sm_begin.rlock [of "\<lambda>_. Outside" 3 NewStarvingMutex "\<lparr>readersActive = 1, writerActive = False, pendingWriters = 0\<rparr>" Proceed]
    by (simp add: sm_init_def sm_RLock_def NewStarvingMutex_def after_def)
  from starving_mutex_excludes [OF this, of 3] show ?thesis by blast
qed

text \<open>C5: No wake-up is lost: from every reachable state, if no further calls begin and every holder releases the lock in the end,
  every call that has begun gets the lock and returns. Every run of the goroutines ends, however they are scheduled, and it can
  only end when none of them is left waiting.\<close>

theorem starving_mutex_serves_all:
  assumes "sm_reach s"
  shows "(\<nexists>run. run 0 = s \<and> (\<forall>i. sm_continue (run i) (run (Suc i)))) \<and>
    (\<forall>f pc. sm_continue\<^sup>*\<^sup>* s (f, pc) \<and> (\<nexists>s'. sm_continue (f, pc) s') \<longrightarrow> (\<forall>t. pc t = Outside))"
proof (intro conjI allI impI notI)
  have keeps: "sm_inv s'" if "sm_continue\<^sup>*\<^sup>* s s'" for s'
    using that sm_inv_reach [OF assms] by (induction rule: rtranclp_induct) (blast intro: sm_inv_continue)+
  {
    assume "\<exists>run. run 0 = s \<and> (\<forall>i. sm_continue (run i) (run (Suc i)))"
    then obtain run where run: "run 0 = s" "\<And>i. sm_continue (run i) (run (Suc i))" by blast
    have "sm_continue\<^sup>*\<^sup>* s (run i)" for i by (induction i) (use run in \<open>auto intro: rtranclp.rtrancl_into_rtrancl\<close>)
    then have "(run (Suc i), run i) \<in> sm_order" for i using sm_continue_decreases [OF run(2) keeps] by blast
    then show False using wf_sm_order wf_iff_no_infinite_down_chain by blast
  }
  fix f pc t assume "sm_continue\<^sup>*\<^sup>* s (f, pc) \<and> (\<nexists>s'. sm_continue (f, pc) s')"
  then show "pc t = Outside" using sm_stuck_idle [OF keeps, of f pc t] by blast
qed

text \<open>A reader holds the lock and a writer waits for it.\<close>

theorem starving_mutex_serves_all_witness:
  "\<exists>s. sm_reach s \<and> snd s 1 = Reading \<and> snd s 2 = WWaiting \<and> (\<nexists>run. run 0 = s \<and> (\<forall>i. sm_continue (run i) (run (Suc i))))"
proof -
  let ?f1 = "\<lparr>readersActive = 1, writerActive = False, pendingWriters = 0\<rparr>"
  let ?s2 = "(\<lparr>readersActive = 1, writerActive = False, pendingWriters = 1\<rparr>, (\<lambda>_. Outside)(1 := Reading, 2 := WWaiting))"
  have "sm_reach (?f1, (\<lambda>_. Outside)(1 := Reading))"
    using sm_reach.more [OF sm_reach.start] sm_begin.rlock [of "\<lambda>_. Outside" 1 NewStarvingMutex ?f1 Proceed]
    by (simp add: sm_init_def sm_RLock_def NewStarvingMutex_def after_def)
  then have "sm_reach ?s2"
    using sm_reach.more sm_begin.lock [of "(\<lambda>_. Outside)(1 := Reading)" 2 ?f1 "fst ?s2" WaitWriter]
    by (simp add: sm_Lock_def sm_Lock_loop_def canWrite_def after_def)
  with starving_mutex_serves_all [OF this] show ?thesis by (intro exI [of _ ?s2]) simp
qed

text \<open>Releasing a mutex that nobody holds for writing is accepted.\<close>

theorem unlock_of_unlocked_accepted: "sm_Unlock NewStarvingMutex = Some (NewStarvingMutex, BroadcastReaders)"
  by (simp add: sm_Unlock_def NewStarvingMutex_def)

end
