(* ===== verification/Wait_Monitor.thy ===== *)
theory Wait_Monitor
  imports Hive_Prelude "HOL-Library.AList"
begin

text \<open>
  \<^verbatim>\<open>runtime/syncutils/counter.go\<close> and \<^verbatim>\<open>runtime/syncutils/stack.go\<close>: a value under a mutex, with methods that wait on a condition variable until the
  value allows them to go on. The locale \<open>wait_monitor\<close> states what such a type has to observe so that no wake-up is lost.
\<close>

section \<open>Definitions\<close>

subsection \<open>A value under a mutex with condition variables\<close>

text \<open>A goroutine is outside, waits on the condition variable of its wait, was woken and will look again, or has released the
  mutex and will broadcast on some condition variables.\<close>

datatype ('w, 'c) mon_pc = MOutside | MWaiting 'w | MWoken 'w | MBroadcasting "'c set"

type_synonym ('v, 'w, 'c) mon_state = "'v \<times> (nat \<Rightarrow> ('w, 'c) mon_pc)"

text \<open>One look of a wait at the value, under the mutex: it waits on, or takes what it waited for.\<close>

definition mon_look :: "('w \<Rightarrow> 'v \<Rightarrow> bool) \<Rightarrow> ('w \<Rightarrow> 'v \<Rightarrow> 'v \<times> 'c set) \<Rightarrow> 'w \<Rightarrow> 'v \<Rightarrow> 'v \<times> ('w, 'c) mon_pc" where
  "mon_look blocks finish w v = (if blocks w v then (v, MWaiting w) else map_prod id MBroadcasting (finish w v))"

definition mon_wake :: "('w \<Rightarrow> 'c) \<Rightarrow> 'c set \<Rightarrow> ('w, 'c) mon_pc \<Rightarrow> ('w, 'c) mon_pc" where
  "mon_wake cond C p = (case p of MWaiting w \<Rightarrow> if cond w \<in> C then MWoken w else p | _ \<Rightarrow> p)"

inductive mon_step :: "('w \<Rightarrow> 'v \<Rightarrow> bool) \<Rightarrow> ('w \<Rightarrow> 'c) \<Rightarrow> ('u \<Rightarrow> 'v \<Rightarrow> 'v \<times> 'c set) \<Rightarrow> ('w \<Rightarrow> 'v \<Rightarrow> 'v \<times> 'c set)
    \<Rightarrow> ('v, 'w, 'c) mon_state \<Rightarrow> ('v, 'w, 'c) mon_state \<Rightarrow> bool"
  for blocks cond update finish where
  change: "pc t = MOutside \<Longrightarrow> update u v = (v', C) \<Longrightarrow> mon_step blocks cond update finish (v, pc) (v', pc(t := MBroadcasting C))"
| enter: "pc t = MOutside \<Longrightarrow> mon_look blocks finish w v = (v', p) \<Longrightarrow> mon_step blocks cond update finish (v, pc) (v', pc(t := p))"
| again: "pc t = MWoken w \<Longrightarrow> mon_look blocks finish w v = (v', p) \<Longrightarrow> mon_step blocks cond update finish (v, pc) (v', pc(t := p))"
| notify: "pc t = MBroadcasting C \<Longrightarrow>
    mon_step blocks cond update finish (v, pc) (v, \<lambda>s. if s = t then MOutside else mon_wake cond C (pc s))"

text \<open>A goroutine waits only while its reason holds, or until a broadcast that is on its way.\<close>

definition mon_no_lost :: "('w \<Rightarrow> 'v \<Rightarrow> bool) \<Rightarrow> ('w \<Rightarrow> 'c) \<Rightarrow> ('v, 'w, 'c) mon_state \<Rightarrow> bool" where
  "mon_no_lost blocks cond s \<longleftrightarrow>
     (\<forall>t w. snd s t = MWaiting w \<longrightarrow> blocks w (fst s) \<or> (\<exists>u C. snd s u = MBroadcasting C \<and> cond w \<in> C))"

section \<open>The contract\<close>

text \<open>Whatever ends the reason of a wait broadcasts on its condition variable.\<close>

locale wait_monitor =
  fixes blocks :: "'w \<Rightarrow> 'v \<Rightarrow> bool" and cond :: "'w \<Rightarrow> 'c"
    and update :: "'u \<Rightarrow> 'v \<Rightarrow> 'v \<times> 'c set" and finish :: "'w \<Rightarrow> 'v \<Rightarrow> 'v \<times> 'c set"
  assumes update_law: "blocks w v \<Longrightarrow> update u v = (v', C) \<Longrightarrow> \<not> blocks w v' \<Longrightarrow> cond w \<in> C"
    and finish_law: "blocks w v \<Longrightarrow> \<not> blocks w' v \<Longrightarrow> finish w' v = (v', C) \<Longrightarrow> \<not> blocks w v' \<Longrightarrow> cond w \<in> C"
begin

lemma look_law:
  assumes "mon_look blocks finish w' v = (v', p)" "blocks w v" "\<not> blocks w v'"
  shows "\<exists>C. p = MBroadcasting C \<and> cond w \<in> C"
proof (cases "blocks w' v")
  case True
  then show ?thesis using assms by (simp add: mon_look_def)
next
  case False
  obtain v2 C where fin: "finish w' v = (v2, C)" by (cases "finish w' v")
  then have "v2 = v'" "p = MBroadcasting C" using False assms(1) by (simp_all add: mon_look_def)
  then show ?thesis using finish_law [OF assms(2) False, of v' C] fin assms(3) by simp
qed

lemma look_waits: "mon_look blocks finish w' v = (v', MWaiting w) \<Longrightarrow> blocks w v'"
  by (cases "finish w' v") (auto simp: mon_look_def split: if_splits)

lemma no_lost_moved:
  assumes inv: "mon_no_lost blocks cond (v, pc)" and old: "\<And>C. pc t \<noteq> MBroadcasting C"
    and fresh: "\<And>w. p = MWaiting w \<Longrightarrow> blocks w v'"
    and ends: "\<And>w. blocks w v \<Longrightarrow> \<not> blocks w v' \<Longrightarrow> \<exists>C. p = MBroadcasting C \<and> cond w \<in> C"
  shows "mon_no_lost blocks cond (v', pc(t := p))"
  unfolding mon_no_lost_def
proof (intro allI impI)
  fix s w assume s: "snd (v', pc(t := p)) s = MWaiting w"
  show "blocks w (fst (v', pc(t := p))) \<or> (\<exists>u C. snd (v', pc(t := p)) u = MBroadcasting C \<and> cond w \<in> C)"
  proof (cases "s = t")
    case True
    then show ?thesis using s fresh by simp
  next
    case False
    then have "blocks w v \<or> (\<exists>u C. pc u = MBroadcasting C \<and> cond w \<in> C)" using s inv by (auto simp: mon_no_lost_def)
    then show ?thesis using ends [of w] old by (metis fst_conv fun_upd_apply snd_conv)
  qed
qed

lemma no_lost_step:
  assumes "mon_step blocks cond update finish s s'" "mon_no_lost blocks cond s"
  shows "mon_no_lost blocks cond s'"
  using assms
proof cases
  case (change pc t u v v' C)
  then show ?thesis using assms(2) update_law by (auto intro!: no_lost_moved [of v pc])
next
  case (enter pc t w v v' p)
  then show ?thesis using assms(2) look_law [OF enter(4)] look_waits enter
    by (auto intro!: no_lost_moved [of v pc])
next
  case (again pc t w v v' p)
  then show ?thesis using assms(2) look_law [OF again(4)] look_waits again
    by (auto intro!: no_lost_moved [of v pc])
next
  case (notify pc t C v)
  show ?thesis unfolding mon_no_lost_def
  proof (intro allI impI)
    fix s w assume s: "snd s' s = MWaiting w"
    then have w: "pc s = MWaiting w" "cond w \<notin> C" "s \<noteq> t"
      by (auto simp: notify mon_wake_def split: if_splits mon_pc.splits)
    then have "blocks w v \<or> (\<exists>u D. pc u = MBroadcasting D \<and> cond w \<in> D)" using assms(2) notify by (auto simp: mon_no_lost_def)
    then show "blocks w (fst s') \<or> (\<exists>u C. snd s' u = MBroadcasting C \<and> cond w \<in> C)"
    proof (elim disjE exE conjE)
      fix u D assume u: "pc u = MBroadcasting D" "cond w \<in> D"
      then have "u \<noteq> t" using w notify by auto
      then have "snd s' u = MBroadcasting D" using u by (simp add: notify mon_wake_def)
      then show ?thesis using u by blast
    qed (simp add: notify)
  qed
qed

lemma no_lost_wakeup:
  assumes "(mon_step blocks cond update finish)\<^sup>*\<^sup>* (v0, \<lambda>_. MOutside) (v, pc)" "pc t = MWaiting w"
  shows "blocks w v \<or> (\<exists>u C. pc u = MBroadcasting C \<and> cond w \<in> C)"
proof -
  have "mon_no_lost blocks cond s'" if "(mon_step blocks cond update finish)\<^sup>*\<^sup>* (v0, \<lambda>_. MOutside) s'" for s'
    using that by (induction rule: rtranclp_induct) (simp add: mon_no_lost_def, blast intro: no_lost_step)
  from this [OF assms(1)] show ?thesis using assms(2) by (auto simp: mon_no_lost_def)
qed

end

section \<open>Counters\<close>

subsection \<open>Definitions\<close>

text \<open>The value and the subscribers. A subscriber is a list of callbacks; a call shows a callback the old and the new value, and
  the log records the calls. The ordered map of the subscribers is a list of identifiers and callbacks in its order.\<close>

record Counter =
  ct_value :: int
  ct_subscribers :: "(u64 \<times> nat list) list"
  ct_subscribersCounter :: u64
  ct_log :: "(nat \<times> int \<times> int) list"

definition NewCounter :: Counter where
  "NewCounter = \<lparr>ct_value = 0, ct_subscribers = [], ct_subscribersCounter = 0, ct_log = []\<rparr>"

definition notifySubscribers :: "int \<Rightarrow> int \<Rightarrow> Counter \<Rightarrow> Counter" where
  "notifySubscribers oldValue newValue c =
     c\<lparr>ct_log := ct_log c @ concat (map (\<lambda>(_, cbs). map (\<lambda>cb. (cb, oldValue, newValue)) cbs) (ct_subscribers c))\<rparr>"

definition Counter_set :: "int \<Rightarrow> Counter \<Rightarrow> Counter \<times> int" where
  "Counter_set newValue c =
     (let oldValue = ct_value c in
      (if newValue \<noteq> oldValue then notifySubscribers oldValue newValue (c\<lparr>ct_value := newValue\<rparr>) else c, oldValue))"

definition Counter_update :: "int \<Rightarrow> Counter \<Rightarrow> Counter \<times> int" where
  "Counter_update delta c =
     (let oldValue = ct_value c; newValue = oldValue + delta in
      (if newValue \<noteq> oldValue then notifySubscribers oldValue newValue (c\<lparr>ct_value := newValue\<rparr>) else c, newValue))"

datatype ct_cond = valueIncreasedCond | valueDecreasedCond

datatype ct_change = CSet int | CUpdate int | CSubscribe "nat list" | CUnsubscribe u64

datatype ct_wait = WaitIsBelow int | WaitIsAbove int

text \<open>The section of a method under the mutex and what it broadcasts afterwards. \<^verbatim>\<open>Increase\<close> and \<^verbatim>\<open>Decrease\<close> update by one, \<^verbatim>\<open>WaitIsZero\<close> waits
  for a value below one.\<close>

fun Counter_change :: "ct_change \<Rightarrow> Counter \<Rightarrow> Counter \<times> ct_cond set" where
  "Counter_change (CSet newValue) c =
     (let (c, oldValue) = Counter_set newValue c in
      (c, if oldValue < newValue then {valueIncreasedCond} else if oldValue > newValue then {valueDecreasedCond} else {}))"
| "Counter_change (CUpdate delta) c =
     (let (c, newValue) = Counter_update delta c in
      (c, if delta \<ge> 1 then {valueIncreasedCond} else if delta \<le> - 1 then {valueDecreasedCond} else {}))"
| "Counter_change (CSubscribe callbacks) c =
     (if callbacks = [] then (c, {})
      else (c\<lparr>ct_subscribersCounter := ct_subscribersCounter c + 1,
             ct_subscribers := AList.update (ct_subscribersCounter c + 1) callbacks (ct_subscribers c)\<rparr>, {}))"
| "Counter_change (CUnsubscribe subscriptionID) c = (c\<lparr>ct_subscribers := AList.delete subscriptionID (ct_subscribers c)\<rparr>, {})"

fun Counter_blocks :: "ct_wait \<Rightarrow> Counter \<Rightarrow> bool" where
  "Counter_blocks (WaitIsBelow threshold) c \<longleftrightarrow> ct_value c \<ge> threshold"
| "Counter_blocks (WaitIsAbove threshold) c \<longleftrightarrow> ct_value c \<le> threshold"

fun Counter_cond :: "ct_wait \<Rightarrow> ct_cond" where
  "Counter_cond (WaitIsBelow threshold) = valueDecreasedCond"
| "Counter_cond (WaitIsAbove threshold) = valueIncreasedCond"


text \<open>Waiting changes nothing and broadcasts nothing.\<close>

definition wait_only :: "'w \<Rightarrow> 'v \<Rightarrow> 'v \<times> 'c set" where
  "wait_only w v = (v, {})"

text \<open>The values that a callback was shown, and a chain of changes from one value to another.\<close>

definition shown_to :: "nat \<Rightarrow> (nat \<times> int \<times> int) list \<Rightarrow> (int \<times> int) list" where
  "shown_to cb log = map snd (filter (\<lambda>(cb', _). cb' = cb) log)"

fun change_chain :: "int \<Rightarrow> (int \<times> int) list \<Rightarrow> int \<Rightarrow> bool" where
  "change_chain v [] v' \<longleftrightarrow> v = v'"
| "change_chain v ((old, new) # ch) v' \<longleftrightarrow> v = old \<and> old \<noteq> new \<and> change_chain new ch v'"

definition Counter_run :: "ct_change list \<Rightarrow> Counter \<Rightarrow> Counter" where
  "Counter_run ops c = fold (\<lambda>op c. fst (Counter_change op c)) ops c"

subsection \<open>Lemmas\<close>

interpretation counter: wait_monitor Counter_blocks Counter_cond Counter_change wait_only
proof
  fix w v u v' C
  assume "Counter_blocks w v" "Counter_change u v = (v', C)" "\<not> Counter_blocks w v'"
  then show "Counter_cond w \<in> C"
    by (cases u; cases w) (auto simp: Counter_set_def Counter_update_def notifySubscribers_def Let_def split: if_splits)
qed (simp add: wait_only_def)

lemma change_chain_snoc: "change_chain v ch u \<Longrightarrow> u \<noteq> v' \<Longrightarrow> change_chain v (ch @ [(u, v')]) v'"
  by (induction v ch u rule: change_chain.induct) auto

text \<open>A callback is subscribed once if it stands once in the lists of the subscribers.\<close>

definition subscribed_once :: "nat \<Rightarrow> Counter \<Rightarrow> bool" where
  "subscribed_once cb c \<longleftrightarrow> length (filter (\<lambda>x. x = cb) (concat (map snd (ct_subscribers c)))) = 1"

lemma shown_notify:
  "shown_to cb (ct_log (notifySubscribers old new c)) =
     shown_to cb (ct_log c) @ replicate (length (filter (\<lambda>x. x = cb) (concat (map snd (ct_subscribers c))))) (old, new)"
proof -
  have "shown_to cb (concat (map (\<lambda>(_, cbs). map (\<lambda>cb. (cb, old, new)) cbs) subs)) =
      replicate (length (filter (\<lambda>x. x = cb) (concat (map snd subs)))) (old, new)" for subs :: "(u64 \<times> nat list) list"
  proof (induction subs)
    case (Cons s subs)
    have one: "shown_to cb (map (\<lambda>cb. (cb, old, new)) cbs) = replicate (length (filter (\<lambda>x. x = cb) cbs)) (old, new)" for cbs
      by (induction cbs) (auto simp: shown_to_def)
    show ?case using Cons one by (cases s) (simp add: shown_to_def replicate_add)
  qed (simp add: shown_to_def)
  then show ?thesis by (simp add: notifySubscribers_def shown_to_def)
qed

lemma notify_fields [simp]: "ct_value (notifySubscribers old new c) = ct_value c"
  "ct_subscribers (notifySubscribers old new c) = ct_subscribers c"
  by (simp_all add: notifySubscribers_def)

lemma Counter_change_shown:
  assumes "op \<in> range CSet \<union> range CUpdate" and once: "subscribed_once cb c"
  defines "c' \<equiv> fst (Counter_change op c)"
  shows "subscribed_once cb c'"
    and "shown_to cb (ct_log c') = shown_to cb (ct_log c) @ (if ct_value c = ct_value c' then [] else [(ct_value c, ct_value c')])"
  using assms(1) once by (auto simp: c'_def Counter_set_def Counter_update_def subscribed_once_def Let_def shown_notify split: if_splits)

section \<open>Waiting stacks\<close>

subsection \<open>Definitions\<close>

text \<open>The elements of the \<^verbatim>\<open>container/list\<close>, in order.\<close>

datatype st_cond = elementAdded | elementRemoved

datatype 'a st_change = SPush 'a | SPop

datatype st_wait = WPopOrWait | WSizeBelow int | WSizeAbove int

definition Stack_Push :: "'a \<Rightarrow> 'a list \<Rightarrow> 'a list" where
  "Stack_Push task b = b @ [task]"

definition Stack_Pop :: "'a list \<Rightarrow> 'a list \<times> 'a option" where
  "Stack_Pop b = (case b of [] \<Rightarrow> ([], None) | x # b \<Rightarrow> (b, Some x))"

definition Stack_Size :: "'a list \<Rightarrow> int" where
  "Stack_Size b = int (length b)"

fun Stack_change :: "'a st_change \<Rightarrow> 'a list \<Rightarrow> 'a list \<times> st_cond set" where
  "Stack_change (SPush task) b = (Stack_Push task b, {elementAdded})"
| "Stack_change SPop b = (let (b, element) = Stack_Pop b in (b, if element \<noteq> None then {elementRemoved} else {}))"

text \<open>\<^verbatim>\<open>PopOrWait\<close> with a wait condition that stays true; \<^verbatim>\<open>WaitIsEmpty\<close> waits for a size below one.\<close>

fun Stack_blocks :: "st_wait \<Rightarrow> 'a list \<Rightarrow> bool" where
  "Stack_blocks WPopOrWait b \<longleftrightarrow> Stack_Size b = 0"
| "Stack_blocks (WSizeBelow threshold) b \<longleftrightarrow> Stack_Size b \<ge> threshold"
| "Stack_blocks (WSizeAbove threshold) b \<longleftrightarrow> Stack_Size b \<le> threshold"

fun Stack_cond :: "st_wait \<Rightarrow> st_cond" where
  "Stack_cond WPopOrWait = elementAdded"
| "Stack_cond (WSizeBelow threshold) = elementRemoved"
| "Stack_cond (WSizeAbove threshold) = elementAdded"

fun Stack_finish :: "st_wait \<Rightarrow> 'a list \<Rightarrow> 'a list \<times> st_cond set" where
  "Stack_finish WPopOrWait b = (fst (Stack_Pop b), {elementRemoved})"
| "Stack_finish (WSizeBelow threshold) b = (b, {})"
| "Stack_finish (WSizeAbove threshold) b = (b, {})"

subsection \<open>Lemmas\<close>

interpretation waiting_stack: wait_monitor Stack_blocks Stack_cond Stack_change Stack_finish
proof
  fix w u and v v' :: "'a list" and C
  assume "Stack_blocks w v" "Stack_change u v = (v', C)" "\<not> Stack_blocks w v'"
  then show "Stack_cond w \<in> C"
    by (cases u; cases w; cases v) (auto simp: Stack_Push_def Stack_Pop_def Stack_Size_def)
next
  fix w w' and v v' :: "'a list" and C
  assume "Stack_blocks w v" "\<not> Stack_blocks w' v" "Stack_finish w' v = (v', C)" "\<not> Stack_blocks w v'"
  then show "Stack_cond w \<in> C"
    by (cases w; cases w'; cases v) (auto simp: Stack_Pop_def Stack_Size_def)
qed

section \<open>Properties\<close>



text \<open>C38: A callback that is subscribed once sees every change of the value exactly once and in order: what it is shown are the
  steps of one chain from the value before to the value after, whatever sequence of sets and updates is made.\<close>

theorem subscribers_see_every_change:
  assumes "set ops \<subseteq> range CSet \<union> range CUpdate" and "subscribed_once cb c"
  shows "\<exists>ch. shown_to cb (ct_log (Counter_run ops c)) = shown_to cb (ct_log c) @ ch \<and>
    change_chain (ct_value c) ch (ct_value (Counter_run ops c))"
  using assms
proof (induction ops rule: rev_induct)
  case (snoc op ops)
  let ?c = "Counter_run ops c" and ?c' = "Counter_run (ops @ [op]) c"
  have c': "?c' = fst (Counter_change op ?c)" by (simp add: Counter_run_def)
  have "subscribed_once cb ?c" using snoc.prems
  proof (induction ops rule: rev_induct)
    case (snoc op' ops')
    then show ?case using Counter_change_shown(1) [of op' cb "Counter_run ops' c"] by (simp add: Counter_run_def)
  qed (simp add: Counter_run_def)
  then have "shown_to cb (ct_log ?c') = shown_to cb (ct_log ?c) @ (if ct_value ?c = ct_value ?c' then [] else [(ct_value ?c, ct_value ?c')])"
    unfolding c' using snoc.prems by (intro Counter_change_shown(2)) auto
  with snoc show ?case using change_chain_snoc by (fastforce split: if_splits)
qed (simp add: Counter_run_def)

theorem subscribers_see_every_change_witness:
  "\<exists>ch. shown_to 7 (ct_log (Counter_run [CUpdate 2, CSet 2, CSet (- 1)] (fst (Counter_change (CSubscribe [7]) NewCounter)))) = ch \<and>
    change_chain 0 ch (- 1)"
  using subscribers_see_every_change [of "[CUpdate 2, CSet 2, CSet (- 1)]" 7 "fst (Counter_change (CSubscribe [7]) NewCounter)"]
  by (simp add: subscribed_once_def NewCounter_def shown_to_def Counter_run_def Counter_update_def Counter_set_def notifySubscribers_def)

text \<open>The same for the stack that the worker pools use as their queue, for goroutines that wait for an element, for room or
  for a number of elements: no wake-up is lost.\<close>

theorem stack_wakes_waiters:
  assumes "(mon_step Stack_blocks Stack_cond Stack_change Stack_finish)\<^sup>*\<^sup>* (b0, \<lambda>_. MOutside) (b, pc)" and "pc t = MWaiting w"
  shows "Stack_blocks w b \<or> (\<exists>u C. pc u = MBroadcasting C \<and> Stack_cond w \<in> C)"
  by (rule waiting_stack.no_lost_wakeup [OF assms])

theorem stack_wakes_waiters_witness:
  "Stack_blocks WPopOrWait ([] :: nat list) \<or>
    (\<exists>(u :: nat) C. ((\<lambda>_. MOutside)(1 := MWaiting WPopOrWait)) u = MBroadcasting C \<and> Stack_cond WPopOrWait \<in> C)"
proof -
  have "mon_step Stack_blocks Stack_cond Stack_change Stack_finish ([] :: nat list, \<lambda>_. MOutside) ([], (\<lambda>_. MOutside)(1 := MWaiting WPopOrWait))"
    by (rule mon_step.enter [where w = WPopOrWait]) (simp_all add: mon_look_def Stack_Size_def)
  then have "(mon_step Stack_blocks Stack_cond Stack_change Stack_finish)\<^sup>*\<^sup>* ([] :: nat list, \<lambda>_. MOutside) ([], (\<lambda>_. MOutside)(1 := MWaiting WPopOrWait))" ..
  from stack_wakes_waiters [OF this, of 1 WPopOrWait] show ?thesis by simp
qed

end
