(* ===== verification/Worker_Pool.thy ===== *)
theory Worker_Pool
  imports Hive_Prelude "HOL-Library.Multiset"
begin

text \<open>
  \<^verbatim>\<open>runtime/workerpool/workerpool.go\<close> and \<^verbatim>\<open>runtime/workerpool/task.go\<close>: the dispatcher, the workers, the callers of \<^verbatim>\<open>Submit\<close> and a shutdown of one pool, as
  steps of a shared state.
\<close>

section \<open>Definitions\<close>

subsection \<open>The state of a running pool\<close>

text \<open>Where the goroutines are. The dispatcher: at the check whether the pool runs, at the check of the queue size, in
  \<^verbatim>\<open>PopOrWait\<close> about to take the mutex of the queue, holding that mutex after the wait condition was true, waiting for an element,
  sending a task to the workers, waiting for the pending tasks, or finished.\<close>

datatype 't dispatcher_pc = DRunning | DSize | DPop | DChecked | DWait | DSend 't | DZero | DEnd

text \<open>A worker: in its read loop, executing a task there, in \<^verbatim>\<open>handleShutdown\<close>, executing a task there, or finished.\<close>

datatype 't worker_pc = WRead | WExec 't | WDrain | WDrainExec 't | WEnd

text \<open>A call of \<^verbatim>\<open>Submit\<close>: not begun, after the check, after the counter was increased, after the push and before the broadcast.\<close>

datatype 't submit_pc = SIdle | SAccepted 't | SCounted 't | SPushed

text \<open>\<open>wp_locked\<close> holds while \<^verbatim>\<open>Shutdown\<close> has the writer lock of the pool; \<open>wp_counted\<close> and \<open>wp_done\<close> record the tasks that were
  counted as pending and those that were executed or cancelled.\<close>

record 't wp =
  wp_isRunning :: bool
  wp_locked :: bool
  wp_queue :: "'t list"
  wp_dispatcherChan :: "'t list"
  wp_chanClosed :: bool
  wp_pending :: int
  wp_shutdownSignal :: nat
  wp_cancel :: bool
  wp_dispatcher :: "'t dispatcher_pc"
  wp_workers :: "'t worker_pc list"
  wp_submits :: "'t submit_pc list"
  wp_counted :: "'t list"
  wp_done :: "'t list"

text \<open>A pool of \<open>n\<close> workers right after \<^verbatim>\<open>Start\<close>, with \<open>m\<close> goroutines that may submit.\<close>

definition wp_Start :: "nat \<Rightarrow> nat \<Rightarrow> bool \<Rightarrow> 't wp" where
  "wp_Start n m cancel =
     \<lparr>wp_isRunning = True, wp_locked = False, wp_queue = [], wp_dispatcherChan = [], wp_chanClosed = False, wp_pending = 0,
      wp_shutdownSignal = 0, wp_cancel = cancel, wp_dispatcher = DRunning, wp_workers = replicate n WRead, wp_submits = replicate m SIdle,
      wp_counted = [], wp_done = []\<rparr>"

subsection \<open>The goroutines\<close>

text \<open>\<^verbatim>\<open>IsRunning\<close> waits for the reader lock: \<^term>\<open>None\<close> while \<^verbatim>\<open>Shutdown\<close> holds it.\<close>

definition wp_IsRunning :: "'t wp \<Rightarrow> bool option" where
  "wp_IsRunning w = (if wp_locked w then None else Some (wp_isRunning w))"

text \<open>One step of the dispatcher; \<^term>\<open>None\<close> if it cannot move. The mutex of the queue is free in \<open>DPop\<close>: only the dispatcher in
  \<open>DChecked\<close> holds it between two steps.\<close>

definition wp_dispatch :: "'t wp \<Rightarrow> 't wp option" where
  "wp_dispatch w =
     (case wp_dispatcher w of
        DRunning \<Rightarrow> map_option (\<lambda>r. w\<lparr>wp_dispatcher := if r then DPop else DSize\<rparr>) (wp_IsRunning w)
      | DSize \<Rightarrow> Some (w\<lparr>wp_dispatcher := if wp_queue w \<noteq> [] then DPop else DZero\<rparr>)
      | DPop \<Rightarrow>
          (case wp_queue w of
             task # q \<Rightarrow> Some (w\<lparr>wp_queue := q, wp_dispatcher := DSend task\<rparr>)
           | [] \<Rightarrow> map_option (\<lambda>r. w\<lparr>wp_dispatcher := if r then DChecked else DRunning\<rparr>) (wp_IsRunning w))
      | DChecked \<Rightarrow> Some (w\<lparr>wp_dispatcher := DWait\<rparr>)
      | DWait \<Rightarrow> None
      | DSend task \<Rightarrow>
          if length (wp_dispatcherChan w) < length (wp_workers w)
          then Some (w\<lparr>wp_dispatcherChan := wp_dispatcherChan w @ [task], wp_dispatcher := DRunning\<rparr>) else None
      | DZero \<Rightarrow> if wp_pending w < 1 then Some (w\<lparr>wp_chanClosed := True, wp_dispatcher := DEnd\<rparr>) else None
      | DEnd \<Rightarrow> None)"

definition wp_broadcast :: "'t wp \<Rightarrow> 't wp" where
  "wp_broadcast w = (if wp_dispatcher w = DWait then w\<lparr>wp_dispatcher := DPop\<rparr> else w)"

text \<open>\<^verbatim>\<open>markDone\<close> of a task.\<close>

definition wp_markDone :: "'t \<Rightarrow> 't wp \<Rightarrow> 't wp" where
  "wp_markDone task w = w\<lparr>wp_pending := wp_pending w - 1, wp_done := wp_done w @ [task]\<rparr>"

definition wp_at :: "nat \<Rightarrow> 't worker_pc \<Rightarrow> 't wp \<Rightarrow> 't wp" where
  "wp_at i p w = w\<lparr>wp_workers := (wp_workers w)[i := p]\<rparr>"

text \<open>The steps that worker \<open>i\<close> can make. The inner \<^verbatim>\<open>select\<close> of the read loop may pick either of its channels.\<close>

definition wp_work :: "nat \<Rightarrow> 't wp \<Rightarrow> 't wp list" where
  "wp_work i w =
     (case wp_workers w ! i of
        WRead \<Rightarrow>
          (if wp_shutdownSignal w > 0 then [wp_at i WDrain (w\<lparr>wp_shutdownSignal := wp_shutdownSignal w - 1\<rparr>)] else []) @
          (case wp_dispatcherChan w of
             task # c \<Rightarrow> [wp_at i (WExec task) (w\<lparr>wp_dispatcherChan := c\<rparr>)]
           | [] \<Rightarrow> if wp_chanClosed w then [wp_at i WDrain w] else [])
      | WExec task \<Rightarrow> [wp_at i WRead (wp_markDone task w)]
      | WDrain \<Rightarrow>
          (case wp_dispatcherChan w of
             task # c \<Rightarrow>
               if wp_cancel w then [wp_markDone task (w\<lparr>wp_dispatcherChan := c\<rparr>)]
               else [wp_at i (WDrainExec task) (w\<lparr>wp_dispatcherChan := c\<rparr>)]
           | [] \<Rightarrow> if wp_chanClosed w then [wp_at i WEnd w] else [])
      | WDrainExec task \<Rightarrow> [wp_at i WDrain (wp_markDone task w)]
      | WEnd \<Rightarrow> [])"

definition wp_submit_at :: "nat \<Rightarrow> 't submit_pc \<Rightarrow> 't wp \<Rightarrow> 't wp" where
  "wp_submit_at j p w = w\<lparr>wp_submits := (wp_submits w)[j := p]\<rparr>"

text \<open>A call of \<^verbatim>\<open>Submit\<close> begins; on a pool that does not run it returns at once. (The option to panic instead is off.)\<close>

definition wp_Submit :: "nat \<Rightarrow> 't \<Rightarrow> 't wp \<Rightarrow> 't wp option" where
  "wp_Submit j task w =
     (if wp_submits w ! j \<noteq> SIdle then None
      else map_option (\<lambda>r. if r then wp_submit_at j (SAccepted task) w else w) (wp_IsRunning w))"

text \<open>The later steps of a call: the counter, the push (which needs the mutex of the queue) and the broadcast.\<close>

definition wp_submit :: "nat \<Rightarrow> 't wp \<Rightarrow> 't wp option" where
  "wp_submit j w =
     (case wp_submits w ! j of
        SIdle \<Rightarrow> None
      | SAccepted task \<Rightarrow> Some (wp_submit_at j (SCounted task) (w\<lparr>wp_pending := wp_pending w + 1, wp_counted := wp_counted w @ [task]\<rparr>))
      | SCounted task \<Rightarrow>
          if wp_dispatcher w = DChecked then None else Some (wp_submit_at j SPushed (w\<lparr>wp_queue := wp_queue w @ [task]\<rparr>))
      | SPushed \<Rightarrow> Some (wp_submit_at j SIdle (wp_broadcast w)))"

text \<open>\<^verbatim>\<open>Shutdown\<close> up to the signals for the workers, and the broadcast at its end. The channel of the signals is empty and has room
  for all workers.\<close>

definition wp_Shutdown :: "'t wp \<Rightarrow> 't wp option" where
  "wp_Shutdown w =
     (if wp_locked w then None
      else if wp_isRunning w then Some (w\<lparr>wp_locked := True, wp_isRunning := False, wp_shutdownSignal := length (wp_workers w)\<rparr>)
      else Some w)"

definition wp_SignalShutdown :: "'t wp \<Rightarrow> 't wp option" where
  "wp_SignalShutdown w = (if wp_locked w then Some ((wp_broadcast w)\<lparr>wp_locked := False\<rparr>) else None)"

text \<open>The steps of what has begun, and all steps.\<close>

inductive wp_goes :: "'t wp \<Rightarrow> 't wp \<Rightarrow> bool" where
  dispatch: "wp_dispatch w = Some w' \<Longrightarrow> wp_goes w w'"
| work: "i < length (wp_workers w) \<Longrightarrow> w' \<in> set (wp_work i w) \<Longrightarrow> wp_goes w w'"
| submitting: "j < length (wp_submits w) \<Longrightarrow> wp_submit j w = Some w' \<Longrightarrow> wp_goes w w'"
| signal: "wp_SignalShutdown w = Some w' \<Longrightarrow> wp_goes w w'"

inductive wp_step :: "'t wp \<Rightarrow> 't wp \<Rightarrow> bool" where
  goes: "wp_goes w w' \<Longrightarrow> wp_step w w'"
| submit: "j < length (wp_submits w) \<Longrightarrow> wp_Submit j task w = Some w' \<Longrightarrow> wp_step w w'"
| shutdown: "wp_Shutdown w = Some w' \<Longrightarrow> wp_step w w'"

section \<open>Lemmas\<close>

text \<open>The tasks that are on their way.\<close>

fun submit_holds :: "'t submit_pc \<Rightarrow> 't multiset" where
  "submit_holds (SCounted task) = {#task#}"
| "submit_holds _ = {#}"

fun worker_holds :: "'t worker_pc \<Rightarrow> 't multiset" where
  "worker_holds (WExec task) = {#task#}"
| "worker_holds (WDrainExec task) = {#task#}"
| "worker_holds _ = {#}"

fun dispatcher_holds :: "'t dispatcher_pc \<Rightarrow> 't multiset" where
  "dispatcher_holds (DSend task) = {#task#}"
| "dispatcher_holds _ = {#}"

definition in_flight :: "'t wp \<Rightarrow> 't multiset" where
  "in_flight w = sum_list (map submit_holds (wp_submits w)) + mset (wp_queue w) + dispatcher_holds (wp_dispatcher w) +
     mset (wp_dispatcherChan w) + sum_list (map worker_holds (wp_workers w))"

definition wp_inv :: "'t wp \<Rightarrow> bool" where
  "wp_inv w \<longleftrightarrow> mset (wp_counted w) = in_flight w + mset (wp_done w) \<and>
     wp_pending w = int (length (wp_counted w)) - int (length (wp_done w)) \<and>
     (wp_chanClosed w \<longleftrightarrow> wp_dispatcher w = DEnd) \<and> length (wp_dispatcherChan w) \<le> length (wp_workers w) \<and>
     (wp_locked w \<longrightarrow> \<not> wp_isRunning w) \<and>
     (wp_dispatcher w \<in> {DSize, DZero, DEnd} \<longrightarrow> \<not> wp_isRunning w) \<and>
     (wp_dispatcher w = DEnd \<longrightarrow> wp_dispatcherChan w = []) \<and>
     (WEnd \<in> set (wp_workers w) \<longrightarrow> wp_dispatcher w = DEnd)"

lemma sum_list_upd:
  "i < length xs \<Longrightarrow> sum_list (map f (xs[i := x])) + f (xs ! i) = sum_list (map f xs) + (f x :: 'm multiset)"
proof (induction xs arbitrary: i)
  case (Cons y ys)
  then show ?case by (cases i) (simp_all add: union_ac)
qed simp

lemma sum_list_gain: "i < length xs \<Longrightarrow> f (xs ! i) = {#} \<Longrightarrow> sum_list (map f (xs[i := x])) = sum_list (map f xs) + (f x :: 'm multiset)"
  using sum_list_upd [of i xs f x] by simp

lemma sum_list_lose: "i < length xs \<Longrightarrow> f x = {#} \<Longrightarrow> sum_list (map f xs) = sum_list (map f (xs[i := x])) + (f (xs ! i) :: 'm multiset)"
  using sum_list_upd [of i xs f x] by simp

lemma sum_all_empty: "(\<And>x. x \<in> set xs \<Longrightarrow> f x = {#}) \<Longrightarrow> sum_list (map f xs) = {#}"
  by (induction xs) simp_all

lemma pending_in_flight: "wp_inv w \<Longrightarrow> wp_pending w = int (size (in_flight w))"
proof -
  assume inv: "wp_inv w"
  then have "size (mset (wp_counted w)) = size (in_flight w + mset (wp_done w))" unfolding wp_inv_def by metis
  then show ?thesis using inv by (simp add: wp_inv_def)
qed

lemma wp_inv_dispatch:
  assumes "wp_dispatch w = Some w'" "wp_inv w"
  shows "wp_inv w'"
proof (cases "wp_dispatcher w")
  case DZero
  then have "in_flight w = {#}" "w' = w\<lparr>wp_chanClosed := True, wp_dispatcher := DEnd\<rparr>"
    using assms pending_in_flight [OF assms(2)] by (auto simp: wp_dispatch_def split: if_splits)
  then show ?thesis using assms(2) DZero by (auto simp: wp_inv_def in_flight_def)
qed (use assms in \<open>auto simp: wp_dispatch_def wp_inv_def in_flight_def wp_IsRunning_def union_ac split: list.splits if_splits\<close>)

lemma wp_inv_work:
  assumes step: "w' \<in> set (wp_work i w)" and inv: "wp_inv w" and i: "i < length (wp_workers w)"
  shows "wp_inv w'"
proof -
  note defs = wp_at_def wp_markDone_def wp_inv_def in_flight_def
  have ended: "WEnd \<in> set ((wp_workers w)[i := p]) \<Longrightarrow> p = WEnd \<or> WEnd \<in> set (wp_workers w)" for p
    using set_update_subset_insert [of "wp_workers w" i p] by blast
  show ?thesis
  proof (cases "wp_workers w ! i")
    case WRead
    then have gain: "sum_list (map worker_holds ((wp_workers w)[i := p])) = sum_list (map worker_holds (wp_workers w)) + worker_holds p" for p
      using sum_list_gain [OF i, of worker_holds p] by simp
    consider "w' = wp_at i WDrain (w\<lparr>wp_shutdownSignal := wp_shutdownSignal w - 1\<rparr>)"
      | task c where "wp_dispatcherChan w = task # c" "w' = wp_at i (WExec task) (w\<lparr>wp_dispatcherChan := c\<rparr>)"
      | "w' = wp_at i WDrain w"
      using step WRead by (cases "wp_dispatcherChan w"; cases "wp_shutdownSignal w > 0"; cases "wp_chanClosed w") (auto simp: wp_work_def)
    then show ?thesis by cases (use inv gain [of WDrain] gain [of "WExec task" for task] ended [of WDrain] ended [of "WExec task" for task] in \<open>auto simp: defs\<close>)
  next
    case (WExec task)
    then have w': "w' = wp_at i WRead (wp_markDone task w)" using step by (simp add: wp_work_def)
    show ?thesis unfolding w' using inv sum_list_lose [OF i, of worker_holds WRead] WExec ended [of WRead] by (auto simp: defs)
  next
    case WDrain
    then have gain: "sum_list (map worker_holds ((wp_workers w)[i := p])) = sum_list (map worker_holds (wp_workers w)) + worker_holds p" for p
      using sum_list_gain [OF i, of worker_holds p] by simp
    consider task c where "wp_dispatcherChan w = task # c" "w' = wp_markDone task (w\<lparr>wp_dispatcherChan := c\<rparr>)"
      | task c where "wp_dispatcherChan w = task # c" "w' = wp_at i (WDrainExec task) (w\<lparr>wp_dispatcherChan := c\<rparr>)"
      | "wp_chanClosed w" "w' = wp_at i WEnd w"
      using step WDrain by (cases "wp_dispatcherChan w"; cases "wp_cancel w"; cases "wp_chanClosed w") (auto simp: wp_work_def)
    then show ?thesis by cases (use inv gain [of WEnd] gain [of "WDrainExec task" for task] ended [of "WDrainExec task" for task] in \<open>auto simp: defs\<close>)
  next
    case (WDrainExec task)
    then have w': "w' = wp_at i WDrain (wp_markDone task w)" using step by (simp add: wp_work_def)
    show ?thesis unfolding w' using inv sum_list_lose [OF i, of worker_holds WDrain] WDrainExec ended [of WDrain] by (auto simp: defs)
  next
    case WEnd
    then show ?thesis using step by (simp add: wp_work_def)
  qed
qed

lemma wp_inv_submit:
  assumes step: "wp_submit j w = Some w'" and inv: "wp_inv w" and j: "j < length (wp_submits w)"
  shows "wp_inv w'"
proof -
  note defs = wp_submit_at_def wp_inv_def in_flight_def
  show ?thesis
  proof (cases "wp_submits w ! j")
    case SIdle
    then show ?thesis using step by (simp add: wp_submit_def)
  next
    case (SAccepted task)
    then have w': "w' = wp_submit_at j (SCounted task) (w\<lparr>wp_pending := wp_pending w + 1, wp_counted := wp_counted w @ [task]\<rparr>)"
      using step by (simp add: wp_submit_def)
    have "sum_list (map submit_holds ((wp_submits w)[j := SCounted task])) = sum_list (map submit_holds (wp_submits w)) + {#task#}"
      using sum_list_gain [OF j, of submit_holds "SCounted task"] SAccepted by simp
    then show ?thesis unfolding w' using inv by (simp add: defs)
  next
    case (SCounted task)
    then have w': "w' = wp_submit_at j SPushed (w\<lparr>wp_queue := wp_queue w @ [task]\<rparr>)"
      using step by (simp add: wp_submit_def split: if_splits)
    have "sum_list (map submit_holds (wp_submits w)) = sum_list (map submit_holds ((wp_submits w)[j := SPushed])) + {#task#}"
      using sum_list_lose [OF j, of submit_holds SPushed] SCounted by simp
    then show ?thesis unfolding w' using inv by (simp add: defs)
  next
    case SPushed
    then have w': "w' = wp_submit_at j SIdle (wp_broadcast w)" using step by (simp add: wp_submit_def)
    have "sum_list (map submit_holds ((wp_submits w)[j := SIdle])) = sum_list (map submit_holds (wp_submits w))"
      using sum_list_gain [OF j, of submit_holds SIdle] SPushed by simp
    then show ?thesis unfolding w' using inv by (auto simp: defs wp_broadcast_def)
  qed
qed

lemma wp_inv_step: "wp_step w w' \<Longrightarrow> wp_inv w \<Longrightarrow> wp_inv w'"
proof (induction rule: wp_step.induct)
  case (goes w w')
  then show ?case
  proof cases
    case dispatch
    then show ?thesis using wp_inv_dispatch goes by blast
  next
    case work
    then show ?thesis using wp_inv_work goes by blast
  next
    case submitting
    then show ?thesis using wp_inv_submit goes by blast
  next
    case signal
    then show ?thesis using goes by (auto simp: wp_SignalShutdown_def wp_broadcast_def wp_inv_def in_flight_def split: if_splits)
  qed
next
  case (submit j w task w')
  then show ?case using sum_list_upd [OF submit(1), of submit_holds "SAccepted task"]
    by (auto simp: wp_Submit_def wp_submit_at_def wp_IsRunning_def wp_inv_def in_flight_def split: if_splits)
next
  case (shutdown w w')
  then show ?case by (auto simp: wp_Shutdown_def wp_inv_def in_flight_def split: if_splits)
qed

lemma sum_empty: "sum_list (replicate k {#}) = {#}"
  by (induction k) simp_all

lemma wp_inv_reach: "wp_step\<^sup>*\<^sup>* (wp_Start n m cancel) w \<Longrightarrow> wp_inv w"
proof (induction rule: rtranclp_induct)
  case base
  show ?case by (simp add: wp_inv_def wp_Start_def in_flight_def sum_empty)
qed (blast intro: wp_inv_step)

text \<open>A pool that was shut down while no call of \<^verbatim>\<open>Submit\<close> was under way and whose dispatcher did not go to sleep on the way.\<close>

definition wp_quiet :: "'t wp \<Rightarrow> bool" where
  "wp_quiet w \<longleftrightarrow> set (wp_submits w) \<subseteq> {SIdle} \<and> \<not> wp_locked w \<and> \<not> wp_isRunning w \<and> wp_dispatcher w \<notin> {DChecked, DWait} \<and>
     (wp_dispatcher w \<in> {DZero, DEnd} \<longrightarrow> wp_queue w = []) \<and> wp_workers w \<noteq> []"

text \<open>Such a pool only dispatches and works.\<close>

lemma quiet_goes:
  assumes "wp_goes w w'" "wp_quiet w"
  shows "wp_dispatch w = Some w' \<or> (\<exists>i < length (wp_workers w). w' \<in> set (wp_work i w))"
  using assms(1)
proof cases
  case (submitting j)
  have "set (wp_submits w) \<subseteq> {SIdle}" using assms(2) by (simp add: wp_quiet_def)
  then have "wp_submits w ! j = SIdle" using nth_mem [OF submitting(1)] by blast
  then show ?thesis using submitting by (simp add: wp_submit_def)
qed (use assms(2) in \<open>auto simp: wp_quiet_def wp_SignalShutdown_def\<close>)

lemma work_fields:
  "w' \<in> set (wp_work i w) \<Longrightarrow> wp_submits w' = wp_submits w \<and> wp_locked w' = wp_locked w \<and> wp_isRunning w' = wp_isRunning w \<and>
     wp_dispatcher w' = wp_dispatcher w \<and> wp_queue w' = wp_queue w \<and> length (wp_workers w') = length (wp_workers w)"
  by (cases "wp_workers w ! i"; cases "wp_dispatcherChan w")
    (auto simp: wp_work_def wp_at_def wp_markDone_def split: if_splits)

lemma quiet_keeps:
  assumes "wp_goes w w'" "wp_quiet w"
  shows "wp_quiet w'"
  using quiet_goes [OF assms]
proof (elim disjE exE conjE)
  assume "wp_dispatch w = Some w'"
  then show ?thesis using assms(2)
    by (cases "wp_dispatcher w"; cases "wp_queue w") (auto simp: wp_quiet_def wp_dispatch_def wp_IsRunning_def split: if_splits)
next
  fix i assume "i < length (wp_workers w)" "w' \<in> set (wp_work i w)"
  then show ?thesis using assms(2) work_fields [of w' i w] by (auto simp: wp_quiet_def simp flip: length_greater_0_conv)
qed

text \<open>The measure: the way the tasks still have to go, the way of the dispatcher to its end, and the way of the workers to theirs.\<close>

fun worker_way :: "'t worker_pc \<Rightarrow> nat" where
  "worker_way WRead = 2"
| "worker_way (WExec task) = 2"
| "worker_way WDrain = 1"
| "worker_way (WDrainExec task) = 1"
| "worker_way WEnd = 0"

fun dispatcher_way :: "bool \<Rightarrow> 't dispatcher_pc \<Rightarrow> nat" where
  "dispatcher_way tasks DPop = (if tasks then 1 else 4)"
| "dispatcher_way tasks DRunning = 3"
| "dispatcher_way tasks DSize = 2"
| "dispatcher_way tasks DZero = 1"
| "dispatcher_way tasks _ = 0"

definition wp_measure :: "'t wp \<Rightarrow> nat \<times> nat \<times> nat" where
  "wp_measure w =
     (4 * length (wp_queue w) + 3 * size (dispatcher_holds (wp_dispatcher w)) + 2 * length (wp_dispatcherChan w) +
        size (sum_list (map worker_holds (wp_workers w))),
      dispatcher_way (wp_queue w \<noteq> []) (wp_dispatcher w),
      sum_list (map worker_way (wp_workers w)))"

definition wp_order :: "('t wp \<times> 't wp) set" where
  "wp_order = inv_image (less_than <*lex*> less_than <*lex*> less_than) wp_measure"

lemma wf_wp_order: "wf wp_order"
  by (simp add: wp_order_def wf_lex_prod)

lemma dispatch_decreases: "wp_dispatch w = Some w' \<Longrightarrow> wp_quiet w \<Longrightarrow> (w', w) \<in> wp_order"
  by (cases "wp_dispatcher w"; cases "wp_queue w")
    (auto simp: wp_order_def wp_measure_def wp_quiet_def wp_dispatch_def wp_IsRunning_def split: if_splits)

lemma way_upd: "i < length xs \<Longrightarrow> sum_list (map worker_way (xs[i := p])) + worker_way (xs ! i) = sum_list (map worker_way xs) + worker_way p"
proof (induction xs arbitrary: i)
  case (Cons y ys)
  then show ?case by (cases i) simp_all
qed simp

lemma work_decreases:
  assumes step: "w' \<in> set (wp_work i w)" and i: "i < length (wp_workers w)"
  shows "(w', w) \<in> wp_order"
proof -
  note defs = wp_at_def wp_markDone_def wp_order_def wp_measure_def
  have holds: "size (sum_list (map worker_holds ((wp_workers w)[i := p]))) + size (worker_holds (wp_workers w ! i)) =
      size (sum_list (map worker_holds (wp_workers w))) + size (worker_holds p)" for p
    using arg_cong [OF sum_list_upd [OF i, of worker_holds p], of size] by simp
  note way = way_upd [OF i]
  show ?thesis
  proof (cases "wp_workers w ! i")
    case WRead
    then show ?thesis using step holds [of WDrain] holds [of "WExec (hd (wp_dispatcherChan w))"] way [of WDrain]
      by (cases "wp_dispatcherChan w") (auto simp: wp_work_def defs split: if_splits)
  next
    case (WExec task)
    then show ?thesis using step holds [of WRead] by (auto simp: wp_work_def defs)
  next
    case WDrain
    then show ?thesis using step holds [of WEnd] holds [of "WDrainExec (hd (wp_dispatcherChan w))"] way [of WEnd]
      by (cases "wp_dispatcherChan w") (auto simp: wp_work_def defs split: if_splits)
  next
    case (WDrainExec task)
    then show ?thesis using step holds [of WDrain] by (auto simp: wp_work_def defs)
  next
    case WEnd
    then show ?thesis using step by (simp add: wp_work_def)
  qed
qed

lemma goes_decreases: "wp_goes w w' \<Longrightarrow> wp_quiet w \<Longrightarrow> (w', w) \<in> wp_order"
  using quiet_goes dispatch_decreases work_decreases by blast

text \<open>A worker can move unless it has ended, or has nothing to take and must wait for the dispatcher.\<close>

lemma worker_moves:
  "wp_workers w ! i \<noteq> WEnd \<Longrightarrow> wp_dispatcherChan w \<noteq> [] \<or> wp_chanClosed w \<or> worker_holds (wp_workers w ! i) \<noteq> {#} \<Longrightarrow> wp_work i w \<noteq> []"
  by (cases "wp_workers w ! i"; cases "wp_dispatcherChan w") (auto simp: wp_work_def)

lemma dispatch_moves: "wp_quiet w \<Longrightarrow> wp_dispatcherChan w = [] \<Longrightarrow> wp_dispatcher w \<notin> {DZero, DEnd} \<Longrightarrow> \<exists>w'. wp_dispatch w = Some w'"
  by (cases "wp_dispatcher w"; cases "wp_queue w") (simp_all add: wp_dispatch_def wp_quiet_def wp_IsRunning_def)

lemma stuck_finished:
  assumes inv: "wp_inv w" and quiet: "wp_quiet w" and stuck: "\<nexists>w'. wp_goes w w'"
  shows "wp_dispatcher w = DEnd \<and> set (wp_workers w) = {WEnd} \<and> wp_pending w = 0 \<and> mset (wp_done w) = mset (wp_counted w)"
proof -
  have nowork: "wp_work i w = []" if "i < length (wp_workers w)" for i
    using stuck wp_goes.work [OF that] by (metis list.set_sel(1))
  have chan: "wp_dispatcherChan w = []"
  proof (rule ccontr)
    assume chan: "wp_dispatcherChan w \<noteq> []"
    then have "WEnd \<notin> set (wp_workers w)" using inv by (auto simp: wp_inv_def)
    moreover have 0: "0 < length (wp_workers w)" using quiet by (simp add: wp_quiet_def)
    ultimately have "wp_workers w ! 0 \<noteq> WEnd" using nth_mem [OF 0] by metis
    then show False using worker_moves [of w 0] chan nowork [OF 0] by simp
  qed
  have rests: "p = WEnd \<or> worker_holds p = {#} \<and> \<not> wp_chanClosed w" if p: "p \<in> set (wp_workers w)" for p
  proof -
    obtain i where i: "i < length (wp_workers w)" "wp_workers w ! i = p" using p by (metis in_set_conv_nth)
    then show ?thesis using nowork [OF i(1)] worker_moves [of w i] by auto
  qed
  then have idle: "worker_holds p = {#}" if "p \<in> set (wp_workers w)" for p using that by fastforce
  have dp: "wp_dispatcher w \<in> {DZero, DEnd}"
    using dispatch_moves [OF quiet chan] stuck wp_goes.dispatch by blast
  have "sum_list (map worker_holds (wp_workers w)) = {#}" using idle by (simp add: sum_all_empty)
  moreover have "submit_holds p = {#}" if "p \<in> set (wp_submits w)" for p using that quiet by (auto simp: wp_quiet_def)
  then have "sum_list (map submit_holds (wp_submits w)) = {#}" by (simp add: sum_all_empty)
  ultimately have empty: "in_flight w = {#}" using dp quiet chan by (auto simp: in_flight_def wp_quiet_def)
  then have pend: "wp_pending w = 0" using pending_in_flight [OF inv] by simp
  have ended: "wp_dispatcher w = DEnd"
  proof (rule ccontr)
    assume "wp_dispatcher w \<noteq> DEnd"
    then have "\<exists>w'. wp_dispatch w = Some w'" using dp pend by (simp add: wp_dispatch_def)
    then show False using stuck wp_goes.dispatch by blast
  qed
  then have "wp_chanClosed w" using inv by (simp add: wp_inv_def)
  then have "p = WEnd" if "p \<in> set (wp_workers w)" for p using that rests by blast
  then have "set (wp_workers w) = {WEnd}" using quiet by (cases "wp_workers w") (auto simp: wp_quiet_def)
  then show ?thesis using ended pend empty inv by (simp add: wp_inv_def)
qed

section \<open>Schedules\<close>

text \<open>A schedule picks the steps; worker \<open>i\<close> takes the \<open>k\<close>-th of the steps it can make.\<close>

datatype 't wp_action = ADispatch | AWork nat nat | ASubmit nat 't | ASubmitting nat | AShutdown | ASignal

fun wp_do :: "'t wp_action \<Rightarrow> 't wp \<Rightarrow> 't wp option" where
  "wp_do ADispatch w = wp_dispatch w"
| "wp_do (AWork i k) w = (if i < length (wp_workers w) \<and> k < length (wp_work i w) then Some (wp_work i w ! k) else None)"
| "wp_do (ASubmit j task) w = (if j < length (wp_submits w) then wp_Submit j task w else None)"
| "wp_do (ASubmitting j) w = (if j < length (wp_submits w) then wp_submit j w else None)"
| "wp_do AShutdown w = wp_Shutdown w"
| "wp_do ASignal w = wp_SignalShutdown w"

fun wp_run :: "'t wp_action list \<Rightarrow> 't wp \<Rightarrow> 't wp option" where
  "wp_run [] w = Some w"
| "wp_run (a # as) w = (case wp_do a w of None \<Rightarrow> None | Some w \<Rightarrow> wp_run as w)"

lemma wp_do_step: "wp_do a w = Some w' \<Longrightarrow> wp_step w w'"
  by (cases a) (auto intro: wp_step.intros wp_goes.intros nth_mem split: if_splits)

lemma wp_run_steps: "wp_run as w = Some w' \<Longrightarrow> wp_step\<^sup>*\<^sup>* w w'"
proof (induction as arbitrary: w)
  case (Cons a as)
  then show ?case using wp_do_step [of a w] by (auto split: option.splits intro: converse_rtranclp_into_rtranclp)
qed simp

section \<open>Properties\<close>

text \<open>C4: In every interleaving of the dispatcher, the workers, any number of goroutines that submit and a shutdown, no task is lost
  or executed twice: the tasks that were counted are exactly those on their way (with a submitter, in the queue, with the
  dispatcher, in the channel, with a worker) and those executed or cancelled, and the counter of the pending tasks is the
  number of the former.\<close>

theorem worker_pool_loses_no_task:
  assumes "wp_step\<^sup>*\<^sup>* (wp_Start n m cancel) w"
  shows "mset (wp_counted w) = in_flight w + mset (wp_done w) \<and> wp_pending w = int (size (in_flight w))"
  using wp_inv_reach [OF assms] pending_in_flight [of w] by (simp add: wp_inv_def)

theorem worker_pool_loses_no_task_witness:
  "\<exists>w. wp_run [ASubmit 0 (5 :: nat), ASubmitting 0, ASubmitting 0, ADispatch, ADispatch, ADispatch, AWork 1 0, AWork 1 0] (wp_Start 2 1 False) = Some w \<and>
     mset (wp_counted w) = in_flight w + mset (wp_done w) \<and> wp_pending w = 0 \<and> wp_done w = [5]"
proof -
  let ?acts = "[ASubmit 0 5, ASubmitting 0, ASubmitting 0, ADispatch, ADispatch, ADispatch, AWork 1 0, AWork 1 0] :: nat wp_action list"
  obtain w where w: "wp_run ?acts (wp_Start 2 1 False) = Some w" "wp_pending w = 0" "wp_done w = [5]"
    by (simp add: wp_Start_def wp_Submit_def wp_IsRunning_def wp_submit_at_def wp_submit_def wp_dispatch_def wp_work_def wp_at_def wp_markDone_def
        numeral_2_eq_2)
  from worker_pool_loses_no_task [OF wp_run_steps [OF w(1)]] show ?thesis using w by blast
qed

text \<open>C12: A pool that is shut down while no call of \<^verbatim>\<open>Submit\<close> is under way and whose dispatcher is not asleep comes to its end, however
  its goroutines are scheduled: no run goes on forever, and when nothing can move any more the dispatcher and all workers have
  returned, no task is pending, and every counted task was executed or cancelled.\<close>

theorem worker_pool_shuts_down:
  assumes "wp_step\<^sup>*\<^sup>* (wp_Start n m cancel) w" and "wp_quiet w"
  shows "(\<nexists>run. run 0 = w \<and> (\<forall>i. wp_goes (run i) (run (Suc i)))) \<and>
    (\<forall>w'. wp_goes\<^sup>*\<^sup>* w w' \<and> (\<nexists>w''. wp_goes w' w'') \<longrightarrow>
       wp_dispatcher w' = DEnd \<and> set (wp_workers w') = {WEnd} \<and> wp_pending w' = 0 \<and> mset (wp_done w') = mset (wp_counted w'))"
proof (intro conjI allI impI notI)
  have keeps: "wp_inv w' \<and> wp_quiet w'" if "wp_goes\<^sup>*\<^sup>* w w'" for w'
    using that wp_inv_reach [OF assms(1)] assms(2)
    by (induction rule: rtranclp_induct) (auto intro: wp_inv_step wp_step.goes quiet_keeps)
  {
    assume "\<exists>run. run 0 = w \<and> (\<forall>i. wp_goes (run i) (run (Suc i)))"
    then obtain run where run: "run 0 = w" "\<And>i. wp_goes (run i) (run (Suc i))" by blast
    have "wp_goes\<^sup>*\<^sup>* w (run i)" for i by (induction i) (use run in \<open>auto intro: rtranclp.rtrancl_into_rtrancl\<close>)
    then have "(run (Suc i), run i) \<in> wp_order" for i using goes_decreases [OF run(2)] keeps by blast
    then show False using wf_wp_order wf_iff_no_infinite_down_chain by blast
  }
  fix w' assume w': "wp_goes\<^sup>*\<^sup>* w w' \<and> (\<nexists>w''. wp_goes w' w'')"
  then have "wp_inv w'" "wp_quiet w'" using keeps by blast+
  then show "wp_dispatcher w' = DEnd" "set (wp_workers w') = {WEnd}" "wp_pending w' = 0" "mset (wp_done w') = mset (wp_counted w')"
    using stuck_finished w' by blast+
qed

theorem worker_pool_shuts_down_witness:
  "\<exists>w. wp_run [ASubmit 0 (5 :: nat), ASubmitting 0, ASubmitting 0, ASubmitting 0, AShutdown, ASignal] (wp_Start 2 1 True) = Some w \<and>
     wp_queue w = [5] \<and> (\<nexists>run. run 0 = w \<and> (\<forall>i. wp_goes (run i) (run (Suc i))))"
proof -
  let ?acts = "[ASubmit 0 5, ASubmitting 0, ASubmitting 0, ASubmitting 0, AShutdown, ASignal] :: nat wp_action list"
  obtain w where w: "wp_run ?acts (wp_Start 2 1 True) = Some w" "wp_queue w = [5]" "wp_quiet w"
    by (simp add: wp_Start_def wp_Submit_def wp_IsRunning_def wp_submit_at_def wp_submit_def wp_Shutdown_def wp_SignalShutdown_def wp_broadcast_def
        wp_quiet_def numeral_2_eq_2)
  from worker_pool_shuts_down [OF wp_run_steps [OF w(1)] w(3)] w show ?thesis by blast
qed

text \<open>The dispatcher asks whether the pool runs while it holds the mutex of the queue, but \<^verbatim>\<open>Shutdown\<close> broadcasts without that mutex: if
  the broadcast comes between the question and the wait, the dispatcher sleeps forever and the workers wait for it.\<close>

theorem shutdown_can_be_missed:
  "\<exists>w. wp_run [ADispatch, ADispatch, AShutdown, ASignal, ADispatch, AWork 0 0] (wp_Start 1 0 cancel :: nat wp) = Some w \<and>
     wp_dispatcher w = DWait \<and> wp_workers w = [WDrain] \<and> wp_pending w = 0 \<and> (\<nexists>w'. wp_goes w w')"
proof -
  obtain w where w: "wp_run [ADispatch, ADispatch, AShutdown, ASignal, ADispatch, AWork 0 0] (wp_Start 1 0 cancel :: nat wp) = Some w"
    "wp_dispatcher w = DWait" "wp_workers w = [WDrain]" "wp_pending w = 0" "wp_submits w = []" "\<not> wp_locked w" "wp_dispatcherChan w = []"
    "\<not> wp_chanClosed w"
    by (simp add: wp_Start_def wp_IsRunning_def wp_dispatch_def wp_Shutdown_def wp_SignalShutdown_def wp_broadcast_def wp_work_def wp_at_def)
  then have "\<nexists>w'. wp_goes w w'" by (auto simp: wp_goes.simps wp_dispatch_def wp_work_def wp_SignalShutdown_def)
  with w show ?thesis by blast
qed

text \<open>A task that is accepted before the shutdown but pushed after the dispatcher has looked at the queue is never executed, and the
  shutdown never completes.\<close>

theorem late_submit_is_stranded:
  "\<exists>w. wp_run [ASubmit 0 5, AShutdown, ASignal, ADispatch, ADispatch, ASubmitting 0, ASubmitting 0, ASubmitting 0, AWork 0 0]
       (wp_Start 1 1 cancel :: nat wp) = Some w \<and>
     wp_dispatcher w = DZero \<and> wp_queue w = [5] \<and> wp_pending w = 1 \<and> wp_workers w = [WDrain] \<and> (\<nexists>w'. wp_goes w w')"
proof -
  let ?acts = "[ASubmit 0 5, AShutdown, ASignal, ADispatch, ADispatch, ASubmitting 0, ASubmitting 0, ASubmitting 0, AWork 0 0] :: nat wp_action list"
  obtain w where w: "wp_run ?acts (wp_Start 1 1 cancel) = Some w" "wp_dispatcher w = DZero" "wp_queue w = [5]" "wp_pending w = 1"
    "wp_workers w = [WDrain]" "wp_submits w = [SIdle]" "\<not> wp_locked w" "wp_dispatcherChan w = []" "\<not> wp_chanClosed w"
    by (simp add: wp_Start_def wp_Submit_def wp_submit_def wp_submit_at_def wp_IsRunning_def wp_dispatch_def wp_Shutdown_def wp_SignalShutdown_def
        wp_broadcast_def wp_work_def wp_at_def)
  then have "\<nexists>w'. wp_goes w w'" by (auto simp: wp_goes.simps wp_dispatch_def wp_work_def wp_submit_def wp_SignalShutdown_def)
  with w show ?thesis by blast
qed

end
