(* ===== verification/Worker_Group.thy ===== *)
theory Worker_Group
  imports Hive_Prelude
begin

text \<open>
  \<^verbatim>\<open>runtime/workerpool/group.go\<close>: groups of worker pools, nested, with a counter of the children that are pending.
\<close>

section \<open>Definitions\<close>

text \<open>A group with its counter of pending children, the counters of the pending tasks of its pools, and its subgroups, each in the
  order of creation.\<close>

datatype group = Group (PendingChildren: int) (pools: "(string \<times> int) list") (groups: "(string \<times> group) list")

definition NewGroup :: group where
  "NewGroup = Group 0 [] []"

text \<open>The callback that a group subscribes to the counter of a child. A counter calls it only when its value changes.\<close>

definition child_changed :: "int \<Rightarrow> int \<Rightarrow> int \<Rightarrow> int" where
  "child_changed oldValue newValue pending =
     (if oldValue = newValue then pending
      else if oldValue = 0 then pending + 1
      else if newValue = 0 then pending - 1
      else pending)"

text \<open>The entry of a list of children, and its replacement.\<close>

fun set_child :: "string \<Rightarrow> 'a \<Rightarrow> (string \<times> 'a) list \<Rightarrow> (string \<times> 'a) list" where
  "set_child name x [] = []"
| "set_child name x ((n, y) # cs) = (if n = name then (n, x) # cs else (n, y) # set_child name x cs)"

text \<open>\<^verbatim>\<open>CreatePool\<close> and \<^verbatim>\<open>CreateGroup\<close> on the group itself; \<^term>\<open>None\<close> is the panic for a name that is in use.\<close>

definition CreatePool :: "string \<Rightarrow> group \<Rightarrow> group option" where
  "CreatePool name g = (case g of Group n ps gs \<Rightarrow> if name \<in> fst ` set ps then None else Some (Group n (ps @ [(name, 0)]) gs))"

definition CreateGroup :: "string \<Rightarrow> group \<Rightarrow> group option" where
  "CreateGroup name g = (case g of Group n ps gs \<Rightarrow> if name \<in> fst ` set gs then None else Some (Group n ps (gs @ [(name, NewGroup)])))"

definition pool_update :: "string \<Rightarrow> int \<Rightarrow> group \<Rightarrow> group option" where
  "pool_update name delta g =
     (case g of Group n ps gs \<Rightarrow>
        (case map_of ps name of
           None \<Rightarrow> None
         | Some v \<Rightarrow> Some (Group (child_changed v (v + delta) n) (set_child name (v + delta) ps) gs)))"

text \<open>An operation on the group at a path; every group on the way is told the change of the counter of its subgroup.\<close>

fun at_path :: "string list \<Rightarrow> (group \<Rightarrow> group option) \<Rightarrow> group \<Rightarrow> group option" where
  "at_path [] f g = f g"
| "at_path (name # path) f (Group n ps gs) =
     (case map_of gs name of
        None \<Rightarrow> None
      | Some sub \<Rightarrow>
          (case at_path path f sub of
             None \<Rightarrow> None
           | Some sub' \<Rightarrow> Some (Group (child_changed (PendingChildren sub) (PendingChildren sub') n) ps (set_child name sub' gs))))"

datatype group_op = GCreatePool "string list" string | GCreateGroup "string list" string | GUpdate "string list" string int

fun group_step :: "group_op \<Rightarrow> group \<Rightarrow> group option" where
  "group_step (GCreatePool path name) g = at_path path (CreatePool name) g"
| "group_step (GCreateGroup path name) g = at_path path (CreateGroup name) g"
| "group_step (GUpdate path name delta) g = at_path path (pool_update name delta) g"

fun group_run :: "group_op list \<Rightarrow> group \<Rightarrow> group option" where
  "group_run [] g = Some g"
| "group_run (op # ops) g = (case group_step op g of None \<Rightarrow> None | Some g \<Rightarrow> group_run ops g)"

text \<open>The counters of all pools below a group.\<close>

fun all_pools :: "group \<Rightarrow> int list" where
  "all_pools (Group n ps gs) = map snd ps @ concat (map (\<lambda>(_, g). all_pools g) gs)"

section \<open>Lemmas\<close>

text \<open>The counter of a group is the number of its children that are pending, and the names are distinct; so it is in all subgroups.\<close>

fun group_ok :: "group \<Rightarrow> bool" where
  "group_ok (Group n ps gs) \<longleftrightarrow>
     n = int (length (filter (\<lambda>(_, v). v \<noteq> 0) ps) + length (filter (\<lambda>(_, g). PendingChildren g \<noteq> 0) gs)) \<and>
     distinct (map fst ps) \<and> distinct (map fst gs) \<and> (\<forall>x \<in> set gs. group_ok (snd x))"

lemma set_child_filter:
  assumes "distinct (map fst cs)" "map_of cs name = Some y"
  shows "int (length (filter (\<lambda>(_, v). P v) (set_child name x cs))) =
    int (length (filter (\<lambda>(_, v). P v) cs)) + (if P x \<and> \<not> P y then 1 else if \<not> P x \<and> P y then - 1 else 0)"
    and "map fst (set_child name x cs) = map fst cs"
    and "set (set_child name x cs) \<subseteq> insert (name, x) (set cs)"
  using assms by (induction name x cs rule: set_child.induct) (auto split: if_splits)

lemma group_ok_at_path:
  assumes f: "\<And>g g'. group_ok g \<Longrightarrow> f g = Some g' \<Longrightarrow> group_ok g'"
  shows "group_ok g \<Longrightarrow> at_path path f g = Some g' \<Longrightarrow> group_ok g'"
proof (induction path arbitrary: g g')
  case Nil
  then show ?case using f by simp
next
  case (Cons name path)
  obtain n ps gs where g: "g = Group n ps gs" by (cases g)
  obtain sub sub' where sub: "map_of gs name = Some sub" "at_path path f sub = Some sub'"
    "g' = Group (child_changed (PendingChildren sub) (PendingChildren sub') n) ps (set_child name sub' gs)"
    using Cons.prems(2) g by (auto split: option.splits)
  have "group_ok sub" using Cons.prems(1) g map_of_SomeD [OF sub(1)] by fastforce
  then have "group_ok sub'" using Cons.IH sub(2) by blast
  then show ?case using Cons.prems(1) g sub(3) set_child_filter(1) [of gs name sub "\<lambda>g. PendingChildren g \<noteq> 0" sub']
      set_child_filter(2,3) [of gs name sub sub'] sub(1)
    by (auto simp: child_changed_def)
qed

lemma group_ok_ops:
  "group_ok g \<Longrightarrow> CreatePool name g = Some g' \<Longrightarrow> group_ok g'"
  "group_ok g \<Longrightarrow> CreateGroup name g = Some g' \<Longrightarrow> group_ok g'"
  "group_ok g \<Longrightarrow> pool_update name delta g = Some g' \<Longrightarrow> group_ok g'"
proof -
  show "group_ok g \<Longrightarrow> CreatePool name g = Some g' \<Longrightarrow> group_ok g'" "group_ok g \<Longrightarrow> CreateGroup name g = Some g' \<Longrightarrow> group_ok g'"
    by (cases g; auto simp: CreatePool_def CreateGroup_def NewGroup_def split: if_splits)+
  assume ok: "group_ok g" and upd: "pool_update name delta g = Some g'"
  obtain n ps gs where g: "g = Group n ps gs" by (cases g)
  then obtain v where v: "map_of ps name = Some v" "g' = Group (child_changed v (v + delta) n) (set_child name (v + delta) ps) gs"
    using upd by (auto simp: pool_update_def split: option.splits)
  then show "group_ok g'" using ok g set_child_filter(1) [of ps name v "\<lambda>v. v \<noteq> 0" "v + delta"]
      set_child_filter(2,3) [of ps name v "v + delta"] by (auto simp: child_changed_def)
qed

lemma group_ok_run: "group_ok g \<Longrightarrow> group_run ops g = Some g' \<Longrightarrow> group_ok g'"
proof (induction ops arbitrary: g)
  case (Cons op ops)
  then obtain g1 where g1: "group_step op g = Some g1" "group_run ops g1 = Some g'" by (auto split: option.splits)
  then have "group_ok g1" using Cons.prems(1)
    by (cases op) (auto intro: group_ok_at_path [OF group_ok_ops(1)] group_ok_at_path [OF group_ok_ops(2)] group_ok_at_path [OF group_ok_ops(3)])
  then show ?case using Cons.IH g1(2) by blast
qed simp

lemma pending_iff: "group_ok g \<Longrightarrow> PendingChildren g = 0 \<longleftrightarrow> (\<forall>v \<in> set (all_pools g). v = 0)"
proof (induction g rule: all_pools.induct)
  case (1 n ps gs)
  have sub: "PendingChildren (snd x) = 0 \<longleftrightarrow> (\<forall>v \<in> set (all_pools (snd x)). v = 0)" if "x \<in> set gs" for x
    using 1 that by (cases x) auto
  have "n = 0 \<longleftrightarrow> (\<forall>x \<in> set ps. snd x = 0) \<and> (\<forall>x \<in> set gs. PendingChildren (snd x) = 0)"
  proof -
    have "n = 0 \<longleftrightarrow> filter (\<lambda>(_, v). v \<noteq> 0) ps = [] \<and> filter (\<lambda>(_, g). PendingChildren g \<noteq> 0) gs = []"
      using 1(2) by (simp add: of_nat_add [symmetric] del: of_nat_add)
    then show ?thesis unfolding filter_empty_conv by (simp add: case_prod_beta)
  qed
  moreover have "(\<forall>x \<in> set gs. PendingChildren (snd x) = 0) \<longleftrightarrow> (\<forall>x \<in> set gs. \<forall>v \<in> set (all_pools (snd x)). v = 0)"
    by (intro ball_cong refl sub)
  ultimately show ?case by (simp add: case_prod_beta ball_Un)
qed

section \<open>Properties\<close>



end
