(* ===== verification/Subscription_Manager.thy ===== *)
theory Subscription_Manager
  imports Shrinking_Map
begin

text \<open>
  The subscription manager of \<^verbatim>\<open>web/subscriptionmanager/subscription_manager.go\<close>: two levels of shrinking maps
  (\<^verbatim>\<open>Shrinking_Map\<close>) with redundant counts, against the plain bookkeeping of who subscribed how often to what. Each operation is one
  critical section followed by the events it triggers; an operation returns the events in the order they are triggered.
  The reason of a drop event is always the same error and is left out.
\<close>

section \<open>Definitions\<close>

subsection \<open>The manager\<close>

datatype ('c, 't) Events =
    ClientConnected 'c | ClientDisconnected 'c | TopicSubscribed 'c 't | TopicUnsubscribed 'c 't
  | TopicAdded 't | TopicRemoved 't | DropClient 'c

record ('c, 't) SubscriptionManager =
  subscribers :: "('c, ('t, int) ShrinkingMap) ShrinkingMap"
  topics :: "('t, int) ShrinkingMap"
  maxTopicSubscriptionsPerClient :: int
  cleanupThresholdCount :: int
  cleanupThresholdRatio :: "(nat \<Rightarrow> nat \<Rightarrow> bool) option"

definition WithMaxTopicSubscriptionsPerClient :: "int \<Rightarrow> ('c, 't) SubscriptionManager \<Rightarrow> ('c, 't) SubscriptionManager" where
  "WithMaxTopicSubscriptionsPerClient n s = s\<lparr>maxTopicSubscriptionsPerClient := n\<rparr>"

definition WithCleanupThresholdCount :: "int \<Rightarrow> ('c, 't) SubscriptionManager \<Rightarrow> ('c, 't) SubscriptionManager" where
  "WithCleanupThresholdCount n s = s\<lparr>cleanupThresholdCount := n\<rparr>"

definition WithCleanupThresholdRatio ::
  "(nat \<Rightarrow> nat \<Rightarrow> bool) option \<Rightarrow> ('c, 't) SubscriptionManager \<Rightarrow> ('c, 't) SubscriptionManager" where
  "WithCleanupThresholdRatio r s = s\<lparr>cleanupThresholdRatio := r\<rparr>"

text \<open>Every map of the manager is created with the same two options.\<close>

definition cleanup_options :: "('c, 't) SubscriptionManager \<Rightarrow> Option list" where
  "cleanup_options s = [WithShrinkingThresholdRatio (cleanupThresholdRatio s), WithShrinkingThresholdCount (cleanupThresholdCount s)]"

definition SubscriptionManager_New ::
  "(nat \<Rightarrow> nat \<Rightarrow> bool) \<Rightarrow> (nat \<Rightarrow> nat \<Rightarrow> bool)
     \<Rightarrow> (('c, 't) SubscriptionManager \<Rightarrow> ('c, 't) SubscriptionManager) list \<Rightarrow> ('c, 't) SubscriptionManager" where
  "SubscriptionManager_New below10 below1 opts =
     (let manager = fold (\<lambda>opt s. opt s) opts
            \<lparr>subscribers = sm_New below10 [], topics = sm_New below10 [], maxTopicSubscriptionsPerClient = 0,
             cleanupThresholdCount = 10000, cleanupThresholdRatio = Some below1\<rparr>
      in manager\<lparr>subscribers := sm_New below10 (cleanup_options manager),
                 topics := sm_New below10 (cleanup_options manager)\<rparr>)"

subsection \<open>Operations\<close>

text \<open>The pointer to the map of a client is stored in \<^verbatim>\<open>subscribers\<close> only: an update through it is an update of that
  entry. \<open>ordC\<close> and \<open>ordT\<close> are the orders in which the runtime ranges over the maps.\<close>

definition set_client ::
  "('c, 't) SubscriptionManager \<Rightarrow> 'c \<Rightarrow> ('t, int) ShrinkingMap \<Rightarrow> ('c, 't) SubscriptionManager" where
  "set_client s clientID st = s\<lparr>subscribers := fst (sm_Set (subscribers s) clientID st)\<rparr>"

definition cleanup_topic ::
  "(('t \<rightharpoonup> int) \<Rightarrow> 't list) \<Rightarrow> ('t, int) ShrinkingMap \<times> ('t, int) ShrinkingMap \<times> 't list \<times> 't list \<Rightarrow> 't \<times> int
     \<Rightarrow> (('t, int) ShrinkingMap \<times> ('t, int) ShrinkingMap \<times> 't list \<times> 't list) \<times> bool" where
  "cleanup_topic ordT = (\<lambda>(tps, subscribedTopics, removedTopics, unsubscribedTopics) (topic, count).
     (let (topicsCount, has) = sm_Get 0 tps topic;
          (tps, removedTopics) =
            (if has then
               if topicsCount - count \<le> 0 then (fst (sm_Delete ordT tps topic []), removedTopics @ [topic])
               else (fst (sm_Set tps topic (topicsCount - count)), removedTopics)
             else (tps, removedTopics));
          unsubscribedTopics = unsubscribedTopics @ replicate (nat count) topic;
          subscribedTopics = fst (sm_Delete ordT subscribedTopics topic [])
      in ((tps, subscribedTopics, removedTopics, unsubscribedTopics), True)))"

definition cleanupClientWithoutLocking ::
  "(('c \<rightharpoonup> ('t, int) ShrinkingMap) \<Rightarrow> 'c list) \<Rightarrow> (('t \<rightharpoonup> int) \<Rightarrow> 't list) \<Rightarrow> ('c, 't) SubscriptionManager \<Rightarrow> 'c
     \<Rightarrow> ('c, 't) SubscriptionManager \<times> bool \<times> 't list \<times> 't list" where
  "cleanupClientWithoutLocking ordC ordT s clientID =
     (case sm_m (subscribers s) clientID of
        None \<Rightarrow> (s, False, [], [])
      | Some subscribedTopics \<Rightarrow>
          (let (tps, subscribedTopics, removedTopics, unsubscribedTopics) =
                 sm_ForEach (ordT (sm_m subscribedTopics)) subscribedTopics (cleanup_topic ordT)
                   (topics s, subscribedTopics, [], []);
               s = (set_client s clientID subscribedTopics)\<lparr>topics := tps\<rparr>;
               s = s\<lparr>subscribers := fst (sm_Delete ordC (subscribers s) clientID [])\<rparr>
           in (s, True, removedTopics, unsubscribedTopics)))"

definition sub_Connect ::
  "(nat \<Rightarrow> nat \<Rightarrow> bool) \<Rightarrow> (('c \<rightharpoonup> ('t, int) ShrinkingMap) \<Rightarrow> 'c list) \<Rightarrow> (('t \<rightharpoonup> int) \<Rightarrow> 't list)
     \<Rightarrow> ('c, 't) SubscriptionManager \<Rightarrow> 'c \<Rightarrow> ('c, 't) SubscriptionManager \<times> ('c, 't) Events list" where
  "sub_Connect below10 ordC ordT s clientID =
     (let (s, wasConnected, removedTopics, unsubscribedTopics) = cleanupClientWithoutLocking ordC ordT s clientID;
          s = set_client s clientID (sm_New below10 (cleanup_options s))
      in (s, (if wasConnected
              then map TopicRemoved removedTopics @ map (TopicUnsubscribed clientID) unsubscribedTopics
                     @ [ClientDisconnected clientID]
              else []) @ [ClientConnected clientID]))"

definition sub_Disconnect ::
  "(('c \<rightharpoonup> ('t, int) ShrinkingMap) \<Rightarrow> 'c list) \<Rightarrow> (('t \<rightharpoonup> int) \<Rightarrow> 't list)
     \<Rightarrow> ('c, 't) SubscriptionManager \<Rightarrow> 'c \<Rightarrow> ('c, 't) SubscriptionManager \<times> ('c, 't) Events list \<times> bool" where
  "sub_Disconnect ordC ordT s clientID =
     (let (s, wasConnected, removedTopics, unsubscribedTopics) = cleanupClientWithoutLocking ordC ordT s clientID
      in if wasConnected
         then (s, map TopicRemoved removedTopics @ map (TopicUnsubscribed clientID) unsubscribedTopics
                    @ [ClientDisconnected clientID], True)
         else (s, [], False))"

text \<open>The part of \<^verbatim>\<open>Subscribe\<close> under the lock returns \<open>clientDropped\<close>, \<open>removedTopics\<close>, \<open>unsubscribedTopics\<close> and
  \<open>topicAdded\<close>.\<close>

definition subscribe_locked ::
  "(('c \<rightharpoonup> ('t, int) ShrinkingMap) \<Rightarrow> 'c list) \<Rightarrow> (('t \<rightharpoonup> int) \<Rightarrow> 't list)
     \<Rightarrow> ('c, 't) SubscriptionManager \<Rightarrow> 'c \<Rightarrow> 't \<Rightarrow> ('c, 't) SubscriptionManager \<times> bool \<times> 't list \<times> 't list \<times> bool" where
  "subscribe_locked ordC ordT s clientID topic =
     (case sm_m (subscribers s) clientID of
        None \<Rightarrow> (s, False, [], [], False)
      | Some subscribedTopics \<Rightarrow>
          (let (count, has) = sm_Get 0 subscribedTopics topic;
               subscribedTopics = fst (sm_Set subscribedTopics topic (if has then count + 1 else 1));
               s = set_client s clientID subscribedTopics
           in if \<not> has \<and> maxTopicSubscriptionsPerClient s \<noteq> 0
                \<and> int (sm_Size subscribedTopics) \<ge> maxTopicSubscriptionsPerClient s
              then let (s, _, removedTopics, unsubscribedTopics) = cleanupClientWithoutLocking ordC ordT s clientID
                   in (s, True, removedTopics, unsubscribedTopics, False)
              else let (count, has) = sm_Get 0 (topics s) topic
                   in (s\<lparr>topics := fst (sm_Set (topics s) topic (if has then count + 1 else 1))\<rparr>, False, [], [], \<not> has)))"

definition sub_Subscribe ::
  "(('c \<rightharpoonup> ('t, int) ShrinkingMap) \<Rightarrow> 'c list) \<Rightarrow> (('t \<rightharpoonup> int) \<Rightarrow> 't list)
     \<Rightarrow> ('c, 't) SubscriptionManager \<Rightarrow> 'c \<Rightarrow> 't \<Rightarrow> ('c, 't) SubscriptionManager \<times> ('c, 't) Events list \<times> bool" where
  "sub_Subscribe ordC ordT s clientID topic =
     (let (s, clientDropped, removedTopics, unsubscribedTopics, topicAdded) = subscribe_locked ordC ordT s clientID topic
      in if clientDropped
         then (s, map TopicRemoved removedTopics @ map (TopicUnsubscribed clientID) unsubscribedTopics
                    @ [DropClient clientID, ClientDisconnected clientID], False)
         else (s, (if topicAdded then [TopicAdded topic] else []) @ [TopicSubscribed clientID topic], True))"

text \<open>The part of \<^verbatim>\<open>Unsubscribe\<close> under the lock returns \<open>topicUnsubscribed\<close> and \<open>topicRemoved\<close>.\<close>

definition unsubscribe_locked ::
  "(('t \<rightharpoonup> int) \<Rightarrow> 't list) \<Rightarrow> ('c, 't) SubscriptionManager \<Rightarrow> 'c \<Rightarrow> 't \<Rightarrow> ('c, 't) SubscriptionManager \<times> bool \<times> bool" where
  "unsubscribe_locked ordT s clientID topic =
     (case sm_m (subscribers s) clientID of
        None \<Rightarrow> (s, False, False)
      | Some subscribedTopics \<Rightarrow>
          (case sm_m subscribedTopics topic of
             None \<Rightarrow> (s, False, False)
           | Some count \<Rightarrow>
               (let s = set_client s clientID
                      (if count \<le> 1 then fst (sm_Delete ordT subscribedTopics topic [])
                       else fst (sm_Set subscribedTopics topic (count - 1)))
                in case sm_m (topics s) topic of
                     None \<Rightarrow> (s, True, False)
                   | Some count \<Rightarrow>
                       if count \<le> 1 then (s\<lparr>topics := fst (sm_Delete ordT (topics s) topic [])\<rparr>, True, True)
                       else (s\<lparr>topics := fst (sm_Set (topics s) topic (count - 1))\<rparr>, True, False))))"

definition sub_Unsubscribe ::
  "(('t \<rightharpoonup> int) \<Rightarrow> 't list) \<Rightarrow> ('c, 't) SubscriptionManager \<Rightarrow> 'c \<Rightarrow> 't
     \<Rightarrow> ('c, 't) SubscriptionManager \<times> ('c, 't) Events list \<times> bool" where
  "sub_Unsubscribe ordT s clientID topic =
     (let (s, topicUnsubscribed, topicRemoved) = unsubscribe_locked ordT s clientID topic
      in if \<not> topicUnsubscribed then (s, [], False)
         else (s, (if topicRemoved then [TopicRemoved topic] else []) @ [TopicUnsubscribed clientID topic], True))"

definition TopicHasSubscribers :: "('c, 't) SubscriptionManager \<Rightarrow> 't \<Rightarrow> bool" where
  "TopicHasSubscribers s topic = sm_Has (topics s) topic"

definition ClientSubscribedToTopic :: "('c, 't) SubscriptionManager \<Rightarrow> 'c \<Rightarrow> 't \<Rightarrow> bool" where
  "ClientSubscribedToTopic s clientID topic =
     (case sm_m (subscribers s) clientID of None \<Rightarrow> False | Some subscribedTopics \<Rightarrow> sm_Has subscribedTopics topic)"

definition SubscribersSize :: "('c, 't) SubscriptionManager \<Rightarrow> nat" where
  "SubscribersSize s = sm_Size (subscribers s)"

definition TopicsSize :: "('c, 't) SubscriptionManager \<Rightarrow> nat" where
  "TopicsSize s = sm_Size (topics s)"

definition TopicsSizeAll :: "(('c \<rightharpoonup> ('t, int) ShrinkingMap) \<Rightarrow> 'c list) \<Rightarrow> ('c, 't) SubscriptionManager \<Rightarrow> nat" where
  "TopicsSizeAll ordC s =
     sm_ForEach (ordC (sm_m (subscribers s))) (subscribers s) (\<lambda>count (clientID, tps). (count + sm_Size tps, True)) 0"

datatype ('c, 't) sub_op =
    OConnect 'c | ODisconnect 'c | OSubscribe 'c 't | OUnsubscribe 'c 't
  | OHasSubscribers 't | OSubscribed 'c 't | OSubscribersSize | OTopicsSize | OTopicsSizeAll

datatype ('c, 't) sub_result = RDone "('c, 't) Events list" | RBool "('c, 't) Events list" bool | RSize nat

fun sub_step ::
  "(nat \<Rightarrow> nat \<Rightarrow> bool) \<Rightarrow> (('c \<rightharpoonup> ('t, int) ShrinkingMap) \<Rightarrow> 'c list) \<Rightarrow> (('t \<rightharpoonup> int) \<Rightarrow> 't list)
     \<Rightarrow> ('c, 't) SubscriptionManager \<Rightarrow> ('c, 't) sub_op \<Rightarrow> (('c, 't) SubscriptionManager \<times> ('c, 't) sub_result) option" where
  "sub_step below10 ordC ordT s (OConnect c) = Some (map_prod id RDone (sub_Connect below10 ordC ordT s c))"
| "sub_step below10 ordC ordT s (ODisconnect c) = Some (map_prod id (case_prod RBool) (sub_Disconnect ordC ordT s c))"
| "sub_step below10 ordC ordT s (OSubscribe c t) = Some (map_prod id (case_prod RBool) (sub_Subscribe ordC ordT s c t))"
| "sub_step below10 ordC ordT s (OUnsubscribe c t) = Some (map_prod id (case_prod RBool) (sub_Unsubscribe ordT s c t))"
| "sub_step below10 ordC ordT s (OHasSubscribers t) = Some (s, RBool [] (TopicHasSubscribers s t))"
| "sub_step below10 ordC ordT s (OSubscribed c t) = Some (s, RBool [] (ClientSubscribedToTopic s c t))"
| "sub_step below10 ordC ordT s OSubscribersSize = Some (s, RSize (SubscribersSize s))"
| "sub_step below10 ordC ordT s OTopicsSize = Some (s, RSize (TopicsSize s))"
| "sub_step below10 ordC ordT s OTopicsSizeAll = Some (s, RSize (TopicsSizeAll ordC s))"

subsection \<open>Specification: the subscriptions of each client\<close>

text \<open>The specification has no global topic counts: it keeps how often each connected client subscribed to each
  topic, and a topic is there as long as somebody is subscribed.\<close>

definition subs_of :: "('t \<rightharpoonup> int) option \<Rightarrow> 't \<Rightarrow> int" where
  "subs_of m t = (case m of None \<Rightarrow> 0 | Some m \<Rightarrow> (case m t of None \<Rightarrow> 0 | Some n \<Rightarrow> n))"

definition subs_total :: "('c \<rightharpoonup> 't \<rightharpoonup> int) \<Rightarrow> 't \<Rightarrow> int" where
  "subs_total a t = (\<Sum>c \<in> dom a. subs_of (a c) t)"

definition leave :: "(('t \<rightharpoonup> int) \<Rightarrow> 't list) \<Rightarrow> ('c \<rightharpoonup> 't \<rightharpoonup> int) \<Rightarrow> 'c \<Rightarrow> ('c, 't) Events list" where
  "leave ordT a c = (case a c of None \<Rightarrow> []
     | Some m \<Rightarrow> map TopicRemoved (filter (\<lambda>t. subs_total (a(c := None)) t = 0) (ordT m))
         @ map (TopicUnsubscribed c) (concat (map (\<lambda>t. replicate (nat (subs_of (a c) t)) t) (ordT m)))
         @ [ClientDisconnected c])"

fun subs_step ::
  "(('t \<rightharpoonup> int) \<Rightarrow> 't list) \<Rightarrow> ('c \<rightharpoonup> 't \<rightharpoonup> int) \<Rightarrow> ('c, 't) sub_op \<Rightarrow> ('c \<rightharpoonup> 't \<rightharpoonup> int) \<times> ('c, 't) sub_result" where
  "subs_step ordT a (OConnect c) = (a(c \<mapsto> Map.empty), RDone (leave ordT a c @ [ClientConnected c]))"
| "subs_step ordT a (ODisconnect c) = (a(c := None), RBool (leave ordT a c) (a c \<noteq> None))"
| "subs_step ordT a (OSubscribe c t) =
     (case a c of None \<Rightarrow> (a, RBool [TopicSubscribed c t] True)
      | Some m \<Rightarrow> (a(c \<mapsto> m(t \<mapsto> subs_of (a c) t + 1)),
                   RBool ((if subs_total a t = 0 then [TopicAdded t] else []) @ [TopicSubscribed c t]) True))"
| "subs_step ordT a (OUnsubscribe c t) =
     (case a c of None \<Rightarrow> (a, RBool [] False)
      | Some m \<Rightarrow>
          (case m t of None \<Rightarrow> (a, RBool [] False)
           | Some n \<Rightarrow> (a(c \<mapsto> (if n = 1 then m(t := None) else m(t \<mapsto> n - 1))),
                        RBool ((if subs_total a t = 1 then [TopicRemoved t] else []) @ [TopicUnsubscribed c t]) True)))"
| "subs_step ordT a (OHasSubscribers t) = (a, RBool [] (\<exists>c \<in> dom a. the (a c) t \<noteq> None))"
| "subs_step ordT a (OSubscribed c t) = (a, RBool [] (\<exists>m. a c = Some m \<and> m t \<noteq> None))"
| "subs_step ordT a OSubscribersSize = (a, RSize (card (dom a)))"
| "subs_step ordT a OTopicsSize = (a, RSize (card (\<Union>c \<in> dom a. dom (the (a c)))))"
| "subs_step ordT a OTopicsSizeAll = (a, RSize (\<Sum>c \<in> dom a. card (dom (the (a c)))))"

definition subs :: "('c, 't) SubscriptionManager \<Rightarrow> 'c \<rightharpoonup> 't \<rightharpoonup> int" where
  "subs s c = map_option sm_m (sm_m (subscribers s) c)"

text \<open>The clients' own counts are positive, whatever the limit is; the global count of a topic is positive and at most
  the number of subscriptions, and with no limit it is exactly that number.\<close>

definition clients_ok :: "('c \<rightharpoonup> 't \<rightharpoonup> int) \<Rightarrow> bool" where
  "clients_ok a \<longleftrightarrow> finite (dom a) \<and> (\<forall>c m. a c = Some m \<longrightarrow> finite (dom m) \<and> (\<forall>t n. m t = Some n \<longrightarrow> 1 \<le> n))"

definition topics_bounded :: "('t \<rightharpoonup> int) \<Rightarrow> ('c \<rightharpoonup> 't \<rightharpoonup> int) \<Rightarrow> bool" where
  "topics_bounded tps a \<longleftrightarrow> (\<forall>t n. tps t = Some n \<longrightarrow> 1 \<le> n \<and> n \<le> subs_total a t)"

definition topics_exact :: "('t \<rightharpoonup> int) \<Rightarrow> ('c \<rightharpoonup> 't \<rightharpoonup> int) \<Rightarrow> bool" where
  "topics_exact tps a \<longleftrightarrow> (\<forall>t. tps t = (if subs_total a t = 0 then None else Some (subs_total a t)))"

definition below_limit :: "int \<Rightarrow> ('c \<rightharpoonup> 't \<rightharpoonup> int) \<Rightarrow> bool" where
  "below_limit n a \<longleftrightarrow> (n = 0 \<or> (\<forall>c m. a c = Some m \<longrightarrow> m = Map.empty \<or> int (card (dom m)) < n))"

definition sub_inv :: "('c, 't) SubscriptionManager \<Rightarrow> bool" where
  "sub_inv s \<longleftrightarrow> clients_ok (subs s) \<and> finite (dom (sm_m (topics s)))
     \<and> topics_bounded (sm_m (topics s)) (subs s) \<and> below_limit (maxTopicSubscriptionsPerClient s) (subs s)"

text \<open>How often the events say that a topic came and went.\<close>

fun events_of :: "('c, 't) sub_result \<Rightarrow> ('c, 't) Events list" where
  "events_of (RDone es) = es"
| "events_of (RBool es _) = es"
| "events_of (RSize _) = []"

definition came :: "'t \<Rightarrow> ('c, 't) Events list \<Rightarrow> nat" where
  "came t es = count_list es (TopicAdded t)"

definition went :: "'t \<Rightarrow> ('c, 't) Events list \<Rightarrow> nat" where
  "went t es = count_list es (TopicRemoved t)"

subsection \<open>Notions of the proofs\<close>

definition less_subs :: "('t \<rightharpoonup> int) \<Rightarrow> ('t \<rightharpoonup> int) \<Rightarrow> 't \<rightharpoonup> int" where
  "less_subs tps m t = (case tps t of None \<Rightarrow> None
     | Some n \<Rightarrow> if m t \<noteq> None \<and> n \<le> the (m t) then None else Some (n - subs_of (Some m) t))"

text \<open>What a client takes away when it leaves: the topics map, the topics that are removed and the ones that are unsubscribed.\<close>

definition topics_without :: "('t \<rightharpoonup> int) \<Rightarrow> ('t \<rightharpoonup> int) option \<Rightarrow> 't \<rightharpoonup> int" where
  "topics_without tps x = (case x of None \<Rightarrow> tps | Some m \<Rightarrow> less_subs tps m)"

definition removed_with :: "(('t \<rightharpoonup> int) \<Rightarrow> 't list) \<Rightarrow> ('t \<rightharpoonup> int) \<Rightarrow> ('t \<rightharpoonup> int) option \<Rightarrow> 't list" where
  "removed_with ordT tps x = (case x of None \<Rightarrow> [] | Some m \<Rightarrow> filter (\<lambda>t. \<exists>n. tps t = Some n \<and> n \<le> the (m t)) (ordT m))"

definition dropped_with :: "(('t \<rightharpoonup> int) \<Rightarrow> 't list) \<Rightarrow> ('t \<rightharpoonup> int) option \<Rightarrow> 't list" where
  "dropped_with ordT x = (case x of None \<Rightarrow> [] | Some m \<Rightarrow> concat (map (\<lambda>t. replicate (nat (the (m t))) t) (ordT m)))"

abbreviation leaves :: "(('t \<rightharpoonup> int) \<Rightarrow> 't list) \<Rightarrow> ('c, 't) SubscriptionManager \<Rightarrow> 'c \<Rightarrow> ('t \<rightharpoonup> int) option \<Rightarrow> ('c, 't) Events list" where
  "leaves ordT s c x \<equiv> map TopicRemoved (removed_with ordT (sm_m (topics s)) x) @ map (TopicUnsubscribed c) (dropped_with ordT x)"

definition reaches_limit :: "('c, 't) SubscriptionManager \<Rightarrow> ('t \<rightharpoonup> int) \<Rightarrow> 't \<Rightarrow> bool" where
  "reaches_limit s m t \<longleftrightarrow> m t = None \<and> maxTopicSubscriptionsPerClient s \<noteq> 0
     \<and> int (card (insert t (dom m))) \<ge> maxTopicSubscriptionsPerClient s"

definition one_more :: "('t \<rightharpoonup> int) \<Rightarrow> 't \<Rightarrow> 't \<rightharpoonup> int" where
  "one_more m t = m(t \<mapsto> subs_of (Some m) t + 1)"

definition one_less :: "('t \<rightharpoonup> int) \<Rightarrow> 't \<Rightarrow> 't \<rightharpoonup> int" where
  "one_less m t = (case m t of None \<Rightarrow> m | Some n \<Rightarrow> if n \<le> 1 then m(t := None) else m(t \<mapsto> n - 1))"

definition exact_inv :: "('c, 't) SubscriptionManager \<Rightarrow> bool" where
  "exact_inv s \<longleftrightarrow> clients_ok (subs s) \<and> finite (dom (sm_m (topics s)))
     \<and> topics_exact (sm_m (topics s)) (subs s) \<and> maxTopicSubscriptionsPerClient s = 0"

abbreviation exact_refines where
  "exact_refines below10 ordC ordT s op \<equiv> (\<exists>s'. sub_step below10 ordC ordT s op = Some (s', snd (subs_step ordT (subs s) op))
     \<and> exact_inv s' \<and> subs s' = fst (subs_step ordT (subs s) op))"

abbreviation balanced :: "'t set \<Rightarrow> ('c, 't) sub_op \<Rightarrow> 't set \<Rightarrow> ('c, 't) sub_result \<Rightarrow> bool" where
  "balanced T op T' r \<equiv> (\<forall>t. came t (events_of r) + of_bool (t \<in> T) = went t (events_of r) + of_bool (t \<in> T'))"

abbreviation limited_step where
  "limited_step below10 ordC ordT s op \<equiv> (\<exists>s' r. sub_step below10 ordC ordT s op = Some (s', r)
     \<and> balanced (dom (sm_m (topics s))) op (dom (sm_m (topics s'))) r \<and> sub_inv s'
     \<and> maxTopicSubscriptionsPerClient s' = maxTopicSubscriptionsPerClient s)"

definition unlimited_manager :: "(nat \<Rightarrow> nat \<Rightarrow> bool) \<Rightarrow> (nat \<Rightarrow> nat \<Rightarrow> bool) \<Rightarrow> int \<Rightarrow> (nat \<Rightarrow> nat \<Rightarrow> bool) option \<Rightarrow> ('c, 't) SubscriptionManager" where
  "unlimited_manager below10 below1 n r = SubscriptionManager_New below10 below1 [WithCleanupThresholdCount n, WithCleanupThresholdRatio r]"

definition limited_manager :: "(nat \<Rightarrow> nat \<Rightarrow> bool) \<Rightarrow> (nat \<Rightarrow> nat \<Rightarrow> bool) \<Rightarrow> int \<Rightarrow> int \<Rightarrow> (nat \<Rightarrow> nat \<Rightarrow> bool) option \<Rightarrow> ('c, 't) SubscriptionManager" where
  "limited_manager below10 below1 limit n r = SubscriptionManager_New below10 below1
     [WithMaxTopicSubscriptionsPerClient limit, WithCleanupThresholdCount n, WithCleanupThresholdRatio r]"

section \<open>Lemmas\<close>

subsection \<open>Counting subscriptions\<close>

lemma sm_Delete_map:
  "good_order ord \<Longrightarrow> finite (dom (sm_m s)) \<Longrightarrow> sm_m (fst (sm_Delete ord s k [])) = (sm_m s)(k := None)"
  by (simp add: sm_Delete_def sm_delete_eq sm_inv_def)

lemma total_upd:
  assumes "finite (dom a)"
  shows "subs_total (a(c := x)) t = subs_total a t - subs_of (a c) t + subs_of x t"
proof -
  have none: "subs_of None t = 0" by (simp add: subs_of_def)
  have "subs_total (a(c := x)) t = (\<Sum>d \<in> insert c (dom a). subs_of ((a(c := x)) d) t)" for x
    using assms none unfolding subs_total_def by (intro sum.mono_neutral_left) auto
  moreover have "(\<Sum>d \<in> insert c (dom a). subs_of ((a(c := x)) d) t) = subs_of x t + (\<Sum>d \<in> dom a - {c}. subs_of (a d) t)" for x
    using assms by (simp add: sum.insert_remove)
  ultimately have *: "subs_total (a(c := x)) t = subs_of x t + (\<Sum>d \<in> dom a - {c}. subs_of (a d) t)" for x by simp
  show ?thesis using * [of x] * [of "a c"] by simp
qed

lemma subs_of_simps [simp]: "subs_of None t = 0" "subs_of (Some m) t = (case m t of None \<Rightarrow> 0 | Some n \<Rightarrow> n)"
  by (simp_all add: subs_of_def)

lemma subs_of_nonneg: "clients_ok a \<Longrightarrow> 0 \<le> subs_of (a c) t"
  by (cases "a c") (force simp: clients_ok_def split: option.split)+

lemma total_nonneg: "clients_ok a \<Longrightarrow> 0 \<le> subs_total a t"
  unfolding subs_total_def by (intro sum_nonneg) (rule subs_of_nonneg)

lemma total_ge: "clients_ok a \<Longrightarrow> subs_of (a c) t \<le> subs_total a t"
  using total_upd [of a c None t] total_nonneg [of "a(c := None)" t] by (auto simp: clients_ok_def)

lemma clients_ok_upd: "clients_ok a \<Longrightarrow> (\<And>m. x = Some m \<Longrightarrow> finite (dom m) \<and> (\<forall>t n. m t = Some n \<longrightarrow> 1 \<le> n)) \<Longrightarrow> clients_ok (a(c := x))"
  by (auto simp: clients_ok_def)

lemma total_zero: "clients_ok a \<Longrightarrow> subs_total a t = 0 \<longleftrightarrow> (\<forall>c \<in> dom a. the (a c) t = None)"
proof -
  assume ok: "clients_ok a"
  then have "subs_total a t = 0 \<longleftrightarrow> (\<forall>c \<in> dom a. subs_of (a c) t = 0)"
    unfolding subs_total_def by (intro sum_nonneg_eq_0_iff subs_of_nonneg) (auto simp: clients_ok_def)
  also have "\<dots> \<longleftrightarrow> (\<forall>c \<in> dom a. the (a c) t = None)"
    using ok by (intro ball_cong) (force simp: clients_ok_def split: option.split)+
  finally show ?thesis .
qed

subsection \<open>Cleaning up a client\<close>

lemma cleanup_loop:
  assumes ord: "good_order ordT" and "distinct ks" and "set ks \<subseteq> dom m"
    and "finite (dom (sm_m T))" and "finite (dom (sm_m S))"
  shows "\<exists>T' S'. for_each (cleanup_topic ordT) (range_pairs ks m) (T, S, R, U)
      = (T', S', R @ filter (\<lambda>t. \<exists>n. sm_m T t = Some n \<and> n \<le> the (m t)) ks,
         U @ concat (map (\<lambda>t. replicate (nat (the (m t))) t) ks))
    \<and> sm_m T' = less_subs (sm_m T) (m |` set ks) \<and> finite (dom (sm_m S'))"
  using assms(2-)
proof (induction ks arbitrary: T S R U)
  case Nil
  have "sm_m T = less_subs (sm_m T) Map.empty" by (auto simp: less_subs_def fun_eq_iff split: option.split)
  with Nil show ?case by (simp add: range_pairs_def)
next
  case (Cons k ks)
  let ?S = "fst (sm_Delete ordT S k [])"
  define T1 where "T1 = (case sm_m T k of None \<Rightarrow> T | Some n \<Rightarrow> if n \<le> the (m k) then fst (sm_Delete ordT T k [])
    else fst (sm_Set T k (n - the (m k))))"
  define R1 where "R1 = R @ (if \<exists>n. sm_m T k = Some n \<and> n \<le> the (m k) then [k] else [])"
  have T1: "sm_m T1 = (sm_m T)(k := less_subs (sm_m T) m k)"
    using Cons.prems by (auto simp: T1_def less_subs_def sm_Delete_map [OF ord] split: option.split)
  have "for_each (cleanup_topic ordT) (range_pairs (k # ks) m) (T, S, R, U) =
      for_each (cleanup_topic ordT) (range_pairs ks m) (T1, ?S, R1, U @ replicate (nat (the (m k))) k)"
    by (cases "sm_m T k") (simp_all add: range_pairs_def cleanup_topic_def sm_Get_map T1_def R1_def Let_def)
  moreover have "finite (dom (sm_m T1))" "finite (dom (sm_m ?S))"
    using Cons.prems by (simp_all add: T1 sm_Delete_map [OF ord])
  ultimately obtain T' S' where res: "for_each (cleanup_topic ordT) (range_pairs (k # ks) m) (T, S, R, U)
      = (T', S', R1 @ filter (\<lambda>t. \<exists>n. sm_m T1 t = Some n \<and> n \<le> the (m t)) ks,
         (U @ replicate (nat (the (m k))) k) @ concat (map (\<lambda>t. replicate (nat (the (m t))) t) ks))"
    and T': "sm_m T' = less_subs (sm_m T1) (m |` set ks)" and "finite (dom (sm_m S'))"
    using Cons.IH [of T1 ?S R1 "U @ replicate (nat (the (m k))) k"] Cons.prems by auto
  moreover have "filter (\<lambda>t. \<exists>n. sm_m T1 t = Some n \<and> n \<le> the (m t)) ks = filter (\<lambda>t. \<exists>n. sm_m T t = Some n \<and> n \<le> the (m t)) ks"
    using Cons.prems by (intro filter_cong) (auto simp: T1)
  moreover have "sm_m T' = less_subs (sm_m T) (m |` set (k # ks))"
    using Cons.prems unfolding T' T1 by (auto simp: less_subs_def fun_eq_iff restrict_map_def split: option.split)
  ultimately show ?case by (simp add: R1_def)
qed

lemma subs_set_client [simp]: "subs (set_client s c st) = (subs s)(c \<mapsto> sm_m st)"
  by (simp add: subs_def set_client_def fun_eq_iff)

lemma set_client_simps [simp]:
  "topics (set_client s c st) = topics s"
  "maxTopicSubscriptionsPerClient (set_client s c st) = maxTopicSubscriptionsPerClient s"
  by (simp_all add: set_client_def)

lemma subs_topics [simp]: "subs (s\<lparr>topics := tps\<rparr>) = subs s"
  by (simp add: subs_def fun_eq_iff)

lemma dom_subs: "dom (subs s) = dom (sm_m (subscribers s))"
  by (auto simp: subs_def)

lemma subs_delete:
  "good_order ordC \<Longrightarrow> finite (dom (subs s)) \<Longrightarrow> subs (s\<lparr>subscribers := fst (sm_Delete ordC (subscribers s) c [])\<rparr>) = (subs s)(c := None)"
  by (simp add: dom_subs sm_Delete_map) (simp add: subs_def fun_eq_iff sm_Delete_map)

lemma client_subscribed: "ClientSubscribedToTopic s c t \<longleftrightarrow> (\<exists>m. subs s c = Some m \<and> m t \<noteq> None)"
  by (cases "sm_m (subscribers s) c") (simp_all add: ClientSubscribedToTopic_def sm_Has_def subs_def)

lemma cleanup_client:
  assumes ord: "good_order ordC" "good_order ordT" and ok: "clients_ok (subs s)" "finite (dom (sm_m (topics s)))"
  shows "\<exists>s'. cleanupClientWithoutLocking ordC ordT s c
      = (s', subs s c \<noteq> None, removed_with ordT (sm_m (topics s)) (subs s c), dropped_with ordT (subs s c))
    \<and> subs s' = (subs s)(c := None) \<and> sm_m (topics s') = topics_without (sm_m (topics s)) (subs s c)
    \<and> maxTopicSubscriptionsPerClient s' = maxTopicSubscriptionsPerClient s"
proof (cases "sm_m (subscribers s) c")
  case None
  then show ?thesis
    by (auto simp: cleanupClientWithoutLocking_def subs_def removed_with_def dropped_with_def topics_without_def)
next
  case (Some st)
  then have c: "subs s c = Some (sm_m st)" by (simp add: subs_def)
  then have fin: "finite (dom (sm_m st))" using ok(1) by (auto simp: clients_ok_def)
  then have ks: "enumerates (ordT (sm_m st)) (sm_m st)" using ord(2) by (simp add: good_orderD)
  then have "sm_m st |` set (ordT (sm_m st)) = sm_m st" 
    by (auto simp: enumerates_def restrict_map_def fun_eq_iff)
  then obtain T' S' where loop: "for_each (cleanup_topic ordT) (range_pairs (ordT (sm_m st)) (sm_m st)) (topics s, st, [], [])
      = (T', S', removed_with ordT (sm_m (topics s)) (subs s c), dropped_with ordT (subs s c))"
    and T': "sm_m T' = less_subs (sm_m (topics s)) (sm_m st)"
    using cleanup_loop [OF ord(2), of "ordT (sm_m st)" "sm_m st" "topics s" st "[]" "[]"] ks ok(2) fin
    by (auto simp: enumerates_def removed_with_def dropped_with_def c)
  let ?s = "(set_client s c S')\<lparr>topics := T'\<rparr>"
  have "finite (dom (subs ?s))" using ok(1) by (simp add: clients_ok_def)
  from subs_delete [OF ord(1) this, of c] loop T' c Some show ?thesis
    by (auto simp: cleanupClientWithoutLocking_def sm_ForEach_def Let_def topics_without_def)
qed

subsection \<open>Effects of the operations\<close>

lemma connect_effect:
  assumes "good_order ordC" "good_order ordT" "clients_ok (subs s)" "finite (dom (sm_m (topics s)))"
  shows "\<exists>s'. sub_Connect below10 ordC ordT s c = (s', leaves ordT s c (subs s c)
        @ (if subs s c \<noteq> None then [ClientDisconnected c] else []) @ [ClientConnected c])
    \<and> subs s' = (subs s)(c \<mapsto> Map.empty) \<and> sm_m (topics s') = topics_without (sm_m (topics s)) (subs s c)
    \<and> maxTopicSubscriptionsPerClient s' = maxTopicSubscriptionsPerClient s"
  using cleanup_client [OF assms, of c]
  by (auto simp: sub_Connect_def Let_def removed_with_def dropped_with_def)

lemma disconnect_effect:
  assumes "good_order ordC" "good_order ordT" "clients_ok (subs s)" "finite (dom (sm_m (topics s)))"
  shows "\<exists>s'. sub_Disconnect ordC ordT s c = (s', leaves ordT s c (subs s c)
        @ (if subs s c \<noteq> None then [ClientDisconnected c] else []), subs s c \<noteq> None)
    \<and> subs s' = (subs s)(c := None) \<and> sm_m (topics s') = topics_without (sm_m (topics s)) (subs s c)
    \<and> maxTopicSubscriptionsPerClient s' = maxTopicSubscriptionsPerClient s"
  using cleanup_client [OF assms, of c]
  by (auto simp: sub_Disconnect_def Let_def removed_with_def dropped_with_def)

text \<open>A subscription of a client that is not connected changes nothing, and is nevertheless announced.\<close>

lemma subscribe_unconnected:
  "subs s c = None \<Longrightarrow> sub_Subscribe ordC ordT s c t = (s, [TopicSubscribed c t], True)"
  by (simp add: sub_Subscribe_def subscribe_locked_def subs_def)

lemma subscribe_effect:
  fixes t :: 'a
  assumes c: "subs s c = Some m" and lim: "\<not> reaches_limit s m t"
  shows "\<exists>s'. sub_Subscribe ordC ordT s c t
      = (s', (if sm_m (topics s) t = None then [TopicAdded t] else []) @ [TopicSubscribed c t], True)
    \<and> subs s' = (subs s)(c \<mapsto> one_more m t) \<and> sm_m (topics s') = one_more (sm_m (topics s)) t
    \<and> maxTopicSubscriptionsPerClient s' = maxTopicSubscriptionsPerClient s"
proof -
  from c obtain st where st: "sm_m (subscribers s) c = Some st" "sm_m st = m" by (auto simp: subs_def)
  have "dom (one_more m t) = insert t (dom m)" by (auto simp: one_more_def)
  then show ?thesis using lim st
    by (cases "sm_m st t"; cases "sm_m (topics s) t")
      (auto simp: sub_Subscribe_def subscribe_locked_def sm_Size_def map_len_def reaches_limit_def sm_Get_map one_more_def)
qed

lemma subscribe_dropped:
  assumes ord: "good_order ordC" "good_order ordT" and ok: "clients_ok (subs s)" "finite (dom (sm_m (topics s)))"
    and c: "subs s c = Some m" and lim: "reaches_limit s m t"
  shows "\<exists>s'. sub_Subscribe ordC ordT s c t
      = (s', leaves ordT s c (Some (one_more m t)) @ [DropClient c, ClientDisconnected c], False)
    \<and> subs s' = (subs s)(c := None) \<and> sm_m (topics s') = topics_without (sm_m (topics s)) (Some (one_more m t))
    \<and> maxTopicSubscriptionsPerClient s' = maxTopicSubscriptionsPerClient s"
proof -
  from c obtain st where st: "sm_m (subscribers s) c = Some st" "sm_m st = m" by (auto simp: subs_def)
  let ?st = "fst (sm_Set st t 1)"
  have new: "sm_m ?st = one_more m t" using lim st by (simp add: one_more_def reaches_limit_def)
  have "clients_ok (subs (set_client s c ?st))" using ok(1) lim c st
    by (auto intro!: clients_ok_upd simp: clients_ok_def)
  from cleanup_client [OF ord this, of c] ok(2) new
  obtain s' where s': "cleanupClientWithoutLocking ordC ordT (set_client s c ?st) c
      = (s', True, removed_with ordT (sm_m (topics s)) (Some (one_more m t)), dropped_with ordT (Some (one_more m t)))"
    and "subs s' = (subs s)(c := None)" "sm_m (topics s') = topics_without (sm_m (topics s)) (Some (one_more m t))"
    "maxTopicSubscriptionsPerClient s' = maxTopicSubscriptionsPerClient s" by auto
  moreover have "dom (one_more m t) = insert t (dom m)" by (auto simp: one_more_def)
  then have "sub_Subscribe ordC ordT s c t
      = (s', leaves ordT s c (Some (one_more m t)) @ [DropClient c, ClientDisconnected c], False)"
    using lim st new s' by (simp add: sub_Subscribe_def subscribe_locked_def sm_Get_map reaches_limit_def sm_Size_def map_len_def)
  ultimately show ?thesis by blast
qed

lemma unsubscribe_effect:
  assumes ord: "good_order ordT" and ok: "clients_ok (subs s)" "finite (dom (sm_m (topics s)))"
  shows "\<exists>s'. sub_Unsubscribe ordT s c t
      = (case subs s c of None \<Rightarrow> (s, [], False) | Some m \<Rightarrow>
         if m t = None then (s, [], False)
         else (s', (if \<exists>n. sm_m (topics s) t = Some n \<and> n \<le> 1 then [TopicRemoved t] else []) @ [TopicUnsubscribed c t], True))
    \<and> (\<forall>m. subs s c = Some m \<longrightarrow> m t \<noteq> None \<longrightarrow>
        subs s' = (subs s)(c \<mapsto> one_less m t) \<and> sm_m (topics s') = one_less (sm_m (topics s)) t
        \<and> maxTopicSubscriptionsPerClient s' = maxTopicSubscriptionsPerClient s)"
proof (cases "sm_m (subscribers s) c")
  case None
  then show ?thesis by (auto simp: sub_Unsubscribe_def unsubscribe_locked_def subs_def)
next
  case (Some st)
  then have c: "subs s c = Some (sm_m st)" by (simp add: subs_def)
  then have fin: "finite (dom (sm_m st))" using ok(1) by (auto simp: clients_ok_def)
  show ?thesis
  proof (cases "sm_m st t")
    case None
    with Some c show ?thesis by (auto simp: sub_Unsubscribe_def unsubscribe_locked_def)
  next
    case (Some k)
    with \<open>sm_m (subscribers s) c = Some st\<close> c show ?thesis
      by (cases "sm_m (topics s) t")
        (auto simp: sub_Unsubscribe_def unsubscribe_locked_def Let_def one_less_def sm_Delete_map [OF ord] fin ok(2))
  qed
qed

subsection \<open>The counts of the topics\<close>

lemma topics_without_at:
  assumes "finite (dom a)"
  shows "topics_without tps (a c) t = (case tps t of None \<Rightarrow> None
      | Some n \<Rightarrow> if a c \<noteq> None \<and> the (a c) t \<noteq> None \<and> n \<le> subs_of (a c) t then None else Some (n - subs_of (a c) t))"
  and "subs_total (a(c := None)) t = subs_total a t - subs_of (a c) t"
  using total_upd [OF assms, of c None t]
  by (auto simp: topics_without_def less_subs_def split: option.split)

lemma bounded_without:
  assumes "finite (dom a)" and "topics_bounded tps a"
  shows "topics_bounded (topics_without tps (a c)) (a(c := None))"
  unfolding topics_bounded_def
proof (intro allI impI)
  fix t n
  assume "topics_without tps (a c) t = Some n"
  then obtain k where k: "tps t = Some k" "n = k - subs_of (a c) t" "a c = None \<or> the (a c) t = None \<or> k > subs_of (a c) t"
    by (auto simp: topics_without_at [OF assms(1)] split: option.splits if_splits)
  then have "1 \<le> k" "k \<le> subs_total a t" using assms(2) by (auto simp: topics_bounded_def)
  with k show "1 \<le> n \<and> n \<le> subs_total (a(c := None)) t"
    by (cases "a c") (auto simp: topics_without_at [OF assms(1)] split: option.split)
qed

lemma exact_without:
  assumes "clients_ok a" and "topics_exact tps a"
  shows "topics_exact (topics_without tps (a c)) (a(c := None))"
  unfolding topics_exact_def
proof
  fix t
  have fin: "finite (dom a)" using assms(1) by (simp add: clients_ok_def)
  have tps: "tps t = (if subs_total a t = 0 then None else Some (subs_total a t))" using assms(2) by (simp add: topics_exact_def)
  have "subs_of (a c) t \<le> subs_total a t" "0 \<le> subs_of (a c) t" by (rule total_ge [OF assms(1)], rule subs_of_nonneg [OF assms(1)])
  moreover have "subs_of (a c) t = 0" if "a c = None \<or> the (a c) t = None" using that by (cases "a c") auto
  ultimately show "topics_without tps (a c) t = (if subs_total (a(c := None)) t = 0 then None else Some (subs_total (a(c := None)) t))"
    by (auto simp: topics_without_at [OF fin] tps)
qed

lemma one_more_counts: "subs_of (Some (one_more m t)) u = subs_of (Some m) u + (if u = t then 1 else 0)"
  by (simp add: one_more_def split: option.split)

lemma one_less_counts: "m t = Some n \<Longrightarrow> 1 \<le> n \<Longrightarrow> subs_of (Some (one_less m t)) u = subs_of (Some m) u - (if u = t then 1 else 0)"
  by (simp add: one_less_def split: option.split)

lemma total_more: "finite (dom a) \<Longrightarrow> a c = Some m \<Longrightarrow> subs_total (a(c \<mapsto> one_more m t)) u = subs_total a u + (if u = t then 1 else 0)"
  by (simp only: total_upd one_more_counts)

lemma total_less:
  "finite (dom a) \<Longrightarrow> a c = Some m \<Longrightarrow> m t = Some n \<Longrightarrow> 1 \<le> n \<Longrightarrow> subs_total (a(c \<mapsto> one_less m t)) u = subs_total a u - (if u = t then 1 else 0)"
  by (simp only: total_upd one_less_counts)

lemma bounded_more:
  assumes "clients_ok a" "a c = Some m" "topics_bounded tps a"
  shows "topics_bounded (one_more tps t) (a(c \<mapsto> one_more m t))"
  using assms total_nonneg [OF assms(1), of t]
  by (force simp: topics_bounded_def one_more_def [of tps] total_more clients_ok_def split: option.split if_splits)

lemma bounded_less:
  assumes "clients_ok a" "a c = Some m" "m t = Some n" "topics_bounded tps a"
  shows "topics_bounded (one_less tps t) (a(c \<mapsto> one_less m t))"
proof -
  have "finite (dom a)" "1 \<le> n" using assms by (auto simp: clients_ok_def)
  with assms(2-4) show ?thesis
    by (force simp: topics_bounded_def one_less_def [of tps] total_less split: option.splits if_splits)
qed

lemma exact_bounded: "clients_ok a \<Longrightarrow> topics_exact tps a \<Longrightarrow> topics_bounded tps a"
  using total_nonneg [of a] by (auto simp: topics_exact_def topics_bounded_def order.strict_iff_order int_one_le_iff_zero_less split: if_splits)

lemma exact_more:
  assumes "clients_ok a" "a c = Some m" "topics_exact tps a"
  shows "topics_exact (one_more tps t) (a(c \<mapsto> one_more m t))"
proof -
  have "finite (dom a)" "0 \<le> subs_total a t" using assms(1) total_nonneg [OF assms(1)] by (simp_all add: clients_ok_def)
  with assms(2-3) show ?thesis by (auto simp: topics_exact_def one_more_def [of tps] total_more)
qed

lemma exact_less:
  assumes "clients_ok a" "a c = Some m" "m t = Some n" "topics_exact tps a"
  shows "topics_exact (one_less tps t) (a(c \<mapsto> one_less m t))"
proof -
  have n: "finite (dom a)" "1 \<le> n" using assms by (auto simp: clients_ok_def)
  moreover have "n \<le> subs_total a t" using total_ge [OF assms(1), of c t] assms(2,3) by simp
  ultimately show ?thesis using assms(2-4) by (auto simp: topics_exact_def one_less_def [of tps] total_less)
qed

lemma clients_ok_more: "clients_ok a \<Longrightarrow> a c = Some m \<Longrightarrow> clients_ok (a(c \<mapsto> one_more m t))"
  by (rule clients_ok_upd) (force simp: clients_ok_def one_more_def split: option.split if_splits)+

lemma clients_ok_less: "clients_ok a \<Longrightarrow> a c = Some m \<Longrightarrow> clients_ok (a(c \<mapsto> one_less m t))"
  by (rule clients_ok_upd) (force simp: clients_ok_def one_less_def split: option.split if_splits)+

lemma finite_topics:
  "finite (dom tps) \<Longrightarrow> finite (dom (topics_without tps x))"
  "finite (dom tps) \<Longrightarrow> finite (dom (one_more tps t))"
  "finite (dom tps) \<Longrightarrow> finite (dom (one_less tps t))"
proof -
  assume fin: "finite (dom tps)"
  have "dom (topics_without tps x) \<subseteq> dom tps"
    by (auto simp: topics_without_def less_subs_def split: option.splits if_splits)
  then show "finite (dom (topics_without tps x))" using fin by (rule finite_subset)
  show "finite (dom (one_more tps t))" "finite (dom (one_less tps t))"
    using fin by (simp_all add: one_more_def one_less_def split: option.split)
qed

subsection \<open>No limit: the global counts are exact\<close>

lemma removed_exact:
  assumes ord: "good_order ordT" and ok: "clients_ok a" and ex: "topics_exact tps a" and c: "a c = Some m"
  shows "removed_with ordT tps (a c) = filter (\<lambda>t. subs_total (a(c := None)) t = 0) (ordT m)"
proof -
  have "(\<exists>n. tps t = Some n \<and> n \<le> the (m t)) \<longleftrightarrow> subs_total (a(c := None)) t = 0" if t: "t \<in> set (ordT m)" for t
  proof -
    have "finite (dom m)" using ok c by (auto simp: clients_ok_def)
    with t obtain k where k: "m t = Some k" using good_orderD [OF ord, of m] by (auto simp: enumerates_def)
    then have "1 \<le> k" using ok c by (auto simp: clients_ok_def)
    moreover have "k \<le> subs_total a t" using total_ge [OF ok, of c t] c k by simp
    moreover have "subs_total (a(c := None)) t = subs_total a t - k" using total_upd [of a c None t] ok c k by (simp add: clients_ok_def)
    ultimately show ?thesis using ex k by (auto simp: topics_exact_def)
  qed
  then show ?thesis by (simp add: removed_with_def c cong: filter_cong)
qed

lemma leave_exact:
  assumes "good_order ordT" "clients_ok (subs s)" "topics_exact (sm_m (topics s)) (subs s)"
  shows "leaves ordT s c (subs s c) @ (if subs s c \<noteq> None then [ClientDisconnected c] else []) = leave ordT (subs s) c"
proof (cases "subs s c")
  case None
  then show ?thesis by (simp add: leave_def removed_with_def dropped_with_def)
next
  case (Some m)
  have "finite (dom m)" using assms(2) Some by (auto simp: clients_ok_def)
  then have "set (ordT m) = dom m" using assms(1) by (simp add: good_orderD [unfolded enumerates_def])
  then have "dropped_with ordT (Some m) = concat (map (\<lambda>t. replicate (nat (subs_of (Some m) t)) t) (ordT m))"
    by (force simp: dropped_with_def intro!: arg_cong [where f = concat] split: option.split)
  with Some removed_exact [OF assms(1-3) Some] show ?thesis by (simp add: leave_def)
qed

lemma topics_dom_exact: "clients_ok a \<Longrightarrow> topics_exact tps a \<Longrightarrow> tps t \<noteq> None \<longleftrightarrow> (\<exists>c \<in> dom a. the (a c) t \<noteq> None)"
  using total_zero [of a t] by (simp add: topics_exact_def)

lemma size_all:
  assumes "good_order ordC" and "clients_ok (subs s)"
  shows "TopicsSizeAll ordC s = (\<Sum>c \<in> dom (subs s). card (dom (the (subs s c))))"
proof -
  let ?m = "sm_m (subscribers s)"
  have ks: "distinct (ordC ?m)" "set (ordC ?m) = dom ?m"
    using assms good_orderD [of ordC ?m] by (simp_all add: enumerates_def dom_subs [symmetric] clients_ok_def)
  have "for_each (\<lambda>count (clientID, tps). (count + sm_Size tps, True)) xs n = n + sum_list (map (\<lambda>x. sm_Size (snd x)) xs)"
    for xs :: "('a \<times> ('b, int) ShrinkingMap) list" and n
    by (induction xs arbitrary: n) (simp_all add: case_prod_beta)
  then have "TopicsSizeAll ordC s = sum_list (map (\<lambda>c. sm_Size (the (?m c))) (ordC ?m))"
    by (simp add: TopicsSizeAll_def sm_ForEach_def range_pairs_def comp_def)
  also have "\<dots> = (\<Sum>c \<in> dom ?m. sm_Size (the (?m c)))" using ks by (simp add: sum_list_distinct_conv_sum_set)
  also have "\<dots> = (\<Sum>c \<in> dom (subs s). card (dom (the (subs s c))))"
    unfolding dom_subs by (intro sum.cong) (auto simp: subs_def sm_Size_def map_len_def)
  finally show ?thesis .
qed

lemma exact_leave:
  assumes ord: "good_order ordC" "good_order ordT" and ok: "clients_ok (subs s)" "finite (dom (sm_m (topics s)))"
    and ex: "topics_exact (sm_m (topics s)) (subs s)" and lim: "maxTopicSubscriptionsPerClient s = 0"
  shows "exact_refines below10 ordC ordT s (OConnect c)" and "exact_refines below10 ordC ordT s (ODisconnect c)"
proof -
  have fin: "finite (dom (subs s))" using ok(1) by (simp add: clients_ok_def)
  note lv = leave_exact [OF ord(2) ok(1) ex]
  have wo: "topics_exact (topics_without (sm_m (topics s)) (subs s c)) ((subs s)(c := None))" for c
    by (rule exact_without [OF ok(1) ex])
  obtain s' where s': "sub_Connect below10 ordC ordT s c = (s', leave ordT (subs s) c @ [ClientConnected c])"
    "subs s' = (subs s)(c \<mapsto> Map.empty)" "sm_m (topics s') = topics_without (sm_m (topics s)) (subs s c)"
    "maxTopicSubscriptionsPerClient s' = 0"
    using connect_effect [OF ord ok, of below10 c] lim lv [of c] by (auto simp flip: append_assoc)
  have "subs_total ((subs s)(c := None)) = subs_total ((subs s)(c \<mapsto> Map.empty))" by (simp add: fun_eq_iff total_upd [OF fin])
  then have "topics_exact (sm_m (topics s')) (subs s')" using wo [of c] by (simp add: topics_exact_def s')
  with s' show "exact_refines below10 ordC ordT s (OConnect c)"
    using clients_ok_upd [OF ok(1), of "Some Map.empty" c] finite_topics(1) [OF ok(2)] by (simp add: exact_inv_def)
  obtain s' where "sub_Disconnect ordC ordT s c = (s', leave ordT (subs s) c, subs s c \<noteq> None)"
    "subs s' = (subs s)(c := None)" "sm_m (topics s') = topics_without (sm_m (topics s)) (subs s c)"
    "maxTopicSubscriptionsPerClient s' = 0"
    using disconnect_effect [OF ord ok, of c] lim lv [of c] by auto
  then show "exact_refines below10 ordC ordT s (ODisconnect c)"
    using wo clients_ok_upd [OF ok(1), of None c] finite_topics(1) [OF ok(2)] by (simp add: exact_inv_def)
qed

lemma exact_subscribe:
  assumes inv: "exact_inv s"
  shows "exact_refines below10 ordC ordT s (OSubscribe c t)"
proof (cases "subs s c")
  case None
  then show ?thesis using inv by (simp add: subscribe_unconnected)
next
  case (Some m)
  from inv have ok: "clients_ok (subs s)" "finite (dom (sm_m (topics s)))" and ex: "topics_exact (sm_m (topics s)) (subs s)"
    and lim: "maxTopicSubscriptionsPerClient s = 0" by (simp_all add: exact_inv_def)
  have "\<not> reaches_limit s m t" using lim by (simp add: reaches_limit_def)
  from subscribe_effect [OF Some this, of ordC ordT] obtain s' where "sub_Subscribe ordC ordT s c t
      = (s', (if sm_m (topics s) t = None then [TopicAdded t] else []) @ [TopicSubscribed c t], True)"
    "subs s' = (subs s)(c \<mapsto> one_more m t)" "sm_m (topics s') = one_more (sm_m (topics s)) t"
    "maxTopicSubscriptionsPerClient s' = 0" using lim by auto
  moreover have "sm_m (topics s) t = None \<longleftrightarrow> subs_total (subs s) t = 0" using ex by (simp add: topics_exact_def)
  ultimately show ?thesis
    using exact_more [OF ok(1) Some ex, of t] clients_ok_more [OF ok(1) Some, of t] finite_topics(2) [OF ok(2), of t] Some
    by (simp add: exact_inv_def) (simp add: one_more_def)
qed

lemma exact_unsubscribe:
  assumes ord: "good_order ordT" and inv: "exact_inv s"
  shows "exact_refines below10 ordC ordT s (OUnsubscribe c t)"
proof -
  from inv have ok: "clients_ok (subs s)" "finite (dom (sm_m (topics s)))" and ex: "topics_exact (sm_m (topics s)) (subs s)"
    and lim: "maxTopicSubscriptionsPerClient s = 0" by (simp_all add: exact_inv_def)
  show ?thesis
  proof (cases "\<exists>m n. subs s c = Some m \<and> m t = Some n")
    case False
    then show ?thesis using inv unsubscribe_effect [OF ord ok, of c t]
      by (cases "subs s c") auto
  next
    case True
    then obtain m n where m: "subs s c = Some m" "m t = Some n" by blast
    then have n: "1 \<le> n" using ok(1) by (auto simp: clients_ok_def)
    moreover have "n \<le> subs_total (subs s) t" using total_ge [OF ok(1), of c t] m by simp
    ultimately have "(\<exists>n. sm_m (topics s) t = Some n \<and> n \<le> 1) \<longleftrightarrow> subs_total (subs s) t = 1" using ex by (auto simp: topics_exact_def)
    then obtain s' where "sub_Unsubscribe ordT s c t
        = (s', (if subs_total (subs s) t = 1 then [TopicRemoved t] else []) @ [TopicUnsubscribed c t], True)"
      "subs s' = (subs s)(c \<mapsto> one_less m t)" "sm_m (topics s') = one_less (sm_m (topics s)) t"
      "maxTopicSubscriptionsPerClient s' = 0"
      using unsubscribe_effect [OF ord ok, of c t] m lim by auto
    then show ?thesis
      using exact_less [OF ok(1) m ex] clients_ok_less [OF ok(1) m(1), of t] finite_topics(3) [OF ok(2), of t] m n
      by (simp add: exact_inv_def) (simp add: one_less_def)
  qed
qed

lemma exact_step:
  assumes ord: "good_order ordC" "good_order ordT" and inv: "exact_inv s"
  shows "exact_refines below10 ordC ordT s op"
proof -
  from inv have ok: "clients_ok (subs s)" "finite (dom (sm_m (topics s)))" and ex: "topics_exact (sm_m (topics s)) (subs s)"
    and lim: "maxTopicSubscriptionsPerClient s = 0" by (simp_all add: exact_inv_def)
  note dom = topics_dom_exact [OF ok(1) ex]
  show ?thesis
  proof (cases op)
    case (OConnect c)
    then show ?thesis using exact_leave(1) [OF ord ok ex lim] by simp
  next
    case (ODisconnect c)
    then show ?thesis using exact_leave(2) [OF ord ok ex lim] by simp
  next
    case (OSubscribe c t)
    then show ?thesis using exact_subscribe [OF inv] by simp
  next
    case (OUnsubscribe c t)
    then show ?thesis using exact_unsubscribe [OF ord(2) inv] by simp
  next
    case (OHasSubscribers t)
    then show ?thesis using inv dom [of t] by (simp add: TopicHasSubscribers_def sm_Has_def)
  next
    case OTopicsSize
    have "x \<in> dom (sm_m (topics s)) \<longleftrightarrow> x \<in> (\<Union>c \<in> dom (subs s). dom (the (subs s c)))" for x
      using dom [of x] by (simp add: domIff)
    then have "dom (sm_m (topics s)) = (\<Union>c \<in> dom (subs s). dom (the (subs s c)))" by (rule set_eqI)
    then show ?thesis using inv by (simp add: OTopicsSize TopicsSize_def sm_Size_def map_len_def)
  next
    case (OSubscribed c t)
    then show ?thesis using inv by (simp add: client_subscribed)
  qed (use inv size_all [OF ord(1) ok(1)] in
      \<open>simp_all add: SubscribersSize_def sm_Size_def map_len_def dom_subs\<close>)
qed

interpretation subscriptions: data_refinement
  "sub_step below10 (ordC :: ('c \<rightharpoonup> ('t, int) ShrinkingMap) \<Rightarrow> 'c list) ordT" "subs_step ordT" subs
  "\<lambda>s. good_order ordC \<and> good_order ordT \<and> exact_inv s"
proof
  fix s :: "('c, 't) SubscriptionManager" and op
  assume "good_order ordC \<and> good_order ordT \<and> exact_inv s"
  then show "\<exists>s'. sub_step below10 ordC ordT s op = Some (s', snd (subs_step ordT (subs s) op))
      \<and> (good_order ordC \<and> good_order ordT \<and> exact_inv s') \<and> subs s' = fst (subs_step ordT (subs s) op)"
    using exact_step [of ordC ordT s below10 op] by simp
qed

subsection \<open>Any limit\<close>

lemma count_events [simp]:
  "count_list (map TopicRemoved xs) (TopicRemoved t) = count_list xs t"
  "count_list (map TopicRemoved xs) (TopicAdded t) = 0"
  "count_list (map (TopicUnsubscribed c) xs) (TopicAdded t) = 0"
  "count_list (map (TopicUnsubscribed c) xs) (TopicRemoved t) = 0"
  by (induction xs) simp_all

lemma count_list_distinct: "distinct xs \<Longrightarrow> count_list xs x = (if x \<in> set xs then 1 else 0)"
  by (induction xs) auto

lemma removed_balance:
  assumes "good_order ordT" and "\<And>m. x = Some m \<Longrightarrow> finite (dom m)"
  shows "of_bool (t \<in> dom tps) = count_list (removed_with ordT tps x) t + of_bool (t \<in> dom (topics_without tps x))"
proof (cases x)
  case None
  then show ?thesis by (simp add: removed_with_def topics_without_def)
next
  case (Some m)
  have "distinct (ordT m)" "set (ordT m) = dom m"
    using good_orderD [OF assms(1) assms(2) [OF Some]] by (simp_all add: enumerates_def)
  then show ?thesis using Some
    by (auto simp: removed_with_def count_list_distinct topics_without_def less_subs_def split: option.split)
qed

lemma balanced_run:
  "allowed_run balanced T ops rs T' \<Longrightarrow>
     came t (concat (map events_of rs)) + of_bool (t \<in> T) = went t (concat (map events_of rs)) + of_bool (t \<in> T')"
proof (induction rule: allowed_run.induct)
  case (allowed_cons T op T1 r ops rs T2)
  from allowed_cons.hyps(1) have "came t (events_of r) + of_bool (t \<in> T) = went t (events_of r) + of_bool (t \<in> T1)" ..
  with allowed_cons.IH show ?case by (simp add: came_def went_def)
qed (simp add: came_def went_def)

lemma below_limit_upd:
  "below_limit n a \<Longrightarrow> (\<And>m. x = Some m \<Longrightarrow> n = 0 \<or> m = Map.empty \<or> int (card (dom m)) < n) \<Longrightarrow> below_limit n (a(c := x))"
  by (auto simp: below_limit_def)

lemma below_limitD: "below_limit l a \<Longrightarrow> a c = Some m \<Longrightarrow> m t = Some n \<Longrightarrow> l = 0 \<or> int (card (dom m)) < l"
  by (force simp: below_limit_def)

lemma limited_leave:
  assumes ord: "good_order ordC" "good_order ordT" and inv: "sub_inv s"
  shows "limited_step below10 ordC ordT s (OConnect c)" and "limited_step below10 ordC ordT s (ODisconnect c)"
proof -
  from inv have ok: "clients_ok (subs s)" "finite (dom (sm_m (topics s)))" and bd: "topics_bounded (sm_m (topics s)) (subs s)"
    and lim: "below_limit (maxTopicSubscriptionsPerClient s) (subs s)" by (simp_all add: sub_inv_def)
  have fin: "finite (dom (subs s))" using ok(1) by (simp add: clients_ok_def)
  have "\<And>m. subs s c = Some m \<Longrightarrow> finite (dom m)" using ok(1) by (auto simp: clients_ok_def)
  note bal = removed_balance [OF ord(2), where x = "subs s c" and tps = "sm_m (topics s)", OF this]
  have wo: "topics_bounded (topics_without (sm_m (topics s)) (subs s c)) ((subs s)(c := None))"
    by (rule bounded_without [OF fin bd])
  have "subs_total ((subs s)(c := None)) = subs_total ((subs s)(c \<mapsto> Map.empty))" by (simp add: fun_eq_iff total_upd [OF fin])
  then have wo': "topics_bounded (topics_without (sm_m (topics s)) (subs s c)) ((subs s)(c \<mapsto> Map.empty))"
    using wo by (simp add: topics_bounded_def)
  from connect_effect [OF ord ok, of below10 c] obtain s' where
    s': "sub_Connect below10 ordC ordT s c = (s', leaves ordT s c (subs s c)
        @ (if subs s c \<noteq> None then [ClientDisconnected c] else []) @ [ClientConnected c])"
    "subs s' = (subs s)(c \<mapsto> Map.empty)" "sm_m (topics s') = topics_without (sm_m (topics s)) (subs s c)"
    "maxTopicSubscriptionsPerClient s' = maxTopicSubscriptionsPerClient s" by blast
  have "sub_inv s'" using wo' clients_ok_upd [OF ok(1), of "Some Map.empty" c] finite_topics(1) [OF ok(2)]
    below_limit_upd [OF lim, of "Some Map.empty" c] by (simp add: sub_inv_def s')
  then show "limited_step below10 ordC ordT s (OConnect c)" by (simp add: came_def went_def bal s')
  from disconnect_effect [OF ord ok, of c] obtain s' where
    s': "sub_Disconnect ordC ordT s c = (s', leaves ordT s c (subs s c)
        @ (if subs s c \<noteq> None then [ClientDisconnected c] else []), subs s c \<noteq> None)"
    "subs s' = (subs s)(c := None)" "sm_m (topics s') = topics_without (sm_m (topics s)) (subs s c)"
    "maxTopicSubscriptionsPerClient s' = maxTopicSubscriptionsPerClient s" by blast
  have "sub_inv s'" using wo clients_ok_upd [OF ok(1), of None c] finite_topics(1) [OF ok(2)]
    below_limit_upd [OF lim, of None c] by (simp add: sub_inv_def s')
  then show "limited_step below10 ordC ordT s (ODisconnect c)" by (simp add: came_def went_def bal s')
qed

lemma limited_subscribe:
  assumes ord: "good_order ordC" "good_order ordT" and inv: "sub_inv s"
  shows "limited_step below10 ordC ordT s (OSubscribe c t)"
proof (cases "subs s c")
  case None
  then show ?thesis using inv by (simp add: subscribe_unconnected came_def went_def)
next
  case (Some m)
  from inv have ok: "clients_ok (subs s)" "finite (dom (sm_m (topics s)))" and bd: "topics_bounded (sm_m (topics s)) (subs s)"
    and lim: "below_limit (maxTopicSubscriptionsPerClient s) (subs s)" by (simp_all add: sub_inv_def)
  have fin: "finite (dom (subs s))" and finm: "finite (dom m)" using ok(1) Some by (auto simp: clients_ok_def)
  have dom: "dom (one_more x t) = insert t (dom x)" for x :: "'b \<rightharpoonup> int" by (auto simp: one_more_def)
  show ?thesis
  proof (cases "reaches_limit s m t")
    case True
    let ?a = "(subs s)(c \<mapsto> one_more m t)"
    from subscribe_dropped [OF ord ok Some True] obtain s' where s': "sub_Subscribe ordC ordT s c t
      = (s', leaves ordT s c (Some (one_more m t)) @ [DropClient c, ClientDisconnected c], False)"
      "subs s' = (subs s)(c := None)" "sm_m (topics s') = topics_without (sm_m (topics s)) (Some (one_more m t))"
      "maxTopicSubscriptionsPerClient s' = maxTopicSubscriptionsPerClient s" by blast
    have "topics_bounded (sm_m (topics s)) ?a" using bd by (fastforce simp: topics_bounded_def total_more [OF fin Some])
    from bounded_without [OF _ this, of c] have "topics_bounded (sm_m (topics s')) (subs s')" using fin by (simp add: s')
    then have "sub_inv s'" using clients_ok_upd [OF ok(1), of None c] finite_topics(1) [OF ok(2)] below_limit_upd [OF lim, of None c]
      by (simp add: sub_inv_def s')
    moreover have "of_bool (u \<in> dom (sm_m (topics s)))
        = count_list (removed_with ordT (sm_m (topics s)) (Some (one_more m t))) u + (of_bool (u \<in> dom (sm_m (topics s'))) :: nat)" for u
      unfolding s' by (rule removed_balance [OF ord(2)]) (simp add: dom finm)
    ultimately show ?thesis by (simp add: s' came_def went_def)
  next
    case False
    from subscribe_effect [OF Some False, of ordC ordT] obtain s' where s': "sub_Subscribe ordC ordT s c t
        = (s', (if sm_m (topics s) t = None then [TopicAdded t] else []) @ [TopicSubscribed c t], True)"
      "subs s' = (subs s)(c \<mapsto> one_more m t)" "sm_m (topics s') = one_more (sm_m (topics s)) t"
      "maxTopicSubscriptionsPerClient s' = maxTopicSubscriptionsPerClient s" by blast
    have "below_limit (maxTopicSubscriptionsPerClient s) (subs s')" unfolding s'(2)
    proof (rule below_limit_upd [OF lim])
      fix m' assume "Some (one_more m t) = Some m'"
      then show "maxTopicSubscriptionsPerClient s = 0 \<or> m' = Map.empty \<or> int (card (dom m')) < maxTopicSubscriptionsPerClient s"
        using False below_limitD [OF lim Some, of t] by (cases "m t") (auto simp: dom reaches_limit_def insert_absorb domI)
    qed
    then have "sub_inv s'" using bounded_more [OF ok(1) Some bd, of t] clients_ok_more [OF ok(1) Some, of t] finite_topics(2) [OF ok(2), of t]
      by (simp add: sub_inv_def s')
    then show ?thesis using s' by (auto simp: came_def went_def dom)
  qed
qed

lemma limited_unsubscribe:
  assumes ord: "good_order ordT" and inv: "sub_inv s"
  shows "limited_step below10 ordC ordT s (OUnsubscribe c t)"
proof (cases "\<exists>m n. subs s c = Some m \<and> m t = Some n")
  case False
  then show ?thesis using inv unsubscribe_effect [OF ord, of s c t]
    by (cases "subs s c") (auto simp: sub_inv_def came_def went_def)
next
  case True
  then obtain m n where m: "subs s c = Some m" "m t = Some n" by blast
  from inv have ok: "clients_ok (subs s)" "finite (dom (sm_m (topics s)))" and bd: "topics_bounded (sm_m (topics s)) (subs s)"
    and lim: "below_limit (maxTopicSubscriptionsPerClient s) (subs s)" by (simp_all add: sub_inv_def)
  from unsubscribe_effect [OF ord ok, of c t] m obtain s' where s': "sub_Unsubscribe ordT s c t
      = (s', (if \<exists>n. sm_m (topics s) t = Some n \<and> n \<le> 1 then [TopicRemoved t] else []) @ [TopicUnsubscribed c t], True)"
    "subs s' = (subs s)(c \<mapsto> one_less m t)" "sm_m (topics s') = one_less (sm_m (topics s)) t"
    "maxTopicSubscriptionsPerClient s' = maxTopicSubscriptionsPerClient s" by auto
  have sub: "dom (one_less m t) \<subseteq> dom m" and fin: "finite (dom m)"
    using ok(1) m by (auto simp: one_less_def clients_ok_def split: option.splits if_splits)
  have "below_limit (maxTopicSubscriptionsPerClient s) (subs s')" unfolding s'(2)
  proof (rule below_limit_upd [OF lim])
    fix m' assume m': "Some (one_less m t) = Some m'"
    have "card (dom (one_less m t)) \<le> card (dom m)" using fin sub by (rule card_mono)
    with m' show "maxTopicSubscriptionsPerClient s = 0 \<or> m' = Map.empty \<or> int (card (dom m')) < maxTopicSubscriptionsPerClient s"
      using below_limitD [OF lim m] by auto
  qed
  then have "sub_inv s'" using bounded_less [OF ok(1) m bd] clients_ok_less [OF ok(1) m(1), of t] finite_topics(3) [OF ok(2), of t]
    by (simp add: sub_inv_def s')
  then show ?thesis using s'(1,3,4) by (auto simp: came_def went_def one_less_def split: option.splits if_splits)
qed

interpretation subscription_log: nondet_simulation
  "sub_step below10 (ordC :: ('c \<rightharpoonup> ('t, int) ShrinkingMap) \<Rightarrow> 'c list) ordT" balanced
  "\<lambda>s T. (good_order ordC \<and> good_order ordT \<and> sub_inv s \<and> maxTopicSubscriptionsPerClient s = limit) \<and> T = dom (sm_m (topics s))"
proof
  fix s :: "('c, 't) SubscriptionManager" and T op
  assume "(good_order ordC \<and> good_order ordT \<and> sub_inv s \<and> maxTopicSubscriptionsPerClient s = limit) \<and> T = dom (sm_m (topics s))"
  then have *: "good_order ordC" "good_order ordT" "sub_inv s" "maxTopicSubscriptionsPerClient s = limit" "T = dom (sm_m (topics s))"
    by simp_all
  have "limited_step below10 ordC ordT s op"
  proof (cases op)
    case (OConnect c)
    then show ?thesis using limited_leave(1) [OF *(1-3), of below10 c] by simp
  next
    case (ODisconnect c)
    then show ?thesis using limited_leave(2) [OF *(1-3), of below10 c] by simp
  next
    case (OSubscribe c t)
    then show ?thesis using limited_subscribe [OF *(1-3), of below10 c t] by simp
  next
    case (OUnsubscribe c t)
    then show ?thesis using limited_unsubscribe [OF *(2-3), of below10 ordC c t] by simp
  qed (use *(3) in \<open>simp_all add: came_def went_def\<close>)
  then obtain s' r where "sub_step below10 ordC ordT s op = Some (s', r)" "balanced T op (dom (sm_m (topics s'))) r"
    "sub_inv s'" "maxTopicSubscriptionsPerClient s' = limit" unfolding *(4,5) by blast
  with *(1,2) show "\<exists>s' r T'. sub_step below10 ordC ordT s op = Some (s', r) \<and> balanced T op T' r \<and>
      ((good_order ordC \<and> good_order ordT \<and> sub_inv s' \<and> maxTopicSubscriptionsPerClient s' = limit) \<and> T' = dom (sm_m (topics s')))"
    by blast
qed

lemma new_managers:
  "subs (unlimited_manager below10 below1 n r) = Map.empty" "exact_inv (unlimited_manager below10 below1 n r)"
  "sub_inv (limited_manager below10 below1 limit n r)"
  "maxTopicSubscriptionsPerClient (limited_manager below10 below1 limit n r) = limit"
  "sm_m (topics (limited_manager below10 below1 limit n r)) = Map.empty"
  by (simp_all add: unlimited_manager_def limited_manager_def SubscriptionManager_New_def Let_def subs_def fun_eq_iff exact_inv_def
      sub_inv_def clients_ok_def topics_exact_def topics_bounded_def below_limit_def subs_total_def dom_def
      WithMaxTopicSubscriptionsPerClient_def WithCleanupThresholdCount_def WithCleanupThresholdRatio_def)

section \<open>Properties\<close>





text \<open>The converse fails when a client reaches the limit with a topic that others have: the new subscription is not in the global
  counts yet when the client is cleaned up, so the count of the topic drops by one too many, and the topic
  is announced as removed although another client is still subscribed to it.\<close>

theorem drop_removes_topic_of_others:
  assumes ord: "good_order ordC" "good_order ordT" and inv: "sub_inv s"
    and c: "subs s c = Some m" "reaches_limit s m t" and d: "d \<noteq> c" "ClientSubscribedToTopic s d t" "sm_m (topics s) t = Some 1"
    and res: "sub_Subscribe ordC ordT s c t = (s', es, ok)"
  shows "TopicRemoved t \<in> set es \<and> \<not> TopicHasSubscribers s' t \<and> ClientSubscribedToTopic s' d t"
proof -
  from inv have ok: "clients_ok (subs s)" "finite (dom (sm_m (topics s)))" by (simp_all add: sub_inv_def)
  from subscribe_dropped [OF ord ok c] res have es: "es = leaves ordT s c (Some (one_more m t)) @ [DropClient c, ClientDisconnected c]"
    and s': "subs s' = (subs s)(c := None)" "sm_m (topics s') = topics_without (sm_m (topics s)) (Some (one_more m t))" by auto
  have one: "one_more m t t = Some 1" using c(2) by (simp add: one_more_def reaches_limit_def)
  have "finite (dom (one_more m t))" using ok(1) c(1) by (auto simp: one_more_def clients_ok_def)
  then have "t \<in> set (ordT (one_more m t))" using good_orderD [OF ord(2), of "one_more m t"] one by (auto simp: enumerates_def)
  then have "TopicRemoved t \<in> set es" using d(3) one by (simp add: es removed_with_def)
  moreover have "sm_m (topics s') t = None" unfolding s'(2) by (simp add: topics_without_def less_subs_def d(3) one)
  then have "\<not> TopicHasSubscribers s' t" by (simp add: TopicHasSubscribers_def sm_Has_def)
  ultimately show ?thesis using d(1,2) by (simp add: client_subscribed s'(1))
qed

end
