(* ===== verification/Serix_Types.thy ===== *)
theory Serix_Types
  imports Seri_Codec "HOL-Library.FSet"
begin

text \<open>
  The settings and registries of \<^verbatim>\<open>serializer/serix\<close>: Go types and values as reflection shows them, \<^verbatim>\<open>TypeSettings\<close>
  (\<^verbatim>\<open>type_settings.go\<close>), struct tags (\<^verbatim>\<open>serix_tags.go\<close>), struct fields (\<^verbatim>\<open>struct_fields.go\<close>), the registries of type settings, validators and
  interface objects, and the checks that both directions share (\<^verbatim>\<open>serix.go\<close>, \<^verbatim>\<open>utils.go\<close>). The texts of errors are shortened.
\<close>

section \<open>Definitions\<close>

subsection \<open>Go types and values\<close>

text \<open>A named type carries its name; an unnamed one has the empty name. The fields of a struct type are declared in the
  program, which is given by \<open>structs\<close> below, so that types may be recursive. \<open>TyOther\<close> stands for the kinds serix does not know.\<close>

datatype go_type =
    TyBool string
  | TyNum string num_type
  | TyString string
  | TyBigInt
  | TyTime
  | TyPtr go_type
  | TyStruct string
  | TySlice string go_type
  | TyArray string nat go_type
  | TyMap string go_type go_type
  | TyIface string
  | TyOther string

text \<open>A struct value lists the values of the fields serix looks at. A nil slice or map counts as empty.\<close>

datatype go_val =
    VBool bool
  | VNum go_num
  | VString bytes
  | VBigInt int
  | VTime go_time
  | VPtr "go_val option"
  | VStruct "go_val list"
  | VSlice "go_val list"
  | VArray "go_val list"
  | VMap "(go_val \<times> go_val) fset"
  | VIface "(go_type \<times> go_val) option"
  | VOther

text \<open>The results of the functions: \<^term>\<open>None\<close> where the source panics, and otherwise an error or a value.\<close>

type_synonym 'a res = "(seri_error + 'a) option"

definition andThen :: "'a res \<Rightarrow> ('a \<Rightarrow> 'b res) \<Rightarrow> 'b res" where
  "andThen m f = (case m of None \<Rightarrow> None | Some (Inl e) \<Rightarrow> Some (Inl e) | Some (Inr x) \<Rightarrow> f x)"

abbreviation ret :: "'a \<Rightarrow> 'a res" where "ret x \<equiv> Some (Inr x)"
abbreviation throw :: "string \<Rightarrow> 'a res" where "throw msg \<equiv> Some (Inl (CustomError msg))"

definition check :: "seri_error option \<Rightarrow> unit res" where
  "check e = (case e of None \<Rightarrow> ret () | Some e \<Rightarrow> Some (Inl e))"

subsection \<open>Type settings\<close>

text \<open>The object type is an interface value that should hold a \<^verbatim>\<open>uint8\<close> or a \<^verbatim>\<open>uint32\<close>.\<close>

record TypeSettings =
  fieldKey :: "string option"
  ts_description :: string
  objectType :: "go_num option"
  lengthPrefixType :: "SeriLengthPrefixType option"
  lexicalOrdering :: "bool option"
  arrayRules :: "unit ArrayRules option"

definition NewTypeSettings :: TypeSettings where
  "NewTypeSettings = \<lparr>fieldKey = None, ts_description = [], objectType = None, lengthPrefixType = None,
     lexicalOrdering = None, arrayRules = None\<rparr>"

definition newArrayRules :: "unit ArrayRules" where
  "newArrayRules = \<lparr>ar_Min = 0, ar_Max = 0, MustOccur = {}, ReadGuard = \<lambda>_. Inl ErrInvalidBytes, PostReadGuard = None,
     WriteGuard = None, ValidationMode = 0\<rparr>"

fun LengthPrefixTypeSize :: "SeriLengthPrefixType \<Rightarrow> nat option" where
  "LengthPrefixTypeSize SeriLengthPrefixTypeAsByte = Some 1"
| "LengthPrefixTypeSize SeriLengthPrefixTypeAsUint16 = Some 2"
| "LengthPrefixTypeSize SeriLengthPrefixTypeAsUint32 = Some 4"
| "LengthPrefixTypeSize SeriLengthPrefixTypeAsUint64 = Some 8"
| "LengthPrefixTypeSize (SeriLengthPrefixTypeUnknown _) = None"

definition WithFieldKey :: "string \<Rightarrow> TypeSettings \<Rightarrow> TypeSettings" where
  "WithFieldKey k ts = ts\<lparr>fieldKey := Some k\<rparr>"

definition MustFieldKey :: "TypeSettings \<Rightarrow> string option" where
  "MustFieldKey ts = fieldKey ts"

definition WithDescription :: "string \<Rightarrow> TypeSettings \<Rightarrow> TypeSettings" where
  "WithDescription d ts = ts\<lparr>ts_description := d\<rparr>"

definition WithObjectType :: "go_num \<Rightarrow> TypeSettings \<Rightarrow> TypeSettings" where
  "WithObjectType t ts = ts\<lparr>objectType := Some t\<rparr>"

definition WithLengthPrefixType :: "SeriLengthPrefixType \<Rightarrow> TypeSettings \<Rightarrow> TypeSettings" where
  "WithLengthPrefixType lpt ts = ts\<lparr>lengthPrefixType := Some lpt\<rparr>"

definition WithLexicalOrdering :: "bool \<Rightarrow> TypeSettings \<Rightarrow> TypeSettings" where
  "WithLexicalOrdering v ts = ts\<lparr>lexicalOrdering := Some v\<rparr>"

definition LexicalOrdering :: "TypeSettings \<Rightarrow> bool \<times> bool" where
  "LexicalOrdering ts = (case lexicalOrdering ts of None \<Rightarrow> (False, False) | Some v \<Rightarrow> (v, True))"

definition WithArrayRules :: "unit ArrayRules option \<Rightarrow> TypeSettings \<Rightarrow> TypeSettings" where
  "WithArrayRules rules ts = ts\<lparr>arrayRules := rules\<rparr>"

text \<open>The rules of the receiver are updated through the pointer; the result is the same as if they were copied.\<close>

definition WithMinLen :: "nat \<Rightarrow> TypeSettings \<Rightarrow> TypeSettings" where
  "WithMinLen l ts = ts\<lparr>arrayRules := Some ((case arrayRules ts of None \<Rightarrow> newArrayRules | Some r \<Rightarrow> r)\<lparr>ar_Min := l\<rparr>)\<rparr>"

definition WithMaxLen :: "nat \<Rightarrow> TypeSettings \<Rightarrow> TypeSettings" where
  "WithMaxLen l ts = ts\<lparr>arrayRules := Some ((case arrayRules ts of None \<Rightarrow> newArrayRules | Some r \<Rightarrow> r)\<lparr>ar_Max := l\<rparr>)\<rparr>"

definition MinLen :: "TypeSettings \<Rightarrow> nat \<times> bool" where
  "MinLen ts = (case arrayRules ts of None \<Rightarrow> (0, False) | Some r \<Rightarrow> if ar_Min r = 0 then (0, False) else (ar_Min r, True))"

definition MaxLen :: "TypeSettings \<Rightarrow> nat \<times> bool" where
  "MaxLen ts = (case arrayRules ts of None \<Rightarrow> (0, False) | Some r \<Rightarrow> if ar_Max r = 0 then (0, False) else (ar_Max r, True))"

text \<open>The conversion from \<^verbatim>\<open>uint\<close> to \<^verbatim>\<open>int\<close> wraps around at 64 bits.\<close>

definition int_of_uint :: "nat \<Rightarrow> int" where
  "int_of_uint n = sint (word_of_nat n :: u64)"

definition MinMaxLen :: "TypeSettings \<Rightarrow> int \<times> int" where
  "MinMaxLen ts = (case arrayRules ts of None \<Rightarrow> (0, 0) | Some r \<Rightarrow> (int_of_uint (ar_Min r), int_of_uint (ar_Max r)))"

definition ensureOrdering :: "TypeSettings \<Rightarrow> TypeSettings" where
  "ensureOrdering ts =
     (let newTS = WithLexicalOrdering True ts;
          rules = (case arrayRules newTS of None \<Rightarrow> newArrayRules | Some r \<Rightarrow> r);
          rules = rules\<lparr>ValidationMode := or (ValidationMode rules) ArrayValidationModeLexicalOrdering\<rparr>
      in WithArrayRules (Some rules) newTS)"

definition orElse :: "'a option \<Rightarrow> 'a option \<Rightarrow> 'a option" where
  "orElse x y = (case x of None \<Rightarrow> y | Some v \<Rightarrow> Some v)"

definition ts_merge :: "TypeSettings \<Rightarrow> TypeSettings \<Rightarrow> TypeSettings" where
  "ts_merge ts other = ts\<lparr>lengthPrefixType := orElse (lengthPrefixType ts) (lengthPrefixType other),
     objectType := orElse (objectType ts) (objectType other), lexicalOrdering := orElse (lexicalOrdering ts) (lexicalOrdering other),
     arrayRules := orElse (arrayRules ts) (arrayRules other), fieldKey := orElse (fieldKey ts) (fieldKey other)\<rparr>"

text \<open>The only option of a call besides the settings: whether it validates.\<close>

definition options_toMode :: "bool \<Rightarrow> mode" where
  "options_toMode validation =
     (if validation then or DeSeriModeNoValidation DeSeriModePerformValidation else DeSeriModeNoValidation)"

definition ts_toMode :: "TypeSettings \<Rightarrow> bool \<Rightarrow> mode" where
  "ts_toMode ts validation =
     (case LexicalOrdering ts of (lo, isSet) \<Rightarrow>
        if isSet \<and> lo then or (options_toMode validation) DeSeriModePerformLexicalOrdering else options_toMode validation)"

definition checkMinMaxBoundsLength :: "TypeSettings \<Rightarrow> nat \<Rightarrow> seri_error option" where
  "checkMinMaxBoundsLength ts len =
     (if snd (MinLen ts) \<and> len < fst (MinLen ts) then Some ErrArrayValidationMinElementsNotReached
      else if snd (MaxLen ts) \<and> len > fst (MaxLen ts) then Some ErrArrayValidationMaxElementsExceeded
      else None)"

text \<open>\<^verbatim>\<open>hasLength\<close> and \<^verbatim>\<open>Len\<close> of a value.\<close>

fun value_length :: "go_val \<Rightarrow> nat option" where
  "value_length (VArray vs) = Some (length vs)"
| "value_length (VMap es) = Some (fcard es)"
| "value_length (VSlice vs) = Some (length vs)"
| "value_length (VString s) = Some (length s)"
| "value_length _ = None"

definition checkMinMaxBounds :: "TypeSettings \<Rightarrow> go_val \<Rightarrow> seri_error option" where
  "checkMinMaxBounds ts v = (case value_length v of None \<Rightarrow> None | Some n \<Rightarrow> checkMinMaxBoundsLength ts n)"

definition getTypeDenotationAndCode :: "go_num option \<Rightarrow> seri_error + (TypeDenotationType \<times> u32)" where
  "getTypeDenotationAndCode ot =
     (case ot of
        None \<Rightarrow> Inl (CustomError ''object code is nil interface'')
      | Some (NUint32 c) \<Rightarrow> Inr (TypeDenotationUint32, c)
      | Some (NUint8 c) \<Rightarrow> Inr (TypeDenotationByte, ucast c)
      | Some _ \<Rightarrow> Inl (CustomError ''unsupported object code type''))"

subsection \<open>Struct tags\<close>

fun strings_Split :: "char \<Rightarrow> string \<Rightarrow> string list" where
  "strings_Split c [] = [[]]"
| "strings_Split c (x # xs) =
     (if x = c then [] # strings_Split c xs
      else case strings_Split c xs of [] \<Rightarrow> [[x]] | p # ps \<Rightarrow> (x # p) # ps)"

definition digit_value :: "char \<Rightarrow> nat option" where
  "digit_value c = (let n = of_char c in if 48 \<le> n \<and> n \<le> (57 :: nat) then Some (n - 48) else None)"

fun parse_digits :: "nat \<Rightarrow> string \<Rightarrow> nat option" where
  "parse_digits acc [] = Some acc"
| "parse_digits acc (c # cs) = (case digit_value c of None \<Rightarrow> None | Some d \<Rightarrow> parse_digits (10 * acc + d) cs)"

definition ParseUint :: "string \<Rightarrow> nat option" where
  "ParseUint s = (if s = [] then None else case parse_digits 0 s of None \<Rightarrow> None | Some n \<Rightarrow> if n < 2 ^ 64 then Some n else None)"

record TagSettings =
  isOptional :: bool
  inlined :: bool
  omitEmpty :: bool
  tag_ts :: TypeSettings

definition parseStructTagValue :: "string list \<Rightarrow> seri_error + string" where
  "parseStructTagValue keyValue =
     (case keyValue of [_, v] \<Rightarrow> Inr v | _ \<Rightarrow> Inl (CustomError ''incorrect tag format''))"

definition parseStructTagValueUint :: "string list \<Rightarrow> seri_error + nat" where
  "parseStructTagValueUint keyValue =
     (case parseStructTagValue keyValue of Inl e \<Rightarrow> Inl e
      | Inr v \<Rightarrow> (case ParseUint v of None \<Rightarrow> Inl (CustomError ''failed to parse'') | Some n \<Rightarrow> Inr n))"

definition parseLengthPrefixType :: "string \<Rightarrow> seri_error + SeriLengthPrefixType" where
  "parseLengthPrefixType raw =
     (if raw = ''byte'' \<or> raw = ''uint8'' then Inr SeriLengthPrefixTypeAsByte
      else if raw = ''uint16'' then Inr SeriLengthPrefixTypeAsUint16
      else if raw = ''uint32'' then Inr SeriLengthPrefixTypeAsUint32
      else if raw = ''uint64'' then Inr SeriLengthPrefixTypeAsUint64
      else Inl (CustomError ''unknown length prefix type''))"

definition parseStructTagValuePrefixType :: "string list \<Rightarrow> seri_error + SeriLengthPrefixType" where
  "parseStructTagValuePrefixType keyValue =
     (case parseStructTagValue keyValue of Inl e \<Rightarrow> Inl e | Inr v \<Rightarrow> parseLengthPrefixType v)"

definition tag_part :: "string \<Rightarrow> TagSettings \<Rightarrow> seri_error + TagSettings" where
  "tag_part currentPart settings =
     (let keyValue = strings_Split (CHR ''='') currentPart; partName = hd keyValue
      in if partName = ''optional'' then Inr (settings\<lparr>isOptional := True\<rparr>)
         else if partName = ''inlined'' then Inr (settings\<lparr>inlined := True\<rparr>)
         else if partName = ''omitempty'' then Inr (settings\<lparr>omitEmpty := True\<rparr>)
         else if partName = ''description'' then
           map_sum id (\<lambda>v. settings\<lparr>tag_ts := WithDescription v (tag_ts settings)\<rparr>) (parseStructTagValue keyValue)
         else if partName = ''lenPrefix'' then
           map_sum id (\<lambda>v. settings\<lparr>tag_ts := WithLengthPrefixType v (tag_ts settings)\<rparr>) (parseStructTagValuePrefixType keyValue)
         else if partName = ''minLen'' then
           map_sum id (\<lambda>v. settings\<lparr>tag_ts := WithMinLen v (tag_ts settings)\<rparr>) (parseStructTagValueUint keyValue)
         else if partName = ''maxLen'' then
           map_sum id (\<lambda>v. settings\<lparr>tag_ts := WithMaxLen v (tag_ts settings)\<rparr>) (parseStructTagValueUint keyValue)
         else Inl (CustomError ''unknown tag part''))"

fun tag_parts :: "string list \<Rightarrow> string list \<Rightarrow> TagSettings \<Rightarrow> seri_error + TagSettings" where
  "tag_parts seenParts [] settings = Inr settings"
| "tag_parts seenParts (currentPart # parts) settings =
     (if currentPart \<in> set seenParts then Inl (CustomError ''duplicated tag part'')
      else case tag_part currentPart settings of Inl e \<Rightarrow> Inl e
      | Inr settings \<Rightarrow> tag_parts (hd (strings_Split (CHR ''='') currentPart) # seenParts) parts settings)"

definition ParseSerixSettings :: "string \<Rightarrow> seri_error + TagSettings" where
  "ParseSerixSettings tag =
     (let settings = \<lparr>isOptional = False, inlined = False, omitEmpty = False, tag_ts = NewTypeSettings\<rparr> in
      if tag = [] then Inr settings
      else let parts = strings_Split (CHR '','') tag; keyPart = hd parts in
        if CHR ''='' \<in> set keyPart then Inl (CustomError ''incorrect struct tag format'')
        else tag_parts [] (tl parts)
               (if keyPart \<noteq> [] then settings\<lparr>tag_ts := WithFieldKey keyPart (tag_ts settings)\<rparr> else settings))"

subsection \<open>Struct fields\<close>

record field_decl =
  fd_name :: string
  fd_type :: go_type
  fd_tag :: "string option"
  fd_exported :: bool
  fd_anonymous :: bool

record structField =
  sf_name :: string
  isUnexported :: bool
  fType :: go_type
  isEmbedded :: bool
  sf_settings :: TagSettings

fun DeRefPointer :: "go_type \<Rightarrow> go_type" where
  "DeRefPointer (TyPtr t) = t"
| "DeRefPointer t = t"

fun is_struct_kind :: "go_type \<Rightarrow> bool" where
  "is_struct_kind (TyStruct _) = True"
| "is_struct_kind TyTime = True"
| "is_struct_kind TyBigInt = True"
| "is_struct_kind _ = False"

fun is_iface_kind :: "go_type \<Rightarrow> bool" where
  "is_iface_kind (TyIface _) = True"
| "is_iface_kind _ = False"

fun is_ptr_kind :: "go_type \<Rightarrow> bool" where
  "is_ptr_kind (TyPtr _) = True"
| "is_ptr_kind _ = False"

definition isUnderlyingStruct :: "go_type \<Rightarrow> bool" where
  "isUnderlyingStruct t = is_struct_kind (DeRefPointer t)"

definition isUnderlyingInterface :: "go_type \<Rightarrow> bool" where
  "isUnderlyingInterface t = is_iface_kind (DeRefPointer t)"

text \<open>The fields keep their order: their positions count up.\<close>

fun parseStructFields :: "field_decl list \<Rightarrow> seri_error + structField list" where
  "parseStructFields [] = Inr []"
| "parseStructFields (fd # fds) =
     (let unexported = \<not> fd_exported fd;
          isEmbeddedStruct = fd_anonymous fd \<and> isUnderlyingStruct (fd_type fd);
          isEmbeddedInterface = fd_anonymous fd \<and> isUnderlyingInterface (fd_type fd)
      in if unexported \<and> \<not> isEmbeddedStruct \<and> \<not> isEmbeddedInterface then parseStructFields fds
         else case fd_tag fd of None \<Rightarrow> parseStructFields fds
         | Some tag \<Rightarrow>
             (case ParseSerixSettings tag of Inl e \<Rightarrow> Inl e
              | Inr tSettings \<Rightarrow>
                  if isOptional tSettings \<and> \<not> is_ptr_kind (fd_type fd) \<and> \<not> is_iface_kind (fd_type fd)
                  then Inl (CustomError ''optional can only be used with pointers or interfaces'')
                  else if isOptional tSettings \<and> isEmbeddedStruct
                  then Inl (CustomError ''optional can not be used with embedded structs'')
                  else if isOptional tSettings \<and> isEmbeddedInterface
                  then Inl (CustomError ''optional can not be used with embedded interfaces'')
                  else if inlined tSettings \<and> unexported
                  then Inl (CustomError ''inlined can not be used with unexported types'')
                  else if \<not> inlined tSettings \<and> isEmbeddedInterface
                  then Inl (CustomError ''inlined needs to be used for embedded interfaces'')
                  else map_sum id ((#) \<lparr>sf_name = fd_name fd, isUnexported = unexported, fType = fd_type fd,
                      isEmbedded = isEmbeddedStruct \<or> isEmbeddedInterface, sf_settings = tSettings\<rparr>)
                    (parseStructFields fds)))"

subsection \<open>Registries\<close>

record InterfaceObjects =
  io_typeDenotation :: TypeDenotationType
  fromCodeToType :: "u32 \<rightharpoonup> go_type"
  fromTypeToCode :: "go_type \<rightharpoonup> u32"

text \<open>The program around serix: the declared structs, the types with a \<^verbatim>\<open>Serializable\<close> or \<^verbatim>\<open>Deserializable\<close>
  implementation with that implementation (for the latter, a new value and the bytes it consumed), and the order in which the runtime
  iterates over a map.\<close>

record program =
  structs :: "string \<Rightarrow> field_decl list"
  Serializable_Encode :: "go_type \<Rightarrow> (go_val \<Rightarrow> seri_error + bytes) option"
  Deserializable_Decode :: "go_type \<Rightarrow> (bytes \<Rightarrow> seri_error + (go_val \<times> int)) option"
  MapRange :: "(go_val \<times> go_val) fset \<Rightarrow> (go_val \<times> go_val) list"

text \<open>The ordered maps of the registries are maps, since only their iteration shows the order. A validator is given the
  context and the value; the context is the one of the call.\<close>

record API =
  prog :: program
  interfacesRegistry :: "go_type \<rightharpoonup> InterfaceObjects"
  typeSettingsRegistry :: "go_type \<rightharpoonup> TypeSettings"
  validatorsRegistry :: "go_type \<rightharpoonup> (go_val \<Rightarrow> seri_error option)"
  structFieldsCache :: "go_type \<rightharpoonup> structField list"

definition NewAPI :: "program \<Rightarrow> API" where
  "NewAPI p = \<lparr>prog = p, interfacesRegistry = Map.empty, typeSettingsRegistry = Map.empty,
     validatorsRegistry = Map.empty, structFieldsCache = Map.empty\<rparr>"

definition GetByType :: "API \<Rightarrow> go_type \<Rightarrow> TypeSettings \<times> bool" where
  "GetByType api objType =
     (case typeSettingsRegistry api objType of Some ts \<Rightarrow> (ts, True)
      | None \<Rightarrow> (case objType of
          TyPtr t \<Rightarrow> (case typeSettingsRegistry api t of Some ts \<Rightarrow> (ts, True) | None \<Rightarrow> (NewTypeSettings, False))
        | _ \<Rightarrow> (NewTypeSettings, False)))"

text \<open>\<^verbatim>\<open>GetByValue\<close> follows pointers and interfaces; the type of a nil one panics.\<close>

fun GetByValue :: "API \<Rightarrow> go_type \<Rightarrow> go_val \<Rightarrow> TypeSettings option" where
  "GetByValue api t (VPtr None) = (case typeSettingsRegistry api t of Some ts \<Rightarrow> Some ts | None \<Rightarrow> None)"
| "GetByValue api t (VIface None) = (case typeSettingsRegistry api t of Some ts \<Rightarrow> Some ts | None \<Rightarrow> None)"
| "GetByValue api t (VPtr (Some v)) =
     (case typeSettingsRegistry api t of Some ts \<Rightarrow> Some ts | None \<Rightarrow> GetByValue api (DeRefPointer t) v)"
| "GetByValue api t (VIface (Some (dt, v))) =
     (case typeSettingsRegistry api t of Some ts \<Rightarrow> Some ts | None \<Rightarrow> GetByValue api dt v)"
| "GetByValue api t v = (case typeSettingsRegistry api t of Some ts \<Rightarrow> Some ts | None \<Rightarrow> Some NewTypeSettings)"

definition RegisterTypeSettings :: "API \<Rightarrow> go_type \<Rightarrow> TypeSettings \<Rightarrow> seri_error + API" where
  "RegisterTypeSettings api objType ts =
     (if typeSettingsRegistry api objType \<noteq> None then Inl (CustomError ''type settings are already registered'')
      else Inr (api\<lparr>typeSettingsRegistry := (typeSettingsRegistry api)(objType \<mapsto> ts)\<rparr>))"

definition RegisterValidator :: "API \<Rightarrow> go_type \<Rightarrow> (go_val \<Rightarrow> seri_error option) \<Rightarrow> seri_error + API" where
  "RegisterValidator api objType f =
     (if validatorsRegistry api objType \<noteq> None then Inl (CustomError ''validator is already registered'')
      else Inr (api\<lparr>validatorsRegistry := (validatorsRegistry api)(objType \<mapsto> f)\<rparr>))"

definition GetObjectMetadata :: "API \<Rightarrow> go_type \<Rightarrow> seri_error + (TypeDenotationType \<times> u32)" where
  "GetObjectMetadata api objType =
     (case GetByType api objType of (ts, exists) \<Rightarrow>
        if \<not> exists then Inl (CustomError ''no type settings was found'')
        else if objectType ts = None then Inl (CustomError ''type settings do not contain object code'')
        else getTypeDenotationAndCode (objectType ts))"

definition AddObject :: "InterfaceObjects \<Rightarrow> u32 \<Rightarrow> go_type \<Rightarrow> InterfaceObjects" where
  "AddObject i objCode objType = i\<lparr>fromCodeToType := (fromCodeToType i)(objCode \<mapsto> objType),
     fromTypeToCode := (fromTypeToCode i)(objType \<mapsto> objCode)\<rparr>"

text \<open>The objects are added one after the other. The \<^verbatim>\<open>InterfaceObjects\<close> are shared by pointer: if the interface was
  registered before, the objects added before an error stay.\<close>

fun add_objects :: "API \<Rightarrow> InterfaceObjects \<Rightarrow> go_type list \<Rightarrow> InterfaceObjects \<times> seri_error option" where
  "add_objects api i [] = (i, None)"
| "add_objects api i (obj # objs) =
     (case GetObjectMetadata api obj of Inl e \<Rightarrow> (i, Some e)
      | Inr (td, code) \<Rightarrow>
          if io_typeDenotation i \<noteq> td then (i, Some (CustomError ''all registered objects must have the same type denotation''))
          else add_objects api (AddObject i code obj) objs)"

definition RegisterInterfaceObjects :: "API \<Rightarrow> go_type \<Rightarrow> go_type list \<Rightarrow> API \<times> seri_error option" where
  "RegisterInterfaceObjects api iType objs =
     (case iType of TyPtr t \<Rightarrow>
        if \<not> is_iface_kind t then (api, Some (CustomError ''iType pointer must contain an interface''))
        else if objs = [] then (api, None)
        else (case interfacesRegistry api t of
            Some i \<Rightarrow> (case add_objects api i objs of (i, e) \<Rightarrow> (api\<lparr>interfacesRegistry := (interfacesRegistry api)(t \<mapsto> i)\<rparr>, e))
          | None \<Rightarrow>
              (case GetObjectMetadata api (hd objs) of Inl e \<Rightarrow> (api, Some e)
               | Inr (td, _) \<Rightarrow>
                   (case add_objects api \<lparr>io_typeDenotation = td, fromCodeToType = Map.empty, fromTypeToCode = Map.empty\<rparr> objs of
                      (i, None) \<Rightarrow> (api\<lparr>interfacesRegistry := (interfacesRegistry api)(t \<mapsto> i)\<rparr>, None)
                    | (i, Some e) \<Rightarrow> (api, Some e))))
      | _ \<Rightarrow> (api, Some (CustomError ''iType parameter must be a pointer'')))"

fun struct_decls :: "program \<Rightarrow> go_type \<Rightarrow> field_decl list" where
  "struct_decls p (TyStruct nm) = structs p nm"
| "struct_decls p _ = []"

text \<open>A cached result is the parsed one, so only the lookup is modelled: storing the result cannot be seen.\<close>

definition getStructFields :: "API \<Rightarrow> go_type \<Rightarrow> seri_error + structField list" where
  "getStructFields api t =
     (case structFieldsCache api t of Some fs \<Rightarrow> Inr fs | None \<Rightarrow> parseStructFields (struct_decls (prog api) t))"

definition callSyntacticValidator :: "API \<Rightarrow> go_val \<Rightarrow> go_type \<Rightarrow> unit res" where
  "callSyntacticValidator api v t =
     (case validatorsRegistry api t of Some f \<Rightarrow> check (f v)
      | None \<Rightarrow>
          (case t of
             TyPtr u \<Rightarrow>
               (case validatorsRegistry api u of None \<Rightarrow> ret ()
                | Some f \<Rightarrow> (case v of VPtr (Some w) \<Rightarrow> check (f w) | _ \<Rightarrow> None))
           | _ \<Rightarrow> ret ()))"

text \<open>\<^verbatim>\<open>utf8.ValidString\<close>.\<close>

definition cont_byte :: "byte \<Rightarrow> bool" where
  "cont_byte b \<longleftrightarrow> 0x80 \<le> b \<and> b \<le> 0xBF"

fun utf8_ValidString :: "bytes \<Rightarrow> bool" where
  "utf8_ValidString [] \<longleftrightarrow> True"
| "utf8_ValidString (b # bs) \<longleftrightarrow>
     (if b < 0x80 then utf8_ValidString bs
      else if 0xC2 \<le> b \<and> b \<le> 0xDF then (case bs of c # cs \<Rightarrow> cont_byte c \<and> utf8_ValidString cs | _ \<Rightarrow> False)
      else if 0xE0 \<le> b \<and> b \<le> 0xEF then
        (case bs of c # d # ds \<Rightarrow>
           (if b = 0xE0 then 0xA0 \<le> c \<and> c \<le> 0xBF else if b = 0xED then 0x80 \<le> c \<and> c \<le> 0x9F else cont_byte c)
           \<and> cont_byte d \<and> utf8_ValidString ds | _ \<Rightarrow> False)
      else if 0xF0 \<le> b \<and> b \<le> 0xF4 then
        (case bs of c # d # e # es \<Rightarrow>
           (if b = 0xF0 then 0x90 \<le> c \<and> c \<le> 0xBF else if b = 0xF4 then 0x80 \<le> c \<and> c \<le> 0x8F else cont_byte c)
           \<and> cont_byte d \<and> cont_byte e \<and> utf8_ValidString es | _ \<Rightarrow> False)
      else False)"

fun is_byte_elem :: "go_type \<Rightarrow> bool" where
  "is_byte_elem (TyNum nm nt) \<longleftrightarrow> nm = [] \<and> nt = TUint8"
| "is_byte_elem _ \<longleftrightarrow> False"

text \<open>The bytes of a byte slice or array, and back.\<close>

fun byte_of :: "go_val \<Rightarrow> byte option" where
  "byte_of (VNum (NUint8 b)) = Some b"
| "byte_of _ = None"

definition val_bytes :: "go_val list \<Rightarrow> bytes option" where
  "val_bytes vs = those (map byte_of vs)"

definition bytes_val :: "bytes \<Rightarrow> go_val list" where
  "bytes_val bs = map (VNum \<circ> NUint8) bs"

text \<open>The type behind a pointer or interface, whose settings give the type prefix of an element.\<close>

definition reflect_Indirect :: "go_type \<Rightarrow> go_val \<Rightarrow> go_type option" where
  "reflect_Indirect t v = (case v of VPtr None \<Rightarrow> None | VPtr (Some w) \<Rightarrow> Some (DeRefPointer t) | _ \<Rightarrow> Some t)"

definition elem_type :: "go_type \<Rightarrow> go_val \<Rightarrow> go_type option" where
  "elem_type t v =
     (case v of
        VPtr x \<Rightarrow> (case x of None \<Rightarrow> None | Some w \<Rightarrow> reflect_Indirect (DeRefPointer t) w)
      | VIface x \<Rightarrow> (case x of None \<Rightarrow> None | Some (dt, w) \<Rightarrow> reflect_Indirect dt w)
      | _ \<Rightarrow> Some t)"

fun seen_prefixes :: "API \<Rightarrow> go_type \<Rightarrow> go_val list \<Rightarrow> u32 set res" where
  "seen_prefixes api t [] = ret {}"
| "seen_prefixes api t (v # vs) =
     (case elem_type t v of None \<Rightarrow> None
      | Some et \<Rightarrow>
          (case GetByType api et of (ts, exists) \<Rightarrow>
             if \<not> exists then throw ''missing type settings''
             else case getTypeDenotationAndCode (objectType ts) of Inl e \<Rightarrow> Some (Inl e)
               | Inr (_, code) \<Rightarrow> andThen (seen_prefixes api t vs) (\<lambda>cs. ret (insert code cs))))"

definition checkArrayMustOccur :: "API \<Rightarrow> go_type \<Rightarrow> go_val list \<Rightarrow> TypeSettings \<Rightarrow> unit res" where
  "checkArrayMustOccur api t vs ts =
     (case arrayRules ts of None \<Rightarrow> ret ()
      | Some r \<Rightarrow>
          if MustOccur r = {} then ret ()
          else andThen (seen_prefixes api t vs) (\<lambda>cs.
            if MustOccur r - cs \<noteq> {} then Some (Inl ErrArrayValidationTypesNotOccurred) else ret ()))"

end
