(* ===== verification/Serix_Encode.thy ===== *)
theory Serix_Encode
  imports Serix_Types
begin

text \<open>
  The encoder of \<^verbatim>\<open>serializer/serix/encode.go\<close>. Each function of the source is a definition; a function that calls \<^verbatim>\<open>encode\<close>
  again takes that call as an argument, and \<open>encode\<close> closes the recursion.
\<close>

section \<open>Definitions\<close>

text \<open>Recursive calls of \<^verbatim>\<open>encode\<close>: the value, its type and the settings.\<close>

type_synonym encoder = "go_val \<Rightarrow> go_type \<Rightarrow> TypeSettings \<Rightarrow> bytes res"

definition write_object_type :: "TypeSettings \<Rightarrow> Serializer" where
  "write_object_type ts = (case objectType ts of None \<Rightarrow> NewSerializer | Some n \<Rightarrow> WriteNum NewSerializer n id)"

definition encodeSliceOfBytes :: "bool \<Rightarrow> bytes list \<Rightarrow> TypeSettings \<Rightarrow> bytes res" where
  "encodeSliceOfBytes validation data ts =
     (case lengthPrefixType ts of None \<Rightarrow> throw ''no LengthPrefixType was provided''
      | Some lpt \<Rightarrow>
          (let rules = (case arrayRules ts of None \<Rightarrow> newArrayRules | Some r \<Rightarrow> r) in
           case WriteSliceOfByteSlices NewSerializer data (ts_toMode ts validation) lpt rules id of
             None \<Rightarrow> None | Some (seri, data) \<Rightarrow> Some (Serialize seri)))"

fun encode_all :: "('a \<Rightarrow> bytes res) \<Rightarrow> 'a list \<Rightarrow> bytes list res" where
  "encode_all f [] = ret []"
| "encode_all f (x # xs) = andThen (f x) (\<lambda>b. andThen (encode_all f xs) (\<lambda>bs. ret (b # bs)))"

definition encodeSlice :: "encoder \<Rightarrow> API \<Rightarrow> bool \<Rightarrow> go_val list \<Rightarrow> go_type \<Rightarrow> TypeSettings \<Rightarrow> bytes res" where
  "encodeSlice rec api validation vs elemType ts =
     (if is_byte_elem elemType then
        (case lengthPrefixType ts of None \<Rightarrow> throw ''no LengthPrefixType was provided''
         | Some lpt \<Rightarrow>
             (case val_bytes vs of None \<Rightarrow> None
              | Some bs \<Rightarrow>
                  (case WriteVariableByteSlice NewSerializer bs lpt id (fst (MinMaxLen ts)) (snd (MinMaxLen ts)) of
                     None \<Rightarrow> None | Some seri \<Rightarrow> Some (Serialize seri))))
      else andThen (if validation then checkArrayMustOccur api elemType vs ts else ret ()) (\<lambda>_.
        andThen (encode_all (\<lambda>v. rec v elemType NewTypeSettings) vs) (\<lambda>data.
          encodeSliceOfBytes validation data ts)))"

definition encodeArray :: "encoder \<Rightarrow> API \<Rightarrow> bool \<Rightarrow> go_val list \<Rightarrow> go_type \<Rightarrow> TypeSettings \<Rightarrow> bytes res" where
  "encodeArray rec api validation vs elemType ts =
     (if is_byte_elem elemType then
        (case val_bytes vs of None \<Rightarrow> None | Some bs \<Rightarrow> Some (Serialize (WriteBytes (write_object_type ts) bs)))
      else encodeSlice rec api validation vs elemType ts)"

definition encodeMapKVPair :: "encoder \<Rightarrow> API \<Rightarrow> go_type \<Rightarrow> go_type \<Rightarrow> go_val \<times> go_val \<Rightarrow> bytes res" where
  "encodeMapKVPair rec api keyType valType kv =
     (case (GetByValue api keyType (fst kv), GetByValue api valType (snd kv)) of
        (Some keyTS, Some valTS) \<Rightarrow>
          andThen (rec (fst kv) keyType keyTS) (\<lambda>keyBytes.
            andThen (rec (snd kv) valType valTS) (\<lambda>elemBytes. ret (keyBytes @ elemBytes)))
      | _ \<Rightarrow> None)"

definition encodeMap ::
  "encoder \<Rightarrow> API \<Rightarrow> bool \<Rightarrow> (go_val \<times> go_val) fset \<Rightarrow> go_type \<Rightarrow> go_type \<Rightarrow> TypeSettings \<Rightarrow> bytes res" where
  "encodeMap rec api validation es keyType valType ts =
     andThen (if validation then check (checkMinMaxBounds ts (VMap es)) else ret ()) (\<lambda>_.
       andThen (encode_all (encodeMapKVPair rec api keyType valType) (MapRange (prog api) es)) (\<lambda>data.
         encodeSliceOfBytes validation data (ensureOrdering ts)))"

definition encodeInterface ::
  "encoder \<Rightarrow> API \<Rightarrow> (go_type \<times> go_val) option \<Rightarrow> go_type \<Rightarrow> TypeSettings \<Rightarrow> bytes res" where
  "encodeInterface rec api elem t ts =
     (case elem of None \<Rightarrow> throw ''interface must have underlying value''
      | Some (elemType, w) \<Rightarrow>
          (case interfacesRegistry api t of None \<Rightarrow> throw ''interface is not registered''
           | Some registry \<Rightarrow>
               if fromTypeToCode registry elemType = None then throw ''underlying type has not been registered''
               else rec w elemType ts))"

text \<open>One field of a struct: embedded structs are flattened, optional fields have their length in front.\<close>

definition encode_field ::
  "(Serializer \<Rightarrow> go_val \<Rightarrow> go_type \<Rightarrow> Serializer res) \<Rightarrow> encoder \<Rightarrow> structField \<Rightarrow> go_val \<Rightarrow> Serializer \<Rightarrow> Serializer res" where
  "encode_field embedded rec sf v s =
     (if isEmbedded sf \<and> \<not> inlined (sf_settings sf) then
        (case v of VPtr x \<Rightarrow> (case x of None \<Rightarrow> ret s | Some w \<Rightarrow> embedded s w (DeRefPointer (fType sf)))
         | _ \<Rightarrow> embedded s v (fType sf))
      else if isOptional (sf_settings sf) then
        (if v = VPtr None \<or> v = VIface None then ret (WritePayloadLength s 0)
         else andThen (rec v (fType sf) (tag_ts (sf_settings sf))) (\<lambda>fieldBytes.
           ret (WriteBytes (WritePayloadLength s (length fieldBytes)) fieldBytes)))
      else andThen (rec v (fType sf) (tag_ts (sf_settings sf))) (\<lambda>fieldBytes. ret (WriteBytes s fieldBytes)))"

fun encode_fields ::
  "(Serializer \<Rightarrow> go_val \<Rightarrow> go_type \<Rightarrow> Serializer res) \<Rightarrow> encoder \<Rightarrow> structField list \<Rightarrow> go_val list \<Rightarrow> Serializer \<Rightarrow> Serializer res" where
  "encode_fields embedded rec [] vs s = ret s"
| "encode_fields embedded rec (sf # sfs) [] s = None"
| "encode_fields embedded rec (sf # sfs) (v # vs) s =
     andThen (encode_field embedded rec sf v s) (\<lambda>s. encode_fields embedded rec sfs vs s)"

primrec encodeStructFields :: "nat \<Rightarrow> encoder \<Rightarrow> API \<Rightarrow> Serializer \<Rightarrow> go_val \<Rightarrow> go_type \<Rightarrow> Serializer res" where
  "encodeStructFields 0 rec api = (\<lambda>s v t. None)"
| "encodeStructFields (Suc m) rec api = (\<lambda>s v t.
     case getStructFields api t of Inl e \<Rightarrow> Some (Inl e)
     | Inr sfs \<Rightarrow>
         if sfs = [] then ret s
         else (case v of VStruct vs \<Rightarrow> encode_fields (encodeStructFields m rec api) rec sfs vs s | _ \<Rightarrow> None))"

definition encodeStruct :: "nat \<Rightarrow> encoder \<Rightarrow> API \<Rightarrow> go_val \<Rightarrow> go_type \<Rightarrow> TypeSettings \<Rightarrow> bytes res" where
  "encodeStruct m rec api v t ts =
     (case v of VTime x \<Rightarrow> Some (Serialize (WriteTime NewSerializer x))
      | _ \<Rightarrow> andThen (encodeStructFields m rec api (write_object_type ts) v t) (\<lambda>seri. Some (Serialize seri)))"

definition encodeString :: "bool \<Rightarrow> bytes \<Rightarrow> TypeSettings \<Rightarrow> bytes res" where
  "encodeString validation str ts =
     (case lengthPrefixType ts of None \<Rightarrow> throw ''no LengthPrefixType was provided''
      | Some lpt \<Rightarrow>
          if validation \<and> \<not> utf8_ValidString str then throw ''non UTF-8 string value''
          else (let (minLen, maxLen) = (if validation then MinMaxLen ts else (0, 0)) in
            case WriteString NewSerializer str lpt id minLen maxLen of None \<Rightarrow> None | Some seri \<Rightarrow> Some (Serialize seri)))"

text \<open>The switch of \<^verbatim>\<open>encodeBasedOnType\<close>. A value that does not belong to its type does not exist in Go.\<close>

definition encode_ptr :: "nat \<Rightarrow> encoder \<Rightarrow> API \<Rightarrow> bool \<Rightarrow> go_type \<Rightarrow> TypeSettings \<Rightarrow> go_val option \<Rightarrow> bytes res" where
  "encode_ptr m rec api validation t ts x =
     (if t = TyBigInt then
        (case x of None \<Rightarrow> Some (Serialize (WriteUint256 NewSerializer None id))
         | Some w \<Rightarrow> (case w of VBigInt n \<Rightarrow> Some (Serialize (WriteUint256 NewSerializer (Some n) id)) | _ \<Rightarrow> None))
      else case x of None \<Rightarrow> throw ''unexpected nil pointer''
        | Some w \<Rightarrow>
            if is_struct_kind t then encodeStruct m rec api w t ts
            else (case t of
                TyArray nm n et \<Rightarrow> (case w of VArray vs \<Rightarrow> encodeArray rec api validation vs et ts | _ \<Rightarrow> None)
              | _ \<Rightarrow> throw ''unsupported type''))"

definition encode_kind :: "nat \<Rightarrow> encoder \<Rightarrow> API \<Rightarrow> bool \<Rightarrow> go_type \<Rightarrow> TypeSettings \<Rightarrow> go_val \<Rightarrow> bytes res" where
  "encode_kind m rec api validation t ts v =
     (case t of
        TyPtr u \<Rightarrow> (case v of VPtr x \<Rightarrow> encode_ptr m rec api validation u ts x | _ \<Rightarrow> None)
      | TyStruct nm \<Rightarrow> encodeStruct m rec api v t ts
      | TyTime \<Rightarrow> encodeStruct m rec api v t ts
      | TyBigInt \<Rightarrow> encodeStruct m rec api v t ts
      | TySlice nm et \<Rightarrow> (case v of VSlice vs \<Rightarrow> encodeSlice rec api validation vs et ts | _ \<Rightarrow> None)
      | TyMap nm kt vt \<Rightarrow> (case v of VMap es \<Rightarrow> encodeMap rec api validation es kt vt ts | _ \<Rightarrow> None)
      | TyArray nm n et \<Rightarrow> (case v of VArray vs \<Rightarrow> encodeArray rec api validation vs et ts | _ \<Rightarrow> None)
      | TyIface nm \<Rightarrow> (case v of VIface x \<Rightarrow> encodeInterface rec api x t ts | _ \<Rightarrow> None)
      | TyString nm \<Rightarrow> (case v of VString str \<Rightarrow> encodeString validation str ts | _ \<Rightarrow> None)
      | TyBool nm \<Rightarrow> (case v of VBool b \<Rightarrow> Some (Serialize (WriteBool NewSerializer b)) | _ \<Rightarrow> None)
      | TyNum nm nt \<Rightarrow>
          if nt = TBool \<or> nt = TOther then throw ''unsupported type''
          else (case v of VNum n \<Rightarrow> Some (Serialize (WriteNum NewSerializer n id)) | _ \<Rightarrow> None)
      | TyOther nm \<Rightarrow> throw ''unsupported type'')"

definition encodeBasedOnType :: "nat \<Rightarrow> encoder \<Rightarrow> API \<Rightarrow> bool \<Rightarrow> go_val \<Rightarrow> go_type \<Rightarrow> TypeSettings \<Rightarrow> bytes res" where
  "encodeBasedOnType m rec api validation v t ts =
     (let ts = ts_merge ts (fst (GetByType api t)) in
      andThen (if validation then check (checkMinMaxBounds ts v) else ret ()) (\<lambda>_. encode_kind m rec api validation t ts v))"

text \<open>The type and value that are asked for \<^verbatim>\<open>Serializable\<close>: the dynamic ones of an interface.\<close>

definition dynamic :: "go_type \<Rightarrow> go_val \<Rightarrow> go_type \<times> go_val" where
  "dynamic t v = (case v of VIface (Some (dt, w)) \<Rightarrow> (dt, w) | _ \<Rightarrow> (t, v))"

definition encodeSerializable :: "API \<Rightarrow> (go_val \<Rightarrow> seri_error + bytes) \<Rightarrow> go_val \<Rightarrow> go_type \<Rightarrow> TypeSettings \<Rightarrow> bytes res" where
  "encodeSerializable api f w dt ts =
     (let ts = ts_merge ts (fst (GetByType api dt)) in
      andThen (Some (Serialize (write_object_type ts))) (\<lambda>bPrefix.
        andThen (Some (f w)) (\<lambda>bEncoded. ret (bPrefix @ bEncoded))))"

definition encode_call :: "nat \<Rightarrow> encoder \<Rightarrow> API \<Rightarrow> bool \<Rightarrow> encoder" where
  "encode_call m rec api validation v t ts =
     andThen (if validation then callSyntacticValidator api v t else ret ()) (\<lambda>_.
       case dynamic t v of (dt, w) \<Rightarrow>
         (case Serializable_Encode (prog api) dt of
            Some f \<Rightarrow> encodeSerializable api f w dt ts
          | None \<Rightarrow> encodeBasedOnType m rec api validation v t ts))"

text \<open>The recursion of the source follows the value, which is finite: \<open>n\<close> bounds its depth, and running out of it gives
  \<^term>\<open>None\<close>.\<close>

primrec encode :: "nat \<Rightarrow> API \<Rightarrow> bool \<Rightarrow> encoder" where
  "encode 0 api validation = (\<lambda>v t ts. None)"
| "encode (Suc n) api validation = encode_call (Suc n) (encode n api validation) api validation"

definition Serix_Encode :: "nat \<Rightarrow> API \<Rightarrow> bool \<Rightarrow> TypeSettings \<Rightarrow> go_val \<Rightarrow> go_type \<Rightarrow> bytes res" where
  "Serix_Encode n api validation ts v t = encode n api validation v t ts"

end
