(* ===== verification/Serix_Decode.thy ===== *)
theory Serix_Decode
  imports Serix_Encode
begin

text \<open>
  The decoder of \<^verbatim>\<open>serializer/serix/decode.go\<close>, in the same way. A value that is filled in place in the source is a result here.
\<close>

section \<open>Definitions\<close>

text \<open>Decoding fills a new value, so a decoder returns the value and the number of bytes it read. \<open>isTop\<close> marks the pointer
  passed to \<^verbatim>\<open>Decode\<close>: it is not nil and not addressable.\<close>

type_synonym decoder = "bool \<Rightarrow> go_type \<Rightarrow> TypeSettings \<Rightarrow> bytes \<Rightarrow> (go_val \<times> int) res"

definition finish :: "('a \<times> Deserializer) option \<Rightarrow> ('a \<times> int) res" where
  "finish r = (case r of None \<Rightarrow> None
     | Some (v, d) \<Rightarrow> (case Done d of (n, err) \<Rightarrow> (case err of Some e \<Rightarrow> Some (Inl e) | None \<Rightarrow> ret (v, n))))"

definition reading :: "('a \<Rightarrow> 'b) \<Rightarrow> (Deserializer \<times> 'a) option \<Rightarrow> ('b \<times> Deserializer) option" where
  "reading f r = map_option (\<lambda>(d, x). (f x, d)) r"

fun zero_num :: "num_type \<Rightarrow> go_num" where
  "zero_num TBool = NBool False"
| "zero_num TInt8 = NInt8 0"
| "zero_num TUint8 = NUint8 0"
| "zero_num TInt16 = NInt16 0"
| "zero_num TUint16 = NUint16 0"
| "zero_num TInt32 = NInt32 0"
| "zero_num TUint32 = NUint32 0"
| "zero_num TInt64 = NInt64 0"
| "zero_num TUint64 = NUint64 0"
| "zero_num TFloat32 = NFloat32 0"
| "zero_num TFloat64 = NFloat64 0"
| "zero_num TOther = NOther"

text \<open>The zero time is the first day of the year 1.\<close>

definition zero_time :: go_time where
  "zero_time = \<lparr>unix_sec = -62135596800, nsec = 0\<rparr>"

primrec zero_val :: "nat \<Rightarrow> API \<Rightarrow> go_type \<Rightarrow> go_val option" where
  "zero_val 0 api = (\<lambda>t. None)"
| "zero_val (Suc n) api = (\<lambda>t. case t of
       TyBool nm \<Rightarrow> Some (VBool False) | TyNum nm nt \<Rightarrow> Some (VNum (zero_num nt)) | TyString nm \<Rightarrow> Some (VString [])
     | TyBigInt \<Rightarrow> Some (VBigInt 0) | TyTime \<Rightarrow> Some (VTime zero_time) | TyPtr u \<Rightarrow> Some (VPtr None)
     | TyStruct nm \<Rightarrow> (case getStructFields api t of Inl e \<Rightarrow> Some (VStruct [])
         | Inr sfs \<Rightarrow> map_option VStruct (those (map (\<lambda>sf. zero_val n api (fType sf)) sfs)))
     | TySlice nm et \<Rightarrow> Some (VSlice []) | TyArray nm k et \<Rightarrow> map_option (\<lambda>v. VArray (replicate k v)) (zero_val n api et)
     | TyMap nm kt vt \<Rightarrow> Some (VMap {||}) | TyIface nm \<Rightarrow> Some (VIface None) | TyOther nm \<Rightarrow> Some VOther)"

text \<open>A nil pointer or interface; only asked for where the type is one, and where the value is not looked at.\<close>

definition nil_val :: "go_type \<Rightarrow> go_val" where
  "nil_val t = (if is_ptr_kind t then VPtr None else if is_iface_kind t then VIface None else VOther)"

definition check_object_type :: "TypeSettings \<Rightarrow> Deserializer \<Rightarrow> Deserializer res" where
  "check_object_type ts d =
     (if objectType ts = None then ret d
      else case getTypeDenotationAndCode (objectType ts) of Inl e \<Rightarrow> Some (Inl e)
        | Inr (typeDen, objectCode) \<Rightarrow> map_option Inr (CheckTypePrefix d objectCode typeDen id))"

definition decodeSequence ::
  "bool \<Rightarrow> 'st DeserializeFunc \<Rightarrow> 'st \<Rightarrow> TypeSettings \<Rightarrow> bytes \<Rightarrow> ('st \<times> int) res" where
  "decodeSequence validation item st ts b =
     (case lengthPrefixType ts of None \<Rightarrow> throw ''no LengthPrefixType was provided''
      | Some lpt \<Rightarrow>
          (let rules = (case arrayRules ts of None \<Rightarrow> newArrayRules | Some r \<Rightarrow> r) in
           finish (ReadSequenceOfObjects item (NewDeserializer b) st (ts_toMode ts validation) lpt rules id)))"

definition slice_item :: "decoder \<Rightarrow> go_type \<Rightarrow> go_val list DeserializeFunc" where
  "slice_item rec et vs b =
     (case rec False et NewTypeSettings b of None \<Rightarrow> None
      | Some (Inl e) \<Rightarrow> Some (vs, Inl e)
      | Some (Inr (v, n)) \<Rightarrow> Some (vs @ [v], Inr n))"

definition decodeSlice :: "decoder \<Rightarrow> API \<Rightarrow> bool \<Rightarrow> go_type \<Rightarrow> TypeSettings \<Rightarrow> bytes \<Rightarrow> (go_val list \<times> int) res" where
  "decodeSlice rec api validation et ts b =
     (if is_byte_elem et then
        (case lengthPrefixType ts of None \<Rightarrow> throw ''no LengthPrefixType was provided''
         | Some lpt \<Rightarrow> finish (reading bytes_val
             (ReadVariableByteSlice (NewDeserializer b) [] lpt id (fst (MinMaxLen ts)) (snd (MinMaxLen ts)))))
      else andThen (decodeSequence validation (slice_item rec et) [] ts b) (\<lambda>(vs, n).
        andThen (if validation then checkArrayMustOccur api et vs ts else ret ()) (\<lambda>_. ret (vs, n))))"

text \<open>An array of objects is decoded into a slice that is not addressable: storing the first element in it panics.\<close>

definition array_item :: "decoder \<Rightarrow> go_type \<Rightarrow> unit DeserializeFunc" where
  "array_item rec et st b =
     (case rec False et NewTypeSettings b of None \<Rightarrow> None
      | Some (Inl e) \<Rightarrow> Some (st, Inl e)
      | Some (Inr _) \<Rightarrow> None)"

definition decodeArray ::
  "nat \<Rightarrow> decoder \<Rightarrow> API \<Rightarrow> bool \<Rightarrow> nat \<Rightarrow> go_type \<Rightarrow> TypeSettings \<Rightarrow> bytes \<Rightarrow> (go_val list \<times> int) res" where
  "decodeArray m rec api validation k et ts b =
     (if is_byte_elem et then
        andThen (check_object_type ts (NewDeserializer b)) (\<lambda>d.
          finish (reading bytes_val (ReadBytesInPlace d (replicate k 0) id)))
      else case zero_val m api et of None \<Rightarrow> None
        | Some z \<Rightarrow>
            andThen (decodeSequence validation (array_item rec et) () ts b) (\<lambda>(_, n).
              andThen (if validation then checkArrayMustOccur api et (replicate k z) ts else ret ()) (\<lambda>_.
                ret (replicate k z, n))))"

text \<open>Equality of Go on the keys of a map. Decoded pointers are new, hence different.\<close>

definition float_eq :: "nat \<Rightarrow> 'a::len word \<Rightarrow> 'a word \<Rightarrow> bool" where
  "float_eq mantissa x y =
     (let magnitude = (\<lambda>w. take_bit (LENGTH('a) - 1) w); inf = mask (LENGTH('a) - 1) - mask mantissa in
      magnitude x \<le> inf \<and> magnitude y \<le> inf \<and> (x = y \<or> magnitude x = 0 \<and> magnitude y = 0))"

definition num_eq :: "go_num \<Rightarrow> go_num \<Rightarrow> bool" where
  "num_eq x y = (case (x, y) of
       (NFloat32 v, NFloat32 w) \<Rightarrow> float_eq 23 v w
     | (NFloat64 v, NFloat64 w) \<Rightarrow> float_eq 52 v w
     | _ \<Rightarrow> x = y)"

fun go_eq :: "go_val \<Rightarrow> go_val \<Rightarrow> bool" where
  "go_eq (VNum x) w = (case w of VNum y \<Rightarrow> num_eq x y | _ \<Rightarrow> False)"
| "go_eq (VPtr x) w = (x = None \<and> w = VPtr None)"
| "go_eq (VStruct vs) w = (case w of VStruct ws \<Rightarrow> list_all2 go_eq vs ws | _ \<Rightarrow> False)"
| "go_eq (VArray vs) w = (case w of VArray ws \<Rightarrow> list_all2 go_eq vs ws | _ \<Rightarrow> False)"
| "go_eq (VIface None) w = (w = VIface None)"
| "go_eq (VIface (Some (t, v))) w = (case w of VIface (Some (u, x)) \<Rightarrow> t = u \<and> go_eq v x | _ \<Rightarrow> False)"
| "go_eq v w = (v = w)"

definition decodeMapKVPair :: "decoder \<Rightarrow> API \<Rightarrow> go_type \<Rightarrow> go_type \<Rightarrow> bytes \<Rightarrow> ((go_val \<times> go_val) \<times> int) res" where
  "decodeMapKVPair rec api keyType valType b =
     (case (GetByValue api keyType (nil_val keyType), GetByValue api valType (nil_val valType)) of
        (Some keyTS, Some valTS) \<Rightarrow>
          andThen (rec False keyType keyTS b) (\<lambda>(key, keyBytesRead).
            case slice_from b keyBytesRead of None \<Rightarrow> None
            | Some b \<Rightarrow> andThen (rec False valType valTS b) (\<lambda>(elem, elemBytesRead).
                ret ((key, elem), keyBytesRead + elemBytesRead)))
      | _ \<Rightarrow> None)"

definition map_item :: "decoder \<Rightarrow> API \<Rightarrow> go_type \<Rightarrow> go_type \<Rightarrow> (go_val \<times> go_val) fset DeserializeFunc" where
  "map_item rec api keyType valType es b =
     (case decodeMapKVPair rec api keyType valType b of None \<Rightarrow> None
      | Some (Inl e) \<Rightarrow> Some (es, Inl e)
      | Some (Inr (kv, n)) \<Rightarrow>
          if fBex es (\<lambda>e. go_eq (fst e) (fst kv)) then Some (es, Inl (CustomError ''map elements must be unique''))
          else Some (finsert kv es, Inr n))"

definition decodeMap ::
  "decoder \<Rightarrow> API \<Rightarrow> bool \<Rightarrow> go_type \<Rightarrow> go_type \<Rightarrow> TypeSettings \<Rightarrow> bytes \<Rightarrow> ((go_val \<times> go_val) fset \<times> int) res" where
  "decodeMap rec api validation keyType valType ts b =
     (let ts = ensureOrdering ts in
      andThen (decodeSequence validation (map_item rec api keyType valType) {||} ts b) (\<lambda>(es, n).
        andThen (if validation then check (checkMinMaxBounds ts (VMap es)) else ret ()) (\<lambda>_. ret (es, n))))"

definition decodeInterface :: "decoder \<Rightarrow> API \<Rightarrow> go_type \<Rightarrow> TypeSettings \<Rightarrow> bytes \<Rightarrow> (go_val \<times> int) res" where
  "decodeInterface rec api t ts b =
     (case interfacesRegistry api t of None \<Rightarrow> throw ''interface has not been registered''
      | Some iObjects \<Rightarrow>
          andThen (GetObjectType (NewDeserializer b) (io_typeDenotation iObjects)) (\<lambda>objectCode.
            case fromCodeToType iObjects objectCode of None \<Rightarrow> throw ''underlying type has not been registered''
            | Some objType \<Rightarrow>
                andThen (rec False objType ts b) (\<lambda>(v, n). ret (VIface (Some (objType, v)), n))))"

definition decode_field ::
  "(Deserializer \<Rightarrow> go_type \<Rightarrow> (go_val \<times> Deserializer) res) \<Rightarrow> decoder \<Rightarrow> structField \<Rightarrow> Deserializer
     \<Rightarrow> (go_val \<times> Deserializer) res" where
  "decode_field embedded rec sf d =
     (if isEmbedded sf \<and> \<not> inlined (sf_settings sf) then
        (if is_ptr_kind (fType sf) then
           (if isUnexported sf then throw ''embedded field is a nil pointer''
            else andThen (embedded d (DeRefPointer (fType sf))) (\<lambda>(v, d). ret (VPtr (Some v), d)))
         else embedded d (fType sf))
      else if isOptional (sf_settings sf) then
        (case ReadPayloadLength d of None \<Rightarrow> None
         | Some (d, Inl e) \<Rightarrow> Some (Inl e)
         | Some (d, Inr payloadLength) \<Rightarrow>
             if payloadLength = 0 then ret (nil_val (fType sf), d)
             else (case RemainingBytes d of None \<Rightarrow> None
               | Some b \<Rightarrow>
                   andThen (rec False (fType sf) (tag_ts (sf_settings sf)) b) (\<lambda>(v, bytesRead).
                     if bytesRead \<noteq> int (unat payloadLength) then throw ''optional object length is not equal to the bytes read''
                     else (case Skip d bytesRead id of None \<Rightarrow> None | Some d \<Rightarrow> ret (v, d)))))
      else (case RemainingBytes d of None \<Rightarrow> None
        | Some b \<Rightarrow>
            andThen (rec False (fType sf) (tag_ts (sf_settings sf)) b) (\<lambda>(v, bytesRead).
              case Skip d bytesRead id of None \<Rightarrow> None | Some d \<Rightarrow> ret (v, d))))"

fun decode_fields ::
  "(Deserializer \<Rightarrow> go_type \<Rightarrow> (go_val \<times> Deserializer) res) \<Rightarrow> decoder \<Rightarrow> structField list \<Rightarrow> Deserializer
     \<Rightarrow> (go_val list \<times> Deserializer) res" where
  "decode_fields embedded rec [] d = ret ([], d)"
| "decode_fields embedded rec (sf # sfs) d =
     andThen (decode_field embedded rec sf d) (\<lambda>(v, d).
       andThen (decode_fields embedded rec sfs d) (\<lambda>(vs, d). ret (v # vs, d)))"

text \<open>A new struct without fields for serix.\<close>

fun empty_struct :: "go_type \<Rightarrow> go_val" where
  "empty_struct TyTime = VTime zero_time"
| "empty_struct TyBigInt = VBigInt 0"
| "empty_struct _ = VStruct []"

primrec decodeStructFields ::
  "nat \<Rightarrow> decoder \<Rightarrow> API \<Rightarrow> Deserializer \<Rightarrow> go_type \<Rightarrow> (go_val \<times> Deserializer) res" where
  "decodeStructFields 0 rec api = (\<lambda>d t. None)"
| "decodeStructFields (Suc m) rec api = (\<lambda>d t.
     case getStructFields api t of Inl e \<Rightarrow> Some (Inl e)
     | Inr sfs \<Rightarrow>
         if sfs = [] then ret (empty_struct t, d)
         else andThen (decode_fields (decodeStructFields m rec api) rec sfs d) (\<lambda>(vs, d). ret (VStruct vs, d)))"

definition decodeStruct :: "nat \<Rightarrow> decoder \<Rightarrow> API \<Rightarrow> go_type \<Rightarrow> TypeSettings \<Rightarrow> bytes \<Rightarrow> (go_val \<times> int) res" where
  "decodeStruct m rec api t ts b =
     (if t = TyTime then finish (reading VTime (ReadTime (NewDeserializer b) zero_time id))
      else andThen (check_object_type ts (NewDeserializer b)) (\<lambda>d.
        andThen (decodeStructFields m rec api d t) (\<lambda>r. finish (Some r))))"

definition decodeString :: "bool \<Rightarrow> TypeSettings \<Rightarrow> bytes \<Rightarrow> (go_val \<times> int) res" where
  "decodeString validation ts b =
     (case lengthPrefixType ts of None \<Rightarrow> throw ''no LengthPrefixType was provided''
      | Some lpt \<Rightarrow>
          (let (minLen, maxLen) = (if validation then MinMaxLen ts else (0, 0)) in
           case ReadString (NewDeserializer b) [] lpt id minLen maxLen of None \<Rightarrow> None
           | Some (d, str) \<Rightarrow>
               if validation \<and> \<not> utf8_ValidString str then throw ''non UTF-8 string value''
               else finish (Some (VString str, d))))"

definition decode_kind ::
  "nat \<Rightarrow> decoder \<Rightarrow> API \<Rightarrow> bool \<Rightarrow> go_type \<Rightarrow> TypeSettings \<Rightarrow> bytes \<Rightarrow> (go_val \<times> int) res" where
  "decode_kind m rec api validation t ts b =
     (case t of
        TyStruct nm \<Rightarrow> decodeStruct m rec api t ts b
      | TyTime \<Rightarrow> decodeStruct m rec api t ts b
      | TyBigInt \<Rightarrow> decodeStruct m rec api t ts b
      | TySlice nm et \<Rightarrow> andThen (decodeSlice rec api validation et ts b) (\<lambda>(vs, n). ret (VSlice vs, n))
      | TyMap nm kt vt \<Rightarrow> andThen (decodeMap rec api validation kt vt ts b) (\<lambda>(es, n). ret (VMap es, n))
      | TyArray nm k et \<Rightarrow> andThen (decodeArray m rec api validation k et ts b) (\<lambda>(vs, n). ret (VArray vs, n))
      | TyIface nm \<Rightarrow> decodeInterface rec api t ts b
      | TyString nm \<Rightarrow> decodeString validation ts b
      | TyBool nm \<Rightarrow> finish (reading VBool (ReadBool (NewDeserializer b) False id))
      | TyNum nm nt \<Rightarrow>
          if nt = TBool \<or> nt = TOther then throw ''unsupported type''
          else finish (reading VNum (ReadNum (NewDeserializer b) nt (zero_num nt) id))
      | TyPtr u \<Rightarrow> None
      | TyOther nm \<Rightarrow> throw ''unsupported type'')"

text \<open>Behind a pointer the settings of the element type are only merged for the kinds without a case of their own.\<close>

fun has_own_case :: "go_type \<Rightarrow> bool" where
  "has_own_case (TySlice nm et) = True"
| "has_own_case (TyMap nm kt vt) = True"
| "has_own_case (TyArray nm k et) = True"
| "has_own_case (TyIface nm) = True"
| "has_own_case t = is_struct_kind t"

fun decodeBasedOnType ::
  "nat \<Rightarrow> decoder \<Rightarrow> API \<Rightarrow> bool \<Rightarrow> bool \<Rightarrow> go_type \<Rightarrow> TypeSettings \<Rightarrow> bytes \<Rightarrow> (go_val \<times> int) res" where
  "decodeBasedOnType m rec api validation isTop (TyPtr u) ts b =
     (let ts = ts_merge ts (fst (GetByType api (TyPtr u))) in
      if u = TyBigInt then
        (if isTop then None
         else finish (reading (\<lambda>n. VPtr (Some (VBigInt n))) (ReadUint256 (NewDeserializer b) 0 id)))
      else andThen (if has_own_case u then decode_kind m rec api validation u ts b
                    else decodeBasedOnType m rec api validation False u ts b) (\<lambda>(v, n). ret (VPtr (Some v), n)))"
| "decodeBasedOnType m rec api validation isTop t ts b =
     decode_kind m rec api validation t (ts_merge ts (fst (GetByType api t))) b"

definition decodeDeserializable ::
  "API \<Rightarrow> (bytes \<Rightarrow> seri_error + (go_val \<times> int)) \<Rightarrow> go_type \<Rightarrow> TypeSettings \<Rightarrow> bytes \<Rightarrow> (go_val \<times> int) res" where
  "decodeDeserializable api f t ts b =
     (let ts = ts_merge ts (fst (GetByType api (DeRefPointer t))) in
      andThen (check_object_type ts (NewDeserializer b)) (\<lambda>d.
        case RemainingBytes d of None \<Rightarrow> None
        | Some b \<Rightarrow>
            andThen (finish (Some ((), d))) (\<lambda>(_, prefixBytesRead).
              andThen (Some (f b)) (\<lambda>(v, bytesDecoded). ret (v, prefixBytesRead + bytesDecoded)))))"

definition decode_call :: "nat \<Rightarrow> decoder \<Rightarrow> API \<Rightarrow> bool \<Rightarrow> decoder" where
  "decode_call m rec api validation isTop t ts b =
     (case (if is_iface_kind t then None else Deserializable_Decode (prog api) t) of
        Some f \<Rightarrow>
          andThen (decodeDeserializable api f t ts b) (\<lambda>(v, n).
            andThen (if validation then callSyntacticValidator api v t else ret ()) (\<lambda>_. ret (v, n)))
      | None \<Rightarrow>
          if isTop \<and> is_ptr_kind (DeRefPointer t) \<and> Deserializable_Decode (prog api) (DeRefPointer t) \<noteq> None
          then andThen (rec False (DeRefPointer t) ts b) (\<lambda>(v, n). ret (VPtr (Some v), n))
          else andThen (decodeBasedOnType m rec api validation isTop t ts b) (\<lambda>(v, n).
            andThen (if validation then callSyntacticValidator api v t else ret ()) (\<lambda>_. ret (v, n))))"

text \<open>The recursion of the source follows the type and may not end for recursive types: \<open>n\<close> bounds its depth, and running out of it
  gives \<^term>\<open>None\<close>.\<close>

primrec decode :: "nat \<Rightarrow> API \<Rightarrow> bool \<Rightarrow> decoder" where
  "decode 0 api validation = (\<lambda>isTop t ts b. None)"
| "decode (Suc n) api validation = decode_call (Suc n) (decode n api validation) api validation"

text \<open>\<^verbatim>\<open>Decode\<close> into a pointer to a new value of type \<open>t\<close>: the value it points to afterwards.\<close>

definition Serix_Decode :: "nat \<Rightarrow> API \<Rightarrow> bool \<Rightarrow> TypeSettings \<Rightarrow> go_type \<Rightarrow> bytes \<Rightarrow> (go_val \<times> int) res" where
  "Serix_Decode n api validation ts t b =
     andThen (decode n api validation True (TyPtr t) ts b) (\<lambda>(v, k).
       case v of VPtr (Some w) \<Rightarrow> ret (w, k) | _ \<Rightarrow> None)"

end
