(* ===== verification/Serix_Codec.thy ===== *)
theory Serix_Codec
  imports Serix_Decode Seri_Objects
begin

text \<open>
  The wire format of serix as an inductive relation between values and bytes, and the round trip: the encoder writes the bytes of the
  format and the decoder reads the value back from them. The format says for which values this holds: the kinds that both directions
  support, with lengths that fit their prefix and elements that satisfy the rules of their type.
\<close>

section \<open>Definitions\<close>

text \<open>The object type in front of a value.\<close>

definition object_prefix :: "TypeSettings \<Rightarrow> bytes" where
  "object_prefix ts = (case objectType ts of None \<Rightarrow> [] | Some n \<Rightarrow> enc_num n)"

definition object_type_ok :: "TypeSettings \<Rightarrow> bool" where
  "object_type_ok ts \<longleftrightarrow> objectType ts = None \<or> (\<exists>r. getTypeDenotationAndCode (objectType ts) = Inr r)"

definition merged :: "API \<Rightarrow> TypeSettings \<Rightarrow> go_type \<Rightarrow> TypeSettings" where
  "merged api ts t = ts_merge ts (fst (GetByType api t))"

definition rules_of :: "TypeSettings \<Rightarrow> unit ArrayRules" where
  "rules_of ts = (case arrayRules ts of None \<Rightarrow> newArrayRules | Some r \<Rightarrow> r)"

text \<open>The encoded elements of a sequence are as the settings demand: in bounds and valid when the call validates, and
  already sorted where they are sorted before they are written.\<close>

definition sequence_ok :: "bool \<Rightarrow> TypeSettings \<Rightarrow> bytes list \<Rightarrow> bool" where
  "sequence_ok validation ts bs \<longleftrightarrow>
     (\<exists>lpt. lengthPrefixType ts = Some lpt \<and> length_fits lpt (length bs))
     \<and> (validation \<longrightarrow> CheckBounds (rules_of ts) (length bs) = None \<and> accepts (ElementValidationFunc (rules_of ts)) 0 bs)
     \<and> (DeSeri_HasMode (ts_toMode ts validation) DeSeriModePerformLexicalOrdering
        \<and> ArrayValidation_HasMode (ValidationMode (rules_of ts)) ArrayValidationModeLexicalOrdering \<longrightarrow> sorted bs)"

definition sequence_bytes :: "TypeSettings \<Rightarrow> bytes list \<Rightarrow> bytes" where
  "sequence_bytes ts bs = le_bytes (prefix_size (the (lengthPrefixType ts))) (length bs) @ concat bs"

definition validates :: "API \<Rightarrow> bool \<Rightarrow> go_type \<Rightarrow> go_val \<Rightarrow> bool" where
  "validates api validation t v \<longleftrightarrow> (validation \<longrightarrow> callSyntacticValidator api v t = ret ())"

text \<open>The kinds that write their object type, so that an interface finds it.\<close>

fun writes_prefix :: "go_type \<Rightarrow> bool" where
  "writes_prefix (TyStruct nm) = True"
| "writes_prefix (TyArray nm k et) = is_byte_elem et"
| "writes_prefix (TyPtr (TyStruct nm)) = True"
| "writes_prefix (TyPtr (TyArray nm k et)) = is_byte_elem et"
| "writes_prefix _ = False"

text \<open>The wire format: \<open>wire ts t v b\<close> says that the bytes \<open>b\<close> stand for the value \<open>v\<close> of type \<open>t\<close>. \<open>wire_body\<close> is the format
  once the settings are merged, \<open>wire_fields\<close> the one of the fields of a struct, \<open>wire_flat\<close> the one of all fields of a struct type,
  \<open>wire_elems\<close> and \<open>wire_entries\<close> the ones of the elements of a slice and the entries of a map.\<close>

inductive wire :: "API \<Rightarrow> bool \<Rightarrow> TypeSettings \<Rightarrow> go_type \<Rightarrow> go_val \<Rightarrow> bytes \<Rightarrow> bool"
  and wire_body :: "API \<Rightarrow> bool \<Rightarrow> TypeSettings \<Rightarrow> go_type \<Rightarrow> go_val \<Rightarrow> bytes \<Rightarrow> bool"
  and wire_fields :: "API \<Rightarrow> bool \<Rightarrow> structField list \<Rightarrow> go_val list \<Rightarrow> bytes \<Rightarrow> bool"
  and wire_flat :: "API \<Rightarrow> bool \<Rightarrow> go_type \<Rightarrow> go_val \<Rightarrow> bytes \<Rightarrow> bool"
  and wire_elems :: "API \<Rightarrow> bool \<Rightarrow> go_type \<Rightarrow> go_val list \<Rightarrow> bytes list \<Rightarrow> bool"
  and wire_entries :: "API \<Rightarrow> bool \<Rightarrow> go_type \<Rightarrow> go_type \<Rightarrow> (go_val \<times> go_val) list \<Rightarrow> bytes list \<Rightarrow> bool"
  for api :: API and validation :: bool
where
  wire_plain: "\<lbrakk>validates api validation t v; \<not> is_iface_kind t; Serializable_Encode (prog api) t = None;
     Deserializable_Decode (prog api) t = None; validation \<longrightarrow> checkMinMaxBounds (merged api ts t) v = None;
     wire_body api validation (merged api ts t) t v b\<rbrakk> \<Longrightarrow> wire api validation ts t v b"
| wire_custom: "\<lbrakk>validates api validation t v; \<not> is_iface_kind t; \<not> is_iface_kind (fst (dynamic t v));
     Serializable_Encode (prog api) t = Some f; Deserializable_Decode (prog api) t = Some g; f v = Inr b;
     \<And>rest. g (b @ rest) = Inr (v, int (length b)); dynamic t v = (t, v); object_type_ok (merged api ts t);
     objectType (ts_merge ts (fst (GetByType api (DeRefPointer t)))) = objectType (merged api ts t)\<rbrakk>
     \<Longrightarrow> wire api validation ts t v (object_prefix (merged api ts t) @ b)"
| wire_iface: "\<lbrakk>validates api validation (TyIface nm) (VIface (Some (dt, v))); Serializable_Encode (prog api) dt = None;
     validation \<longrightarrow> checkMinMaxBounds (merged api ts (TyIface nm)) (VIface (Some (dt, v))) = None;
     interfacesRegistry api (TyIface nm) = Some io; fromTypeToCode io dt = Some code; fromCodeToType io code = Some dt;
     getTypeDenotationAndCode (objectType (merged api (merged api ts (TyIface nm)) dt)) = Inr (io_typeDenotation io, code);
     writes_prefix dt; wire api validation (merged api ts (TyIface nm)) dt v b\<rbrakk>
     \<Longrightarrow> wire api validation ts (TyIface nm) (VIface (Some (dt, v))) b"
| body_bool: "wire_body api validation ts (TyBool nm) (VBool x) [if x then 1 else 0]"
| body_num: "num_ok n \<Longrightarrow> wire_body api validation ts (TyNum nm (num_type_of n)) (VNum n) (enc_num n)"
| body_string: "\<lbrakk>lengthPrefixType ts = Some lpt; length_fits lpt (length s);
     validation \<longrightarrow> utf8_ValidString s \<and> within (fst (MinMaxLen ts)) (snd (MinMaxLen ts)) (length s)\<rbrakk>
     \<Longrightarrow> wire_body api validation ts (TyString nm) (VString s) (le_bytes (prefix_size lpt) (length s) @ s)"
| body_time: "time_ok x \<Longrightarrow> wire_body api validation ts TyTime (VTime x) (le_bytes 8 (nat (nanos x)))"
| body_struct: "\<lbrakk>object_type_ok ts; wire_flat api validation (TyStruct nm) v b\<rbrakk>
     \<Longrightarrow> wire_body api validation ts (TyStruct nm) v (object_prefix ts @ b)"
| body_bigint: "\<lbrakk>0 \<le> n; n < 2 ^ 256\<rbrakk> \<Longrightarrow> wire_body api validation ts (TyPtr TyBigInt) (VPtr (Some (VBigInt n))) (le_bytes 32 (nat n))"
| body_ptr: "\<lbrakk>writes_prefix (TyPtr t) \<or> t = TyTime; wire_body api validation ts t v b\<rbrakk>
     \<Longrightarrow> wire_body api validation ts (TyPtr t) (VPtr (Some v)) b"
| body_bytes: "\<lbrakk>is_byte_elem et; lengthPrefixType ts = Some lpt; length_fits lpt (length s);
     within (fst (MinMaxLen ts)) (snd (MinMaxLen ts)) (length s)\<rbrakk>
     \<Longrightarrow> wire_body api validation ts (TySlice nm et) (VSlice (bytes_val s)) (le_bytes (prefix_size lpt) (length s) @ s)"
| body_slice: "\<lbrakk>\<not> is_byte_elem et; wire_elems api validation et vs bs; sequence_ok validation ts bs;
     validation \<longrightarrow> checkArrayMustOccur api et vs ts = ret ()\<rbrakk>
     \<Longrightarrow> wire_body api validation ts (TySlice nm et) (VSlice vs) (sequence_bytes ts bs)"
| body_array: "\<lbrakk>is_byte_elem et; object_type_ok ts\<rbrakk>
     \<Longrightarrow> wire_body api validation ts (TyArray nm (length s) et) (VArray (bytes_val s)) (object_prefix ts @ s)"
| body_map: "\<lbrakk>wire_entries api validation kt vt es bs; sequence_ok validation (ensureOrdering ts) bs;
     sorted_wrt (\<lambda>x y. \<not> go_eq (fst x) (fst y)) es; distinct es; mset (MapRange (prog api) (fset_of_list es)) = mset es;
     validation \<longrightarrow> checkMinMaxBounds ts (VMap (fset_of_list es)) = None\<rbrakk>
     \<Longrightarrow> wire_body api validation ts (TyMap nm kt vt) (VMap (fset_of_list es)) (sequence_bytes (ensureOrdering ts) bs)"
| flat_empty: "getStructFields api t = Inr [] \<Longrightarrow> wire_flat api validation t (empty_struct t) []"
| flat_fields: "\<lbrakk>getStructFields api t = Inr sfs; sfs \<noteq> []; wire_fields api validation sfs vs b\<rbrakk> \<Longrightarrow> wire_flat api validation t (VStruct vs) b"
| fields_nil: "wire_fields api validation [] [] []"
| fields_embedded: "\<lbrakk>isEmbedded sf; \<not> inlined (sf_settings sf); \<not> is_ptr_kind (fType sf); wire_flat api validation (fType sf) v b;
     wire_fields api validation sfs vs bs\<rbrakk> \<Longrightarrow> wire_fields api validation (sf # sfs) (v # vs) (b @ bs)"
| fields_embedded_ptr: "\<lbrakk>isEmbedded sf; \<not> inlined (sf_settings sf); fType sf = TyPtr t; \<not> isUnexported sf;
     wire_flat api validation t v b; wire_fields api validation sfs vs bs\<rbrakk> \<Longrightarrow> wire_fields api validation (sf # sfs) (VPtr (Some v) # vs) (b @ bs)"
| fields_none: "\<lbrakk>\<not> isEmbedded sf \<or> inlined (sf_settings sf); isOptional (sf_settings sf); is_ptr_kind (fType sf) \<or> is_iface_kind (fType sf);
     wire_fields api validation sfs vs bs\<rbrakk> \<Longrightarrow> wire_fields api validation (sf # sfs) (nil_val (fType sf) # vs) (le_bytes 4 0 @ bs)"
| fields_some: "\<lbrakk>\<not> isEmbedded sf \<or> inlined (sf_settings sf); isOptional (sf_settings sf); v \<noteq> VPtr None; v \<noteq> VIface None;
     wire api validation (tag_ts (sf_settings sf)) (fType sf) v b; b \<noteq> []; length b < 2 ^ 32; wire_fields api validation sfs vs bs\<rbrakk>
     \<Longrightarrow> wire_fields api validation (sf # sfs) (v # vs) (le_bytes 4 (length b) @ b @ bs)"
| fields_plain: "\<lbrakk>\<not> isEmbedded sf \<or> inlined (sf_settings sf); \<not> isOptional (sf_settings sf);
     wire api validation (tag_ts (sf_settings sf)) (fType sf) v b; wire_fields api validation sfs vs bs\<rbrakk>
     \<Longrightarrow> wire_fields api validation (sf # sfs) (v # vs) (b @ bs)"
| elems_nil: "wire_elems api validation et [] []"
| elems_cons: "\<lbrakk>wire api validation NewTypeSettings et v b; wire_elems api validation et vs bs\<rbrakk>
     \<Longrightarrow> wire_elems api validation et (v # vs) (b # bs)"
| entries_nil: "wire_entries api validation kt vt [] []"
| entries_cons: "\<lbrakk>GetByValue api kt k = Some kts; GetByValue api kt (nil_val kt) = Some kts; GetByValue api vt v = Some vts;
     GetByValue api vt (nil_val vt) = Some vts; wire api validation kts kt k b; wire api validation vts vt v c;
     wire_entries api validation kt vt es bs\<rbrakk> \<Longrightarrow> wire_entries api validation kt vt ((k, v) # es) ((b @ c) # bs)"

text \<open>An example program: a recursive struct with a number, a string, an optional pointer, a map and an interface, and an array
  type that implements the interface.\<close>

definition tx_fields :: "field_decl list" where
  "tx_fields = [
     \<lparr>fd_name = ''Nonce'', fd_type = TyNum [] TUint16, fd_tag = Some ''nonce'', fd_exported = True, fd_anonymous = False\<rparr>,
     \<lparr>fd_name = ''Memo'', fd_type = TyString [], fd_tag = Some ''memo,lenPrefix=uint8,maxLen=4'', fd_exported = True, fd_anonymous = False\<rparr>,
     \<lparr>fd_name = ''Parent'', fd_type = TyPtr (TyStruct ''Tx''), fd_tag = Some ''parent,optional'', fd_exported = True, fd_anonymous = False\<rparr>,
     \<lparr>fd_name = ''Fees'', fd_type = TyMap [] (TyNum [] TUint8) (TyNum [] TUint16), fd_tag = Some ''fees,lenPrefix=byte'', fd_exported = True,
       fd_anonymous = False\<rparr>,
     \<lparr>fd_name = ''hidden'', fd_type = TyOther ''chan'', fd_tag = None, fd_exported = False, fd_anonymous = False\<rparr>,
     \<lparr>fd_name = ''Target'', fd_type = TyIface ''Target'', fd_tag = Some ''target'', fd_exported = True, fd_anonymous = False\<rparr>]"

definition tx_program :: program where
  "tx_program = \<lparr>structs = (\<lambda>nm. if nm = ''Tx'' then tx_fields else []), Serializable_Encode = (\<lambda>_. None),
     Deserializable_Decode = (\<lambda>_. None), MapRange = (\<lambda>es. SOME l. distinct l \<and> fset_of_list l = es)\<rparr>"

abbreviation target_type :: go_type where "target_type \<equiv> TyArray ''ID'' 2 (TyNum [] TUint8)"

definition tx_registered :: API where
  "tx_registered = (NewAPI tx_program)\<lparr>typeSettingsRegistry :=
     [TyStruct ''Tx'' \<mapsto> WithObjectType (NUint32 9) NewTypeSettings, target_type \<mapsto> WithObjectType (NUint8 5) NewTypeSettings]\<rparr>"

definition tx_api :: API where
  "tx_api = fst (RegisterInterfaceObjects tx_registered (TyPtr (TyIface ''Target'')) [target_type])"

definition tx_value :: go_val where
  "tx_value = VStruct [VNum (NUint16 513), VString [104, 105], VPtr None, VMap {|(VNum (NUint8 3), VNum (NUint16 4))|},
     VIface (Some (target_type, VArray [VNum (NUint8 7), VNum (NUint8 8)]))]"

definition tx_bytes :: bytes where
  "tx_bytes = [9, 0, 0, 0, 1, 2, 2, 104, 105, 0, 0, 0, 0, 1, 3, 4, 0, 5, 7, 8]"

subsection \<open>Notions of the proofs\<close>

text \<open>A fact about the two bounds, the one of the recursion of \<^verbatim>\<open>encode\<close> and \<^verbatim>\<open>decode\<close> and the one of embedded structs, that holds
  for all that are large enough.\<close>

definition enough :: "(nat \<Rightarrow> nat \<Rightarrow> bool) \<Rightarrow> bool" where
  "enough P \<longleftrightarrow> (\<exists>N. \<forall>n\<ge>N. \<forall>m\<ge>N. P n m)"

fun runs :: "'st DeserializeFunc \<Rightarrow> 'st \<Rightarrow> bytes list \<Rightarrow> 'st \<Rightarrow> bool" where
  "runs item st [] st' \<longleftrightarrow> st = st'"
| "runs item st (b # bs) st' \<longleftrightarrow>
     (\<exists>st1. (\<forall>rest. item st (b @ rest) = Some (st1, Inr (int (length b)))) \<and> runs item st1 bs st')"

text \<open>What a pair of recursive calls promises for one value.\<close>

definition codes :: "encoder \<Rightarrow> decoder \<Rightarrow> TypeSettings \<Rightarrow> go_type \<Rightarrow> go_val \<Rightarrow> bytes \<Rightarrow> bool" where
  "codes rec dec ts t v b \<longleftrightarrow> rec v t ts = ret b \<and> (\<forall>rest. dec False t ts (b @ rest) = ret (v, int (length b)))"

text \<open>Decoding once the settings are merged.\<close>

definition decode_merged :: "nat \<Rightarrow> decoder \<Rightarrow> API \<Rightarrow> bool \<Rightarrow> go_type \<Rightarrow> TypeSettings \<Rightarrow> bytes \<Rightarrow> (go_val \<times> int) res" where
  "decode_merged m dec api validation t ts b =
     (case t of TyPtr u \<Rightarrow>
        if u = TyBigInt then finish (reading (\<lambda>n. VPtr (Some (VBigInt n))) (ReadUint256 (NewDeserializer b) 0 id))
        else andThen (decode_kind m dec api validation u ts b) (\<lambda>(v, n). ret (VPtr (Some v), n))
      | _ \<Rightarrow> decode_kind m dec api validation t ts b)"

definition codes_body :: "nat \<Rightarrow> encoder \<Rightarrow> decoder \<Rightarrow> API \<Rightarrow> bool \<Rightarrow> TypeSettings \<Rightarrow> go_type \<Rightarrow> go_val \<Rightarrow> bytes \<Rightarrow> bool" where
  "codes_body m rec dec api validation ts t v b \<longleftrightarrow> encode_kind m rec api validation t ts v = ret b
     \<and> (\<forall>rest. decode_merged m dec api validation t ts (b @ rest) = ret (v, int (length b)))
     \<and> (\<forall>u. t = TyPtr u \<longrightarrow> u = TyBigInt \<or> has_own_case u)"

definition codes_fields ::
  "nat \<Rightarrow> encoder \<Rightarrow> decoder \<Rightarrow> API \<Rightarrow> structField list \<Rightarrow> go_val list \<Rightarrow> bytes \<Rightarrow> bool" where
  "codes_fields m rec dec api sfs vs b \<longleftrightarrow>
     (\<forall>s. s_err s = None \<longrightarrow> encode_fields (encodeStructFields m rec api) rec sfs vs s = ret (buf_Write b s))
     \<and> (\<forall>d pre rest. standing d pre (b @ rest) \<longrightarrow>
          decode_fields (decodeStructFields m dec api) dec sfs d = ret (vs, advance (int (length b)) d))"

definition codes_flat :: "nat \<Rightarrow> encoder \<Rightarrow> decoder \<Rightarrow> API \<Rightarrow> go_type \<Rightarrow> go_val \<Rightarrow> bytes \<Rightarrow> bool" where
  "codes_flat m rec dec api t v b \<longleftrightarrow>
     (\<forall>s. s_err s = None \<longrightarrow> encodeStructFields m rec api s v t = ret (buf_Write b s))
     \<and> (\<forall>d pre rest. standing d pre (b @ rest) \<longrightarrow> decodeStructFields m dec api d t = ret (v, advance (int (length b)) d))"

definition codes_entry :: "encoder \<Rightarrow> decoder \<Rightarrow> API \<Rightarrow> go_type \<Rightarrow> go_type \<Rightarrow> go_val \<times> go_val \<Rightarrow> bytes \<Rightarrow> bool" where
  "codes_entry rec dec api kt vt e b \<longleftrightarrow> encodeMapKVPair rec api kt vt e = ret b
     \<and> (\<forall>rest. decodeMapKVPair dec api kt vt (b @ rest) = ret (e, int (length b)))"

definition codes_field :: "nat \<Rightarrow> encoder \<Rightarrow> decoder \<Rightarrow> API \<Rightarrow> structField \<Rightarrow> go_val \<Rightarrow> bytes \<Rightarrow> bool" where
  "codes_field m rec dec api sf v b \<longleftrightarrow>
     (\<forall>s. s_err s = None \<longrightarrow> encode_field (encodeStructFields m rec api) rec sf v s = ret (buf_Write b s))
     \<and> (\<forall>d pre rest. standing d pre (b @ rest) \<longrightarrow>
          decode_field (decodeStructFields m dec api) dec sf d = ret (v, advance (int (length b)) d))"

abbreviation plain_field :: "string \<Rightarrow> go_type \<Rightarrow> bool \<Rightarrow> TypeSettings \<Rightarrow> structField" where
  "plain_field nm t opt ts \<equiv> \<lparr>sf_name = nm, isUnexported = False, fType = t, isEmbedded = False,
     sf_settings = \<lparr>isOptional = opt, inlined = False, omitEmpty = False, tag_ts = ts\<rparr>\<rparr>"

section \<open>Lemmas\<close>

lemma andThen_simps [simp]: "andThen (ret x) f = f x" "andThen (Some (Inl e)) f = Some (Inl e)" "andThen None f = None"
  by (simp_all add: andThen_def)

lemma check_None [simp]: "check None = ret ()"
  by (simp add: check_def)

subsection \<open>Enough fuel\<close>

lemma enough_True [simp]: "enough (\<lambda>n m. True)"
  by (simp add: enough_def)

lemma enough_mono: "enough P \<Longrightarrow> (\<And>n m. P n m \<Longrightarrow> Q n m) \<Longrightarrow> enough Q"
  unfolding enough_def by blast

lemma enough_all: "(\<And>n m. P n m) \<Longrightarrow> enough P"
  by (simp add: enough_def)

lemma enough_conj:
  assumes "enough P" and "enough Q"
  shows "enough (\<lambda>n m. P n m \<and> Q n m)"
proof -
  from assms obtain M N where "\<forall>n\<ge>M. \<forall>m\<ge>M. P n m" "\<forall>n\<ge>N. \<forall>m\<ge>N. Q n m" by (auto simp: enough_def)
  then have "\<forall>n\<ge>max M N. \<forall>m\<ge>max M N. P n m \<and> Q n m" by simp
  then show ?thesis unfolding enough_def by blast
qed

lemma enough_mono2: "enough P \<Longrightarrow> enough Q \<Longrightarrow> (\<And>n m. P n m \<Longrightarrow> Q n m \<Longrightarrow> R n m) \<Longrightarrow> enough R"
  using enough_mono [OF enough_conj] by blast

lemma enough_call:
  assumes "enough P" and "\<And>k. P k (Suc k) \<Longrightarrow> Q (Suc k)"
  shows "enough (\<lambda>n m. Q n)"
proof -
  from assms(1) obtain N where N: "\<forall>n\<ge>N. \<forall>m\<ge>N. P n m" by (auto simp: enough_def)
  have "Q n" if "n \<ge> Suc N" for n
    using that N assms(2) [of "n - 1"] by (cases n) auto
  then show ?thesis unfolding enough_def by blast
qed

lemma enough_down:
  assumes "enough P" and "\<And>n m. P n m \<Longrightarrow> Q n (Suc m)"
  shows "enough Q"
proof -
  from assms(1) obtain N where N: "\<forall>n\<ge>N. \<forall>m\<ge>N. P n m" by (auto simp: enough_def)
  have "Q n m" if "n \<ge> Suc N" "m \<ge> Suc N" for n m
    using that N assms(2) [of n "m - 1"] by (cases m) auto
  then show ?thesis unfolding enough_def by blast
qed

subsection \<open>Reading from a new deserializer\<close>

lemma finish_standing: "standing d pre bs \<Longrightarrow> finish (Some (v, d)) = ret (v, int (length pre))"
  by (simp add: finish_def Done_def standing_def)

lemma finish_reading:
  "n \<le> length b \<Longrightarrow> finish (reading f (Some (advance (int n) (NewDeserializer b), x))) = ret (f x, int n)"
  by (simp add: finish_def reading_def Done_def NewDeserializer_def advance_def)

lemma d_err_new [simp]: "d_err (NewDeserializer b) = None"
  by (simp add: NewDeserializer_def)

lemma new_standing: "standing (NewDeserializer (b @ rest)) [] (b @ rest)"
  by (rule standing_NewDeserializer)

lemma Serialize_buf: "s_err s = None \<Longrightarrow> Serialize (buf_Write b s) = Inr (s_buf s @ b)"
  by (simp add: Serialize_def buf_Write_def)

lemma NewSerializer_simps [simp]: "s_err NewSerializer = None" "s_buf NewSerializer = []"
  by (simp_all add: NewSerializer_def)

lemma Serialize_new [simp]: "Serialize (buf_Write b NewSerializer) = Inr b" "Serialize NewSerializer = Inr []"
  by (simp_all add: Serialize_buf) (simp add: Serialize_def)

subsection \<open>Object types\<close>

lemma object_type_cases:
  assumes "getTypeDenotationAndCode ot = Inr (td, code)"
  obtains "ot = Some (NUint32 code)" "td = TypeDenotationUint32"
  | c where "ot = Some (NUint8 c)" "td = TypeDenotationByte" "code = ucast c"
  using assms by (auto simp: getTypeDenotationAndCode_def split: option.splits go_num.splits)

lemma write_object_type_ok: "object_type_ok ts \<Longrightarrow> write_object_type ts = buf_Write (object_prefix ts) NewSerializer"
  unfolding object_type_ok_def
  by (elim disjE exE, simp add: write_object_type_def object_prefix_def buf_Write_def NewSerializer_def)
    (case_tac r, auto elim!: object_type_cases simp: write_object_type_def object_prefix_def WriteNum_ok)

lemma CheckTypePrefix_ok:
  assumes "getTypeDenotationAndCode (objectType ts) = Inr (td, code)" and d: "standing d pre (object_prefix ts @ rest)"
  shows "CheckTypePrefix d code td id = Some (advance (int (length (object_prefix ts))) d)"
  using assms(1)
proof (cases rule: object_type_cases)
  case 1
  then have p: "object_prefix ts = le_bytes 4 (unat code)" by (simp add: object_prefix_def)
  have "word_of_nat (le_val (le_bytes 4 (unat code))) = code" by (rule word_of_le_val) simp
  then have "CheckType (le_bytes 4 (unat code) @ rest) code = None" by (simp add: CheckType_def byte_sizes del: le_bytes.simps le_val.simps)
  then show ?thesis using d p standing_simps [OF d]
    by (simp add: CheckTypePrefix_def Skip_def byte_sizes 1 del: le_bytes.simps)
next
  case (2 c)
  then have p: "object_prefix ts = [c]" by (simp add: object_prefix_def unat_byte_less)
  have "ucast (ucast c :: u32) = c" by (rule bit_word_eqI) (auto simp: bit_simps)
  then show ?thesis using d p standing_simps [OF d] 2
    by (simp add: CheckTypePrefix_def Skip_def byte_sizes CheckTypeByte_def)
qed

lemma check_object_type_ok:
  assumes "object_type_ok ts" and d: "standing d pre (object_prefix ts @ rest)"
  shows "check_object_type ts d = ret (advance (int (length (object_prefix ts))) d)"
proof (cases "objectType ts")
  case None
  then show ?thesis by (simp add: check_object_type_def object_prefix_def)
next
  case (Some n)
  then obtain td code where g: "getTypeDenotationAndCode (objectType ts) = Inr (td, code)"
    using assms(1) by (force simp: object_type_ok_def)
  with CheckTypePrefix_ok [OF g d] Some show ?thesis by (simp add: check_object_type_def)
qed

lemma GetObjectType_ok:
  assumes "getTypeDenotationAndCode (objectType ts) = Inr (td, code)"
  shows "GetObjectType (NewDeserializer (object_prefix ts @ rest)) td = ret code"
  using assms
proof (cases rule: object_type_cases)
  case 1
  then have p: "object_prefix ts = le_bytes 4 (unat code)" by (simp add: object_prefix_def)
  have "word_of_nat (le_val (le_bytes 4 (unat code))) = code" by (rule word_of_le_val) simp
  then show ?thesis using p standing_simps [OF new_standing [of "object_prefix ts" rest]]
    by (simp add: GetObjectType_def byte_sizes 1 del: le_bytes.simps le_val.simps)
next
  case (2 c)
  then have p: "object_prefix ts = [c]" by (simp add: object_prefix_def unat_byte_less)
  then show ?thesis using standing_simps [OF new_standing [of "object_prefix ts" rest]] 2 by (simp add: GetObjectType_def)
qed

subsection \<open>Sequences\<close>

lemma sequence_loop_runs:
  "runs item st bs st' \<Longrightarrow> standing d pre (concat bs @ rest) \<Longrightarrow> accepts vs i bs \<Longrightarrow>
    sequence_loop item ep (length bs) i vs st d = Some (st', advance (int (length (concat bs))) d)"
proof (induction bs arbitrary: st d pre i vs)
  case (Cons b bs)
  let ?rest = "concat bs @ rest"
  have st: "standing d pre (b @ ?rest)" using Cons.prems(2) by simp
  obtain st1 where item: "\<And>rest. item st (b @ rest) = Some (st1, Inr (int (length b)))" and runs: "runs item st1 bs st'"
    using Cons.prems(1) by auto
  obtain vs' where vs': "run_validators vs i b = Some (Inr vs')" "accepts vs' (Suc i) bs"
    using Cons.prems(3) by (auto simp: accepts_def split: option.splits sum.splits)
  have "slice_range (b @ ?rest) 0 (int (length b)) = Some b"
    using slice_range_nat [of 0 "length b" "b @ ?rest"] by simp
  with vs' have step: "sequence_loop item ep (length (b # bs)) i vs st d =
      sequence_loop item ep (length bs) (Suc i) vs' st1 (advance (int (length b)) d)"
    using item by (cases vs) (simp_all add: standing_RemainingBytes [OF st])
  show ?case unfolding step
    using Cons.IH [OF runs standing_advance_append [OF st] vs'(2)] by (simp add: advance_advance)
qed simp

lemma sequence_mode: "DeSeri_HasMode (ts_toMode ts validation) DeSeriModePerformValidation = validation"
  by (simp add: ts_toMode_def options_toMode_def LexicalOrdering_def DeSeri_HasMode_def mode_defs split: option.split)

lemma decodeSequence_ok:
  assumes ok: "sequence_ok validation ts bs" and runs: "runs item st bs st'"
  shows "decodeSequence validation item st ts (sequence_bytes ts bs @ rest) = ret (st', int (length (sequence_bytes ts bs)))"
proof -
  obtain lpt where lpt: "lengthPrefixType ts = Some lpt" "length_fits lpt (length bs)" using ok by (auto simp: sequence_ok_def)
  let ?d = "NewDeserializer (sequence_bytes ts bs @ rest)" and ?vs = "if validation then ElementValidationFunc (rules_of ts) else []"
  have st: "standing ?d [] (le_bytes (prefix_size lpt) (length bs) @ concat bs @ rest)"
    using standing_NewDeserializer by (simp add: sequence_bytes_def lpt)
  have st': "standing (advance (int (prefix_size lpt)) ?d) (le_bytes (prefix_size lpt) (length bs)) (concat bs @ rest)"
    using standing_advance_append [OF st] by simp
  have "accepts ?vs 0 bs" using ok by (simp add: sequence_ok_def)
  note loop = sequence_loop_runs [OF runs st' this, of id]
  have "ReadSequenceOfObjects item ?d st (ts_toMode ts validation) lpt (rules_of ts) id =
      Some (st', advance (int (length (concat bs))) (advance (int (prefix_size lpt)) ?d))"
    using loop ok runs unfolding ReadSequenceOfObjects_def readSliceLength_ok [OF st lpt(2)]
    by (auto simp: standing_err [OF st] sequence_mode sequence_ok_def Let_def)
  moreover have "standing (advance (int (length (concat bs))) (advance (int (prefix_size lpt)) ?d)) (sequence_bytes ts bs) rest"
    using standing_advance_append [OF st'] by (simp add: sequence_bytes_def lpt)
  ultimately show ?thesis
    by (simp add: decodeSequence_def lpt rules_of_def [symmetric] finish_standing Let_def)
qed

text \<open>What is written is sorted where the mode and the rules ask for it, so the order of the elements does not matter then.\<close>

lemma encodeSliceOfBytes_ok:
  assumes ok: "sequence_ok validation ts bs"
    and data: "data = bs \<or> (DeSeri_HasMode (ts_toMode ts validation) DeSeriModePerformLexicalOrdering
        \<and> ArrayValidation_HasMode (ValidationMode (rules_of ts)) ArrayValidationModeLexicalOrdering \<and> mset data = mset bs)"
  shows "encodeSliceOfBytes validation data ts = ret (sequence_bytes ts bs)"
proof -
  obtain lpt where lpt: "lengthPrefixType ts = Some lpt" "length_fits lpt (length bs)" using ok by (auto simp: sequence_ok_def)
  let ?S = "DeSeri_HasMode (ts_toMode ts validation) DeSeriModePerformLexicalOrdering
        \<and> ArrayValidation_HasMode (ValidationMode (rules_of ts)) ArrayValidationModeLexicalOrdering"
  have len: "length data = length bs" using data by (metis size_mset)
  have "sort data = bs" if ?S
    using that ok data by (metis properties_for_sort sequence_ok_def)
  moreover have "data = bs" if "\<not> ?S" using that data by blast
  ultimately have srt: "(if ?S then sort data else data) = bs" by simp
  have b: "(if validation then CheckBounds (rules_of ts) (length bs) else None) = None" using ok by (simp add: sequence_ok_def)
  have "accepts (if validation then ElementValidationFunc (rules_of ts) else []) 0 bs" using ok by (simp add: sequence_ok_def)
  note w = write_elements_ok [OF this]
  have "WriteSliceOfByteSlices NewSerializer data (ts_toMode ts validation) lpt (rules_of ts) id
      = Some (buf_Write (sequence_bytes ts bs) NewSerializer, bs)"
    unfolding WriteSliceOfByteSlices_def sequence_mode len
    by (simp only: NewSerializer_simps Let_def b srt w writeSliceLength_ok [OF NewSerializer_simps(1) lpt(2)] if_False simp_thms option.case)
      (simp add: buf_Write_def sequence_bytes_def lpt)
  then show ?thesis by (simp add: encodeSliceOfBytes_def lpt rules_of_def [symmetric] Let_def)
qed

subsection \<open>One call\<close>

lemma decode_based_merged:
  assumes "\<forall>u. t = TyPtr u \<longrightarrow> u = TyBigInt \<or> has_own_case u"
  shows "decodeBasedOnType m dec api validation False t ts b = decode_merged m dec api validation t (merged api ts t) b"
  using assms by (cases t) (auto simp: decode_merged_def merged_def Let_def)

lemma call_plain:
  assumes "validates api validation t v" "\<not> is_iface_kind t" "Serializable_Encode (prog api) t = None"
    "Deserializable_Decode (prog api) t = None" "validation \<longrightarrow> checkMinMaxBounds (merged api ts t) v = None"
    and body: "codes_body m rec dec api validation (merged api ts t) t v b" and dyn: "dynamic t v = (t, v)"
  shows "codes (encode_call m rec api validation) (decode_call m dec api validation) ts t v b"
proof -
  have "encode_call m rec api validation v t ts = ret b"
    using assms by (simp add: encode_call_def validates_def encodeBasedOnType_def Let_def merged_def codes_body_def)
  moreover have "decode_call m dec api validation False t ts (b @ rest) = ret (v, int (length b))" for rest
    using assms by (simp add: decode_call_def validates_def decode_based_merged codes_body_def)
  ultimately show ?thesis by (simp add: codes_def)
qed

lemma call_custom:
  assumes "validates api validation t v" "\<not> is_iface_kind t" and fg: "Serializable_Encode (prog api) t = Some f"
    "Deserializable_Decode (prog api) t = Some g" "f v = Inr b" "\<And>rest. g (b @ rest) = Inr (v, int (length b))"
    and dyn: "dynamic t v = (t, v)" and ok: "object_type_ok (merged api ts t)"
    and same: "objectType (ts_merge ts (fst (GetByType api (DeRefPointer t)))) = objectType (merged api ts t)"
  shows "codes (encode_call m rec api validation) (decode_call m dec api validation) ts t v (object_prefix (merged api ts t) @ b)"
proof -
  let ?p = "object_prefix (merged api ts t)" and ?ts = "ts_merge ts (fst (GetByType api (DeRefPointer t)))"
  have p: "object_prefix ?ts = ?p" and ok': "object_type_ok ?ts" using ok same by (simp_all add: object_prefix_def object_type_ok_def)
  have "encode_call m rec api validation v t ts = ret (?p @ b)"
    using assms write_object_type_ok [OF ok]
    by (simp add: encode_call_def validates_def encodeSerializable_def Let_def merged_def)
  moreover have "decode_call m dec api validation False t ts ((?p @ b) @ rest) = ret (v, int (length (?p @ b)))" for rest
  proof -
    let ?d = "NewDeserializer (?p @ b @ rest)"
    have st: "standing ?d [] (object_prefix ?ts @ b @ rest)" unfolding p by (rule standing_NewDeserializer)
    have st': "standing (advance (int (length ?p)) ?d) ?p (b @ rest)" using standing_advance_append [OF st] by (simp add: p)
    show ?thesis
      using assms check_object_type_ok [OF ok' st] standing_RemainingBytes [OF st'] finish_standing [OF st', of "()"]
      by (simp add: decode_call_def validates_def decodeDeserializable_def Let_def p)
  qed
  ultimately show ?thesis by (simp add: codes_def)
qed

subsection \<open>Bodies\<close>

lemma wire_body_dynamic: "wire_body api validation ts t v b \<Longrightarrow> dynamic t v = (t, v)"
  by (erule wire_body.cases) (auto elim!: wire_flat.cases simp: dynamic_def)

lemma codes_basic:
  "codes_body m rec dec api validation ts (TyBool nm) (VBool x) [if x then 1 else 0]"
  "num_ok n \<Longrightarrow> codes_body m rec dec api validation ts (TyNum nm (num_type_of n)) (VNum n) (enc_num n)"
  "time_ok x' \<Longrightarrow> codes_body m rec dec api validation ts TyTime (VTime x') (le_bytes 8 (nat (nanos x')))"
  "\<lbrakk>0 \<le> k; k < 2 ^ 256\<rbrakk> \<Longrightarrow> codes_body m rec dec api validation ts (TyPtr TyBigInt) (VPtr (Some (VBigInt k))) (le_bytes 32 (nat k))"
proof -
  have "ReadBool (NewDeserializer ([if x then 1 else 0] @ rest)) False id =
      Some (advance (int 1) (NewDeserializer ([if x then 1 else 0] @ rest)), x)" for rest
    using standing_simps [OF new_standing [of "[if x then 1 else 0]" rest]] standing_window [OF new_standing, of 1 "[if x then 1 else 0]" rest]
    by (simp add: ReadBool_def byte_sizes)
  then show "codes_body m rec dec api validation ts (TyBool nm) (VBool x) [if x then 1 else 0]"
    using finish_reading [of 1 "[if x then 1 else 0] @ rest" VBool x for rest]
    by (simp add: codes_body_def encode_kind_def WriteBool_def decode_merged_def decode_kind_def)
next
  assume n: "num_ok n"
  then have "num_type_of n \<noteq> TBool" "num_type_of n \<noteq> TOther" by (cases n; simp)+
  with n show "codes_body m rec dec api validation ts (TyNum nm (num_type_of n)) (VNum n) (enc_num n)"
    using ReadNum_ok [OF new_standing n, of _ "zero_num (num_type_of n)" id]
      finish_reading [of "length (enc_num n)" "enc_num n @ rest" VNum n for rest]
    by (simp add: codes_body_def encode_kind_def WriteNum_ok decode_merged_def decode_kind_def del: enc_num.simps)
next
  assume x: "time_ok x'"
  let ?b = "le_bytes 8 (nat (nanos x'))"
  show "codes_body m rec dec api validation ts TyTime (VTime x') ?b"
    using x ReadTime_ok [OF new_standing x, of _ zero_time id] finish_reading [of 8 "?b @ rest" VTime x' for rest]
    by (simp add: codes_body_def encode_kind_def encodeStruct_def WriteTime_ok decode_merged_def decode_kind_def decodeStruct_def
        del: le_bytes.simps)
next
  assume k: "0 \<le> k" "k < 2 ^ 256"
  let ?b = "le_bytes 32 (nat k)"
  show "codes_body m rec dec api validation ts (TyPtr TyBigInt) (VPtr (Some (VBigInt k))) ?b"
    using k ReadUint256_ok [OF new_standing k, of _ 0 id] finish_reading [of 32 "?b @ rest" "\<lambda>n. VPtr (Some (VBigInt n))" k for rest]
    by (simp add: codes_body_def encode_kind_def encode_ptr_def WriteUint256_ok decode_merged_def del: le_bytes.simps)
qed

lemma codes_string:
  assumes "lengthPrefixType ts = Some lpt" "length_fits lpt (length s)"
    "validation \<longrightarrow> utf8_ValidString s \<and> within (fst (MinMaxLen ts)) (snd (MinMaxLen ts)) (length s)"
  shows "codes_body m rec dec api validation ts (TyString nm) (VString s) (le_bytes (prefix_size lpt) (length s) @ s)"
proof -
  let ?mn = "if validation then fst (MinMaxLen ts) else 0" and ?mx = "if validation then snd (MinMaxLen ts) else 0"
  let ?b = "le_bytes (prefix_size lpt) (length s) @ s"
  have w: "within ?mn ?mx (length s)" using assms(3) by (simp add: within_def)
  have mm: "(if validation then MinMaxLen ts else (0, 0)) = (?mn, ?mx)" by simp
  show ?thesis
    unfolding codes_body_def encode_kind_def decode_merged_def decode_kind_def encodeString_def decodeString_def mm
    using assms WriteVariable_ok(2) [OF NewSerializer_simps(1) assms(2) w, of id] ReadVariable_ok(2) [OF new_standing assms(2) w, of _ "[]" id]
      finish_reading [of "prefix_size lpt + length s" "?b @ rest" VString s for rest]
    by (simp add: reading_def)
qed

lemma codes_bytes:
  assumes "is_byte_elem et" "lengthPrefixType ts = Some lpt" "length_fits lpt (length s)"
    "within (fst (MinMaxLen ts)) (snd (MinMaxLen ts)) (length s)"
  shows "codes_body m rec dec api validation ts (TySlice nm et) (VSlice (bytes_val s)) (le_bytes (prefix_size lpt) (length s) @ s)"
proof -
  let ?b = "le_bytes (prefix_size lpt) (length s) @ s"
  have vb: "val_bytes (bytes_val s) = Some s"
    unfolding val_bytes_def bytes_val_def by (induction s) simp_all
  show ?thesis
    using assms vb WriteVariable_ok(1) [OF NewSerializer_simps(1) assms(3,4), of id] ReadVariable_ok(1) [OF new_standing assms(3,4), of _ "[]" id]
      finish_reading [of "prefix_size lpt + length s" "?b @ rest" bytes_val s for rest]
    by (simp add: codes_body_def encode_kind_def decode_merged_def decode_kind_def encodeSlice_def decodeSlice_def)
qed

lemma codes_array:
  assumes "is_byte_elem et" "object_type_ok ts"
  shows "codes_body m rec dec api validation ts (TyArray nm (length s) et) (VArray (bytes_val s)) (object_prefix ts @ s)"
proof -
  have vb: "val_bytes (bytes_val s) = Some s"
    unfolding val_bytes_def bytes_val_def by (induction s) simp_all
  have "finish (reading bytes_val (ReadBytesInPlace (advance (int (length (object_prefix ts))) (NewDeserializer (object_prefix ts @ s @ rest)))
      (replicate (length s) 0) id)) = ret (bytes_val s, int (length (object_prefix ts) + length s))" for rest
  proof -
    let ?d = "NewDeserializer (object_prefix ts @ s @ rest)"
    have st: "standing (advance (int (length (object_prefix ts))) ?d) (object_prefix ts) (s @ rest)"
      using standing_advance_append [OF new_standing] by simp
    then show ?thesis using standing_window [OF st, of "length s"] finish_reading [of "length (object_prefix ts) + length s" "object_prefix ts @ s @ rest" bytes_val s]
      by (simp add: ReadBytesInPlace_def standing_simps [OF st] advance_advance)
  qed
  with assms vb show ?thesis using check_object_type_ok [OF assms(2) new_standing]
    by (simp add: codes_body_def encode_kind_def decode_merged_def decode_kind_def encodeArray_def decodeArray_def write_object_type_ok
        WriteBytes_def buf_Write_def Serialize_def)
qed

lemma codes_struct:
  assumes ok: "object_type_ok ts" and flat: "codes_flat m rec dec api (TyStruct nm) v b" and v: "\<And>x. v \<noteq> VTime x"
  shows "codes_body m rec dec api validation ts (TyStruct nm) v (object_prefix ts @ b)"
proof -
  have "encodeStruct m rec api v (TyStruct nm) ts = ret (object_prefix ts @ b)"
    using flat v by (cases v) (auto simp add: encodeStruct_def write_object_type_ok [OF ok] codes_flat_def Serialize_def buf_Write_def)
  moreover have "decodeStruct m dec api (TyStruct nm) ts ((object_prefix ts @ b) @ rest) = ret (v, int (length (object_prefix ts @ b)))" for rest
  proof -
    let ?d = "NewDeserializer (object_prefix ts @ b @ rest)"
    have st: "standing ?d [] (object_prefix ts @ b @ rest)" by (rule standing_NewDeserializer)
    have st': "standing (advance (int (length (object_prefix ts))) ?d) (object_prefix ts) (b @ rest)"
      using standing_advance_append [OF st] by simp
    have "standing (advance (int (length b)) (advance (int (length (object_prefix ts))) ?d)) (object_prefix ts @ b) rest"
      using standing_advance_append [OF st'] by simp
    moreover have "decodeStructFields m dec api (advance (int (length (object_prefix ts))) ?d) (TyStruct nm) =
        ret (v, advance (int (length b)) (advance (int (length (object_prefix ts))) ?d))"
      using flat st' unfolding codes_flat_def by blast
    ultimately show ?thesis using check_object_type_ok [OF ok st] by (simp add: decodeStruct_def finish_standing)
  qed
  ultimately show ?thesis by (simp add: codes_body_def encode_kind_def decode_merged_def decode_kind_def)
qed

lemma codes_ptr:
  assumes "writes_prefix (TyPtr t) \<or> t = TyTime" and "codes_body m rec dec api validation ts t v b"
  shows "codes_body m rec dec api validation ts (TyPtr t) (VPtr (Some v)) b"
  using assms by (cases t) (auto simp: codes_body_def encode_kind_def encode_ptr_def decode_merged_def split: go_val.splits)

lemma runs_elems:
  "list_all2 (\<lambda>v b. \<forall>rest. dec False et NewTypeSettings (b @ rest) = ret (v, int (length b))) vs bs \<Longrightarrow>
    runs (slice_item dec et) ws bs (ws @ vs)"
proof (induction arbitrary: ws rule: list_all2_induct)
  case (Cons v vs b bs)
  then show ?case using Cons.IH [of "ws @ [v]"] by (simp add: slice_item_def)
qed simp

lemma encode_all_elems: "list_all2 (\<lambda>x b. f x = ret b) xs bs \<Longrightarrow> encode_all f xs = ret bs"
  by (induction rule: list_all2_induct) simp_all

lemma codes_slice:
  assumes et: "\<not> is_byte_elem et" and els: "list_all2 (codes rec dec NewTypeSettings et) vs bs"
    and ok: "sequence_ok validation ts bs" and must: "validation \<longrightarrow> checkArrayMustOccur api et vs ts = ret ()"
  shows "codes_body m rec dec api validation ts (TySlice nm et) (VSlice vs) (sequence_bytes ts bs)"
proof -
  have "list_all2 (\<lambda>v b. rec v et NewTypeSettings = ret b) vs bs"
    and dec: "list_all2 (\<lambda>v b. \<forall>rest. dec False et NewTypeSettings (b @ rest) = ret (v, int (length b))) vs bs"
    using els by (auto simp: codes_def elim: list_all2_mono)
  then have "encode_all (\<lambda>v. rec v et NewTypeSettings) vs = ret bs" by (intro encode_all_elems)
  then have "encodeSlice rec api validation vs et ts = ret (sequence_bytes ts bs)"
    using et must encodeSliceOfBytes_ok [OF ok] by (simp add: encodeSlice_def)
  moreover have "decodeSlice dec api validation et ts (sequence_bytes ts bs @ rest) = ret (vs, int (length (sequence_bytes ts bs)))" for rest
    using et must decodeSequence_ok [OF ok, of "slice_item dec et" "[]" vs rest] runs_elems [of dec et vs bs "[]"] dec by (simp add: decodeSlice_def)
  ultimately show ?thesis by (simp add: codes_body_def encode_kind_def decode_merged_def decode_kind_def)
qed

lemma codes_entryI:
  assumes "GetByValue api kt k = Some kts" "GetByValue api kt (nil_val kt) = Some kts" "GetByValue api vt v = Some vts"
    "GetByValue api vt (nil_val vt) = Some vts" and k: "codes rec dec kts kt k b" and v: "codes rec dec vts vt v c"
  shows "codes_entry rec dec api kt vt (k, v) (b @ c)"
proof -
  have "slice_from (b @ c @ rest) (int (length b)) = Some (c @ rest)" for rest by simp
  with assms show ?thesis by (simp add: codes_entry_def encodeMapKVPair_def decodeMapKVPair_def codes_def)
qed

lemma runs_entries:
  "list_all2 (\<lambda>e b. \<forall>rest. decodeMapKVPair dec api kt vt (b @ rest) = ret (e, int (length b))) es bs \<Longrightarrow>
    sorted_wrt (\<lambda>x y. \<not> go_eq (fst x) (fst y)) es \<Longrightarrow> \<forall>x. x |\<in>| fs \<longrightarrow> (\<forall>y \<in> set es. \<not> go_eq (fst x) (fst y)) \<Longrightarrow>
    runs (map_item dec api kt vt) fs bs (fs |\<union>| fset_of_list es)"
proof (induction arbitrary: fs rule: list_all2_induct)
  case (Cons e es b bs)
  have "map_item dec api kt vt fs (b @ rest) = Some (finsert e fs, Inr (int (length b)))" for rest
    using Cons.hyps(1) Cons.prems(2) by (auto simp: map_item_def)
  moreover have "runs (map_item dec api kt vt) (finsert e fs) bs (finsert e fs |\<union>| fset_of_list es)"
    using Cons.prems by (intro Cons.IH) auto
  ultimately show ?case by auto
qed simp

lemma ensureOrdering_sorts:
  "DeSeri_HasMode (ts_toMode (ensureOrdering ts) validation) DeSeriModePerformLexicalOrdering"
  "ArrayValidation_HasMode (ValidationMode (rules_of (ensureOrdering ts))) ArrayValidationModeLexicalOrdering"
proof -
  show "DeSeri_HasMode (ts_toMode (ensureOrdering ts) validation) DeSeriModePerformLexicalOrdering"
    by (simp add: ts_toMode_def options_toMode_def LexicalOrdering_def ensureOrdering_def WithArrayRules_def WithLexicalOrdering_def
        DeSeri_HasMode_def mode_defs Let_def)
  have "and (or w 2) 2 > (0 :: byte)" for w
  proof -
    have "bit (and (or w 2) (2 :: byte)) 1" by (simp add: bit_and_iff bit_or_iff bit_numeral_rec)
    then have "and (or w 2) (2 :: byte) \<noteq> 0" by (metis bit_0_eq bot_apply bot_bool_def)
    then show ?thesis by (simp add: word_greater_zero_iff)
  qed
  then show "ArrayValidation_HasMode (ValidationMode (rules_of (ensureOrdering ts))) ArrayValidationModeLexicalOrdering"
    by (simp add: ensureOrdering_def WithArrayRules_def WithLexicalOrdering_def rules_of_def ArrayValidation_HasMode_def mode_defs Let_def)
qed

lemma codes_map:
  assumes ents: "list_all2 (codes_entry rec dec api kt vt) es bs" and ok: "sequence_ok validation (ensureOrdering ts) bs"
    and keys: "sorted_wrt (\<lambda>x y. \<not> go_eq (fst x) (fst y)) es"
    and order: "mset (MapRange (prog api) (fset_of_list es)) = mset es"
    and bounds: "validation \<longrightarrow> checkMinMaxBounds ts (VMap (fset_of_list es)) = None"
  shows "codes_body m rec dec api validation ts (TyMap nm kt vt) (VMap (fset_of_list es)) (sequence_bytes (ensureOrdering ts) bs)"
proof -
  define f where "f e = (case encodeMapKVPair rec api kt vt e of Some (Inr b) \<Rightarrow> b | _ \<Rightarrow> [])" for e
  have enc: "list_all2 (\<lambda>e b. encodeMapKVPair rec api kt vt e = ret b) es bs"
    and dec: "list_all2 (\<lambda>e b. \<forall>rest. decodeMapKVPair dec api kt vt (b @ rest) = ret (e, int (length b))) es bs"
    using ents by (auto simp: codes_entry_def elim: list_all2_mono)
  then have "bs = map f es" by (auto simp: list_all2_conv_all_nth f_def intro: nth_equalityI)
  moreover have all: "encodeMapKVPair rec api kt vt e = ret (f e)" if "e \<in> set es" for e
    using enc that by (auto simp: list_all2_conv_all_nth in_set_conv_nth f_def)
  have "set (MapRange (prog api) (fset_of_list es)) = set es" using order by (metis set_mset_mset)
  then have "encode_all (encodeMapKVPair rec api kt vt) (MapRange (prog api) (fset_of_list es)) = ret (map f (MapRange (prog api) (fset_of_list es)))"
    using all by (intro encode_all_elems) (metis (mono_tags, lifting) list_all2_map2 list.rel_refl_strong)
  moreover have "mset (map f (MapRange (prog api) (fset_of_list es))) = mset (map f es)" using order by simp
  ultimately have "encodeMap rec api validation (fset_of_list es) kt vt ts = ret (sequence_bytes (ensureOrdering ts) bs)"
    using encodeSliceOfBytes_ok [OF ok, of "map f (MapRange (prog api) (fset_of_list es))"] bounds ensureOrdering_sorts
    by (simp add: encodeMap_def)
  moreover have "checkMinMaxBounds (ensureOrdering ts) v = checkMinMaxBounds ts v" for v
    by (simp add: checkMinMaxBounds_def checkMinMaxBoundsLength_def MinLen_def MaxLen_def ensureOrdering_def WithArrayRules_def
        WithLexicalOrdering_def newArrayRules_def Let_def split: option.split)
  moreover have "runs (map_item dec api kt vt) {||} bs (fset_of_list es)"
    using runs_entries [OF dec keys, of "{||}"] by simp
  ultimately show ?thesis using decodeSequence_ok [OF ok, of "map_item dec api kt vt" "{||}" "fset_of_list es"] bounds
    by (simp add: codes_body_def encode_kind_def decode_merged_def decode_kind_def decodeMap_def Let_def)
qed

subsection \<open>Fields\<close>

lemma codes_flat_empty:
  "getStructFields api t = Inr [] \<Longrightarrow> codes_flat (Suc m) rec dec api t (empty_struct t) []"
  by (auto simp: codes_flat_def buf_Write_def advance_def)

lemma codes_flat_fields:
  "\<lbrakk>getStructFields api t = Inr sfs; sfs \<noteq> []; codes_fields m rec dec api sfs vs b\<rbrakk> \<Longrightarrow> codes_flat (Suc m) rec dec api t (VStruct vs) b"
  by (auto simp: codes_flat_def codes_fields_def)

lemma codes_fields_Nil: "codes_fields m rec dec api [] [] []"
  by (auto simp: codes_fields_def buf_Write_def advance_def)

lemma codes_fields_Cons:
  assumes hd: "codes_field m rec dec api sf v b" and tl: "codes_fields m rec dec api sfs vs c"
  shows "codes_fields m rec dec api (sf # sfs) (v # vs) (b @ c)"
proof -
  have "encode_fields (encodeStructFields m rec api) rec (sf # sfs) (v # vs) s = ret (buf_Write (b @ c) s)" if "s_err s = None" for s
    using hd tl that by (simp add: codes_field_def codes_fields_def) (simp add: buf_Write_def)
  moreover have "decode_fields (decodeStructFields m dec api) dec (sf # sfs) d = ret (v # vs, advance (int (length (b @ c))) d)"
    if st: "standing d pre ((b @ c) @ rest)" for d pre rest
  proof -
    have st0: "standing d pre (b @ c @ rest)" using st by simp
    have "standing (advance (int (length b)) d) (pre @ b) (c @ rest)" by (rule standing_advance_append [OF st0])
    then have "decode_fields (decodeStructFields m dec api) dec sfs (advance (int (length b)) d) =
        ret (vs, advance (int (length c)) (advance (int (length b)) d))" using tl unfolding codes_fields_def by blast
    moreover have "decode_field (decodeStructFields m dec api) dec sf d = ret (v, advance (int (length b)) d)"
      using hd st0 unfolding codes_field_def by blast
    ultimately show ?thesis by (simp add: advance_def algebra_simps)
  qed
  ultimately show ?thesis unfolding codes_fields_def by blast
qed

lemma codes_field_embedded:
  assumes "isEmbedded sf" "\<not> inlined (sf_settings sf)" "\<not> is_ptr_kind (fType sf)" "\<And>x. v \<noteq> VPtr x"
    "codes_flat m rec dec api (fType sf) v b"
  shows "codes_field m rec dec api sf v b"
  using assms by (cases v) (auto simp: codes_field_def codes_flat_def encode_field_def decode_field_def)

lemma codes_field_embedded_ptr:
  assumes "isEmbedded sf" "\<not> inlined (sf_settings sf)" "fType sf = TyPtr t" "\<not> isUnexported sf" "codes_flat m rec dec api t v b"
  shows "codes_field m rec dec api sf (VPtr (Some v)) b"
proof -
  have "decode_field (decodeStructFields m dec api) dec sf d = ret (VPtr (Some v), advance (int (length b)) d)"
    if "standing d pre (b @ rest)" for d pre rest
  proof -
    have "decodeStructFields m dec api d t = ret (v, advance (int (length b)) d)" using assms(5) that unfolding codes_flat_def by blast
    with assms(1-4) show ?thesis by (simp add: decode_field_def)
  qed
  with assms show ?thesis by (simp add: codes_field_def codes_flat_def encode_field_def) 
qed

lemma Skip_ok: "standing d pre (b @ rest) \<Longrightarrow> Skip d (int (length b)) f = Some (advance (int (length b)) d)"
  by (simp add: Skip_def standing_simps)

lemma codes_field_plain:
  assumes "\<not> isEmbedded sf \<or> inlined (sf_settings sf)" "\<not> isOptional (sf_settings sf)" "codes rec dec (tag_ts (sf_settings sf)) (fType sf) v b"
  shows "codes_field m rec dec api sf v b"
proof -
  have "decode_field (decodeStructFields m dec api) dec sf d = ret (v, advance (int (length b)) d)"
    if st: "standing d pre (b @ rest)" for d pre rest
    using assms Skip_ok [OF st] standing_RemainingBytes [OF st] by (auto simp: codes_def decode_field_def)
  moreover have "encode_field (encodeStructFields m rec api) rec sf v s = ret (buf_Write b s)" if "s_err s = None" for s
    using assms that by (auto simp: codes_def encode_field_def WriteBytes_def)
  ultimately show ?thesis by (simp add: codes_field_def)
qed

lemma codes_field_none:
  assumes "\<not> isEmbedded sf \<or> inlined (sf_settings sf)" "isOptional (sf_settings sf)" "is_ptr_kind (fType sf) \<or> is_iface_kind (fType sf)"
  shows "codes_field m rec dec api sf (nil_val (fType sf)) (le_bytes 4 0)"
proof -
  have "decode_field (decodeStructFields m dec api) dec sf d = ret (nil_val (fType sf), advance (int (length (le_bytes 4 0))) d)"
    if st: "standing d pre (le_bytes 4 0 @ rest)" for d pre rest
    using assms ReadPayloadLength_ok [OF st] by (auto simp: decode_field_def length_le_bytes)
  moreover have "encode_field (encodeStructFields m rec api) rec sf (nil_val (fType sf)) s = ret (buf_Write (le_bytes 4 0) s)"
    if "s_err s = None" for s
    using assms that by (auto simp: encode_field_def WritePayloadLength_def writePayloadLength_def nil_val_def simp del: le_bytes.simps)
  ultimately show ?thesis by (simp add: codes_field_def)
qed

lemma codes_field_some:
  assumes "\<not> isEmbedded sf \<or> inlined (sf_settings sf)" "isOptional (sf_settings sf)" "v \<noteq> VPtr None" "v \<noteq> VIface None"
    "codes rec dec (tag_ts (sf_settings sf)) (fType sf) v b" "b \<noteq> []" and len: "length b < 2 ^ 32"
  shows "codes_field m rec dec api sf v (le_bytes 4 (length b) @ b)"
proof -
  let ?n = "word_of_nat (length b) :: u32"
  have n: "unat ?n = length b" using len by (simp add: unat_of_nat)
  then have nz: "?n \<noteq> 0" using \<open>b \<noteq> []\<close> by auto
  have "decode_field (decodeStructFields m dec api) dec sf d = ret (v, advance (int (length (le_bytes 4 (length b) @ b))) d)"
    if st: "standing d pre ((le_bytes 4 (length b) @ b) @ rest)" for d pre rest
  proof -
    have d0: "standing d pre (le_bytes 4 (length b) @ b @ rest)" using st by simp
    have d1: "standing (advance 4 d) (pre @ le_bytes 4 (length b)) (b @ rest)"
      using standing_advance_append [OF d0] by (simp add: length_le_bytes)
    show ?thesis using assms n nz ReadPayloadLength_ok [OF d0 len] standing_RemainingBytes [OF d1] Skip_ok [OF d1]
      by (auto simp: decode_field_def codes_def length_le_bytes advance_advance)
  qed
  moreover have "encode_field (encodeStructFields m rec api) rec sf v s = ret (buf_Write (le_bytes 4 (length b) @ b) s)"
    if "s_err s = None" for s
    using assms that n by (auto simp: encode_field_def codes_def WriteBytes_def WritePayloadLength_def writePayloadLength_def buf_Write_def
        simp del: le_bytes.simps)
  ultimately show ?thesis unfolding codes_field_def by blast
qed

subsection \<open>Interfaces\<close>

text \<open>The kinds that write their object type have it in front.\<close>

inductive_cases wire_body_ptrE: "wire_body api validation ts (TyPtr t) v b"
inductive_cases wire_body_structE: "wire_body api validation ts (TyStruct nm) v b"
inductive_cases wire_body_arrayE: "wire_body api validation ts (TyArray nm k et) v b"

lemma body_prefix:
  assumes "wire_body api validation ts t v b" "writes_prefix t"
  shows "\<exists>c. b = object_prefix ts @ c"
  using assms by (cases t rule: writes_prefix.cases) (auto elim!: wire_body_ptrE wire_body_structE wire_body_arrayE)

lemma wire_prefix:
  assumes "wire api validation ts t v b" "writes_prefix t" "Serializable_Encode (prog api) t = None"
  shows "\<exists>c. b = object_prefix (merged api ts t) @ c"
  using assms by (cases rule: wire.cases) (auto dest: body_prefix)

lemma call_iface:
  assumes "validates api validation (TyIface nm) (VIface (Some (dt, v)))" "Serializable_Encode (prog api) dt = None"
    "validation \<longrightarrow> checkMinMaxBounds (merged api ts (TyIface nm)) (VIface (Some (dt, v))) = None"
    "interfacesRegistry api (TyIface nm) = Some io" "fromTypeToCode io dt = Some code" "fromCodeToType io code = Some dt"
    and code: "getTypeDenotationAndCode (objectType ts') = Inr (io_typeDenotation io, code)" and b: "b = object_prefix ts' @ c"
    and codes: "codes rec dec (merged api ts (TyIface nm)) dt v b"
  shows "codes (encode_call m rec api validation) (decode_call m dec api validation) ts (TyIface nm) (VIface (Some (dt, v))) b"
proof -
  have "encode_call m rec api validation (VIface (Some (dt, v))) (TyIface nm) ts = ret b"
    using assms by (simp add: encode_call_def validates_def dynamic_def encodeBasedOnType_def merged_def encode_kind_def encodeInterface_def codes_def Let_def)
  moreover have "decode_call m dec api validation False (TyIface nm) ts (b @ rest) = ret (VIface (Some (dt, v)), int (length b))" for rest
    using assms GetObjectType_ok [OF code, of "c @ rest"]
    by (simp add: decode_call_def validates_def merged_def decode_kind_def decodeInterface_def codes_def)
  ultimately show ?thesis by (simp add: codes_def)
qed

subsection \<open>The round trip\<close>

text \<open>Every rule of the wire format holds with the bounds of its premises, or the next ones.\<close>

lemma wire_codes:
  shows "wire api validation ts t v b \<Longrightarrow> enough (\<lambda>n m. codes (encode n api validation) (decode n api validation) ts t v b)"
    and "wire_body api validation ts t v b \<Longrightarrow>
      enough (\<lambda>n m. codes_body m (encode n api validation) (decode n api validation) api validation ts t v b)"
    and "wire_fields api validation sfs vs b \<Longrightarrow> enough (\<lambda>n m. codes_fields m (encode n api validation) (decode n api validation) api sfs vs b)"
    and "wire_flat api validation t v b \<Longrightarrow> enough (\<lambda>n m. codes_flat m (encode n api validation) (decode n api validation) api t v b)"
    and "wire_elems api validation t vs bs \<Longrightarrow>
      enough (\<lambda>n m. list_all2 (codes (encode n api validation) (decode n api validation) NewTypeSettings t) vs bs)"
    and "wire_entries api validation kt vt es bs \<Longrightarrow>
      enough (\<lambda>n m. list_all2 (codes_entry (encode n api validation) (decode n api validation) api kt vt) es bs)"
proof (induction rule: wire_wire_body_wire_fields_wire_flat_wire_elems_wire_entries.inducts)
  case (wire_plain t v ts b)
  from wire_plain(6) show ?case by (rule enough_call) (use wire_plain in \<open>simp add: call_plain wire_body_dynamic\<close>)
next
  case (wire_custom t v f g b ts)
  show ?case by (rule enough_call [OF enough_True]) (use wire_custom in \<open>simp add: call_custom\<close>)
next
  case (wire_iface nm dt v ts io code b)
  obtain c where c: "b = object_prefix (merged api (merged api ts (TyIface nm)) dt) @ c" using wire_iface wire_prefix by blast
  from wire_iface(7) show ?case
    by (rule enough_call) (simp add: call_iface [OF wire_iface(1-4,8,9,5) c])
next
  case (body_struct ts nm v b)
  then have "v \<noteq> VTime x" for x by (auto elim: wire_flat.cases)
  with body_struct(1) show ?case by (intro enough_mono [OF body_struct(3)] codes_struct)
next
  case (body_ptr t ts v b)
  from body_ptr(3) show ?case by (rule enough_mono) (rule codes_ptr [OF body_ptr(1)])
next
  case (body_slice et vs bs ts nm)
  from body_slice(3) show ?case by (rule enough_mono) (rule codes_slice [OF body_slice(1) _ body_slice(4,5)])
next
  case (body_map kt vt es bs ts nm)
  from body_map(2) show ?case by (rule enough_mono) (rule codes_map [OF _ body_map(3,6,4,5)])
next
  case (flat_empty t)
  show ?case by (rule enough_down [OF enough_True]) (rule codes_flat_empty [OF flat_empty])
next
  case (flat_fields t sfs vs b)
  from flat_fields(3) show ?case by (rule enough_down) (rule codes_flat_fields [OF flat_fields(1,4)])
next
  case (fields_embedded sf v b sfs vs bs)
  have "v \<noteq> VPtr x" for x using fields_embedded(4) by (cases "fType sf") (auto elim!: wire_flat.cases)
  with fields_embedded(1-3) show ?case
    by (intro enough_mono2 [OF fields_embedded(5,7)] codes_fields_Cons codes_field_embedded)
next
  case (fields_embedded_ptr sf t v b sfs vs bs)
  then show ?case by (intro enough_mono2 [OF fields_embedded_ptr(6,8)] codes_fields_Cons codes_field_embedded_ptr)
next
  case (fields_none sf sfs vs bs)
  from fields_none(5) show ?case by (rule enough_mono) (rule codes_fields_Cons [OF codes_field_none [OF fields_none(1-3)]])
next
  case (fields_some sf v b sfs vs bs)
  then show ?case unfolding append_assoc [symmetric]
    by (intro enough_mono2 [OF fields_some(8,10)] codes_fields_Cons codes_field_some)
next
  case (fields_plain sf v b sfs vs bs)
  then show ?case by (intro enough_mono2 [OF fields_plain(4,6)] codes_fields_Cons codes_field_plain)
next
  case (elems_cons et v b vs bs)
  then show ?case by (intro enough_mono2 [OF elems_cons(2,4)]) simp
next
  case (entries_cons kt k kts vt v vts b c es bs)
  show ?case
    by (rule enough_mono2 [OF enough_conj [OF entries_cons(6,8)] entries_cons(10)]) (simp add: codes_entryI [OF entries_cons(1-4)])
qed (auto intro!: enough_all codes_basic codes_string codes_bytes codes_array codes_fields_Nil simp del: enc_num.simps split del: if_split)

lemma decode_top:
  assumes "wire api validation ts (TyPtr t) v b" "t \<noteq> TyBigInt"
  shows "decode n api validation True (TyPtr t) ts c = decode n api validation False (TyPtr t) ts c"
proof (cases n)
  case (Suc k)
  have "\<not> is_ptr_kind t" if "Deserializable_Decode (prog api) (TyPtr t) = None"
    using assms(1) that
    by (cases rule: wire.cases) (auto elim!: wire_body_ptrE dest: assms(2) [THEN notE] elim: writes_prefix.elims)
  with Suc assms(2) show ?thesis by (auto simp: decode_call_def split: option.splits)
qed simp

subsection \<open>The example\<close>

lemma tx_range: "MapRange tx_program {|e|} = [e]"
proof -
  have "distinct [e] \<and> fset_of_list [e] = {|e|}" by simp
  then have d: "distinct (MapRange tx_program {|e|}) \<and> fset_of_list (MapRange tx_program {|e|}) = {|e|}"
    unfolding tx_program_def by (simp only: program.simps) (rule someI)
  then have "set (MapRange tx_program {|e|}) = {e}" by (metis bot_fset.rep_eq finsert.rep_eq fset_of_list.rep_eq)
  with d show ?thesis by (cases "MapRange tx_program {|e|}") (auto simp: subset_singleton_iff)
qed

lemma tx_api_eq:
  "tx_api = \<lparr>prog = tx_program, interfacesRegistry = [TyIface ''Target'' \<mapsto> \<lparr>io_typeDenotation = TypeDenotationByte,
       fromCodeToType = [5 \<mapsto> target_type], fromTypeToCode = [target_type \<mapsto> 5]\<rparr>],
     typeSettingsRegistry = [TyStruct ''Tx'' \<mapsto> WithObjectType (NUint32 9) NewTypeSettings, target_type \<mapsto> WithObjectType (NUint8 5) NewTypeSettings],
     validatorsRegistry = Map.empty, structFieldsCache = Map.empty\<rparr>"
  by (simp add: tx_api_def tx_registered_def NewAPI_def RegisterInterfaceObjects_def GetObjectMetadata_def GetByType_def
      getTypeDenotationAndCode_def WithObjectType_def AddObject_def)

lemmas tag_defs = ParseSerixSettings_def Let_def digit_value_def tag_part_def parseStructTagValue_def parseStructTagValuePrefixType_def
  parseStructTagValueUint_def ParseUint_def parseLengthPrefixType_def

lemma tx_parsed: "getStructFields tx_api (TyStruct ''Tx'') = Inr [
    plain_field ''Nonce'' (TyNum [] TUint16) False (WithFieldKey ''nonce'' NewTypeSettings),
    plain_field ''Memo'' (TyString []) False
      (WithMaxLen 4 (WithLengthPrefixType SeriLengthPrefixTypeAsByte (WithFieldKey ''memo'' NewTypeSettings))),
    plain_field ''Parent'' (TyPtr (TyStruct ''Tx'')) True (WithFieldKey ''parent'' NewTypeSettings),
    plain_field ''Fees'' (TyMap [] (TyNum [] TUint8) (TyNum [] TUint16)) False
      (WithLengthPrefixType SeriLengthPrefixTypeAsByte (WithFieldKey ''fees'' NewTypeSettings)),
    plain_field ''Target'' (TyIface ''Target'') False (WithFieldKey ''target'' NewTypeSettings)]"
  by (simp add: getStructFields_def tx_api_eq tx_program_def tx_fields_def isUnderlyingStruct_def isUnderlyingInterface_def tag_defs)

lemmas settings_defs = merged_def ts_merge_def GetByType_def orElse_def WithFieldKey_def WithObjectType_def WithLengthPrefixType_def
  WithMaxLen_def NewTypeSettings_def newArrayRules_def checkMinMaxBounds_def checkMinMaxBoundsLength_def MinLen_def MaxLen_def
  MinMaxLen_def int_of_uint_def validates_def callSyntacticValidator_def object_type_ok_def object_prefix_def getTypeDenotationAndCode_def

lemma tx_num: "num_ok n \<Longrightarrow> num_type_of n = nt \<Longrightarrow> enc_num n = b \<Longrightarrow> wire tx_api True ts (TyNum [] nt) (VNum n) b"
  by (rule wire_plain) (auto simp: settings_defs tx_api_eq tx_program_def simp del: enc_num.simps intro: body_num)

lemma tx_registry: "typeSettingsRegistry tx_api (TyNum nm nt) = None"
  by (simp add: tx_api_eq)

lemma tx_encoded: "enc_num (NUint8 3) = [3]" "enc_num (NUint16 4) = [4, 0]" "enc_num (NUint16 513) = [1, 2]"
  "le_bytes 4 9 = [9, 0, 0, 0]" "le_bytes 4 0 = [0, 0, 0, 0]"
  by code_simp+

lemma tx_memo:
  defines "ts \<equiv> WithMaxLen 4 (WithLengthPrefixType SeriLengthPrefixTypeAsByte (WithFieldKey ''memo'' NewTypeSettings))"
  shows "wire tx_api True ts (TyString []) (VString [104, 105]) [2, 104, 105]"
proof (rule wire_plain)
  have "lengthPrefixType (merged tx_api ts (TyString [])) = Some SeriLengthPrefixTypeAsByte"
    "MinMaxLen (merged tx_api ts (TyString [])) = (0, 4)" by (simp_all add: settings_defs ts_def)
  then have "wire_body tx_api True (merged tx_api ts (TyString [])) (TyString []) (VString [104, 105]) (le_bytes 1 (length [104, 105 :: byte]) @ [104, 105])"
    using body_string [of "merged tx_api ts (TyString [])" SeriLengthPrefixTypeAsByte "[104, 105]" True tx_api "[]"]
    by (simp add: length_fits_def within_def del: le_bytes.simps)
  then show "wire_body tx_api True (merged tx_api ts (TyString [])) (TyString []) (VString [104, 105]) [2, 104, 105]" by simp
qed (simp_all add: settings_defs tx_api_eq tx_program_def ts_def)

lemma tx_fees:
  defines "ts \<equiv> WithLengthPrefixType SeriLengthPrefixTypeAsByte (WithFieldKey ''fees'' NewTypeSettings)"
    and "t \<equiv> TyMap [] (TyNum [] TUint8) (TyNum [] TUint16)"
  shows "wire tx_api True ts t (VMap {|(VNum (NUint8 3), VNum (NUint16 4))|}) [1, 3, 4, 0]"
proof (rule wire_plain)
  let ?ts = "merged tx_api ts t" and ?es = "[(VNum (NUint8 3), VNum (NUint16 4))]"
  have entries: "wire_entries tx_api True (TyNum [] TUint8) (TyNum [] TUint16) ?es [[3] @ [4, 0]]"
    by (rule entries_cons [where kts = NewTypeSettings and vts = NewTypeSettings])
      (simp_all add: tx_registry nil_val_def entries_nil tx_num tx_encoded del: append.simps enc_num.simps)
  have l: "lengthPrefixType (ensureOrdering ?ts) = Some SeriLengthPrefixTypeAsByte" "arrayRules ?ts = None"
    by (simp_all add: settings_defs ts_def t_def tx_api_eq ensureOrdering_def WithArrayRules_def WithLexicalOrdering_def Let_def)
  have "rules_of (ensureOrdering ?ts) = newArrayRules\<lparr>ValidationMode := ArrayValidationModeLexicalOrdering\<rparr>"
    using l by (simp add: rules_of_def ensureOrdering_def WithArrayRules_def WithLexicalOrdering_def Let_def newArrayRules_def)
  moreover have "accepts (ElementValidationFunc (newArrayRules\<lparr>ValidationMode := ArrayValidationModeLexicalOrdering\<rparr>)) 0 [[3, 4, 0]]"
  proof -
    have "\<not> Option.is_none (validate_elements (ElementValidationFunc (newArrayRules\<lparr>ValidationMode := ArrayValidationModeLexicalOrdering\<rparr>)) 0 [[3, 4, 0]])
      \<and> \<not> isl (the (validate_elements (ElementValidationFunc (newArrayRules\<lparr>ValidationMode := ArrayValidationModeLexicalOrdering\<rparr>)) 0 [[3, 4, 0]]))"
      by code_simp
    then show ?thesis by (auto simp: accepts_def Option.is_none_def isl_def) (metis sum.exhaust_sel isl_def)
  qed
  ultimately have "sequence_ok True (ensureOrdering ?ts) [[3, 4, 0]]"
    using l by (simp add: sequence_ok_def length_fits_def CheckBounds_def newArrayRules_def)
  with entries have "wire_body tx_api True ?ts t (VMap (fset_of_list ?es)) (sequence_bytes (ensureOrdering ?ts) [[3] @ [4, 0]])"
    unfolding t_def by (intro body_map) (simp_all add: tx_api_eq tx_range settings_defs ts_def)
  then show "wire_body tx_api True ?ts t (VMap {|(VNum (NUint8 3), VNum (NUint16 4))|}) [1, 3, 4, 0]"
    using l by (simp add: sequence_bytes_def)
qed (simp_all add: settings_defs tx_api_eq tx_program_def ts_def t_def)

lemma tx_target:
  "wire tx_api True (WithFieldKey ''target'' NewTypeSettings) (TyIface ''Target'')
     (VIface (Some (target_type, VArray [VNum (NUint8 7), VNum (NUint8 8)]))) [5, 7, 8]"
proof (rule wire_iface [where io = "\<lparr>io_typeDenotation = TypeDenotationByte, fromCodeToType = [5 \<mapsto> target_type],
    fromTypeToCode = [target_type \<mapsto> 5]\<rparr>" and code = 5])
  let ?ts = "merged tx_api (WithFieldKey ''target'' NewTypeSettings) (TyIface ''Target'')"
  show "wire tx_api True ?ts target_type (VArray [VNum (NUint8 7), VNum (NUint8 8)]) [5, 7, 8]"
  proof (rule wire_plain)
    have "object_prefix (merged tx_api ?ts target_type) = [5]" "object_type_ok (merged tx_api ?ts target_type)"
      by (simp_all add: settings_defs tx_api_eq)
    then show "wire_body tx_api True (merged tx_api ?ts target_type) target_type (VArray [VNum (NUint8 7), VNum (NUint8 8)]) [5, 7, 8]"
      using body_array [of "TyNum [] TUint8" "merged tx_api ?ts target_type" tx_api True "''ID''" "[7, 8]"] by (simp add: bytes_val_def numeral_2_eq_2)
  qed (simp_all add: settings_defs tx_api_eq tx_program_def)
qed (simp_all add: settings_defs tx_api_eq tx_program_def)

lemma tx_wire: "wire tx_api True NewTypeSettings (TyPtr (TyStruct ''Tx'')) (VPtr (Some tx_value)) tx_bytes"
proof (rule wire_plain)
  let ?ts = "merged tx_api NewTypeSettings (TyPtr (TyStruct ''Tx''))"
  have step: "wire tx_api True ts t v b \<Longrightarrow> wire_fields tx_api True sfs vs bs \<Longrightarrow>
      wire_fields tx_api True (plain_field nm t False ts # sfs) (v # vs) (b @ bs)" for nm t ts v b sfs vs bs
    using fields_plain [of "plain_field nm t False ts"] by simp
  have none: "wire_fields tx_api True sfs vs bs \<Longrightarrow>
      wire_fields tx_api True (plain_field nm (TyPtr t) True ts # sfs) (VPtr None # vs) (le_bytes 4 0 @ bs)" for nm t ts sfs vs bs
    using fields_none [of "plain_field nm (TyPtr t) True ts"] by (simp add: nil_val_def)
  have "wire tx_api True (WithFieldKey ''nonce'' NewTypeSettings) (TyNum [] TUint16) (VNum (NUint16 513)) [1, 2]"
    by (rule tx_num) (simp_all add: tx_encoded del: enc_num.simps)
  note fields = step [OF this step [OF tx_memo none [OF step [OF tx_fees step [OF tx_target fields_nil]]]]]
  have "wire_flat tx_api True (TyStruct ''Tx'') tx_value ([1, 2] @ [2, 104, 105] @ le_bytes 4 0 @ [1, 3, 4, 0] @ [5, 7, 8] @ [])"
    unfolding tx_value_def by (rule flat_fields [OF tx_parsed _ fields]) simp
  moreover have "object_type_ok ?ts" "object_prefix ?ts = [9, 0, 0, 0]" by (simp_all add: settings_defs tx_api_eq tx_encoded)
  ultimately have "wire_body tx_api True ?ts (TyStruct ''Tx'') tx_value tx_bytes"
    using body_struct [of ?ts tx_api True "''Tx''"] by (fastforce simp: tx_bytes_def tx_encoded)
  then show "wire_body tx_api True ?ts (TyPtr (TyStruct ''Tx'')) (VPtr (Some tx_value)) tx_bytes"
    by (intro body_ptr) simp_all
qed (simp_all add: settings_defs tx_api_eq tx_program_def)

lemma tx_decoded: "\<exists>n. Serix_Decode n tx_api True NewTypeSettings (TyStruct ''Tx'') (tx_bytes @ rest) = ret (tx_value, int (length tx_bytes))"
proof -
  obtain N where "codes (encode N tx_api True) (decode N tx_api True) NewTypeSettings (TyPtr (TyStruct ''Tx'')) (VPtr (Some tx_value)) tx_bytes"
    using wire_codes(1) [OF tx_wire] unfolding enough_def by blast
  then show ?thesis by (auto simp: codes_def Serix_Decode_def decode_top [OF tx_wire] intro!: exI [of _ N])
qed

section \<open>Properties\<close>

text \<open>C1: Encoding a pointer to a value gives the bytes of the wire format, and decoding them into a new value of the type, whatever
  follows them, gives the value back and reads exactly those bytes. A bound on the depth of the recursion that is large enough exists
  for every value, so both calls end.\<close>

theorem serix_round_trip:
  assumes "wire api validation ts (TyPtr t) (VPtr (Some v)) b" and "t \<noteq> TyBigInt"
  shows "\<exists>N. \<forall>n\<ge>N. Serix_Encode n api validation ts (VPtr (Some v)) (TyPtr t) = ret b
    \<and> (\<forall>rest. Serix_Decode n api validation ts t (b @ rest) = ret (v, int (length b)))"
proof -
  from wire_codes(1) [OF assms(1)] obtain N where
    "\<forall>n\<ge>N. codes (encode n api validation) (decode n api validation) ts (TyPtr t) (VPtr (Some v)) b"
    unfolding enough_def by blast
  then show ?thesis by (auto simp: codes_def Serix_Encode_def Serix_Decode_def decode_top [OF assms] intro!: exI [of _ N])
qed

theorem serix_round_trip_witness:
  "\<exists>N. \<forall>n\<ge>N. Serix_Encode n tx_api True NewTypeSettings (VPtr (Some tx_value)) (TyPtr (TyStruct ''Tx'')) = ret tx_bytes
    \<and> (\<forall>rest. Serix_Decode n tx_api True NewTypeSettings (TyStruct ''Tx'') (tx_bytes @ rest) = ret (tx_value, int (length tx_bytes)))"
  by (rule serix_round_trip [OF tx_wire]) simp

end
