(* ===== verification/Serix_Typing.thy ===== *)
theory Serix_Typing
  imports Serix_Codec
begin

text \<open>
  The values of a Go type, and that decoding arbitrary bytes gives a value of the type asked for.
\<close>

section \<open>Definitions\<close>

text \<open>The values of a type: a struct has a value for each of its fields, an array its length, an interface holds a value of a
  registered type.\<close>

inductive has_type :: "API \<Rightarrow> go_type \<Rightarrow> go_val \<Rightarrow> bool" for api :: API where
  typed_bool: "has_type api (TyBool nm) (VBool b)"
| typed_num: "num_type_of n = nt \<Longrightarrow> has_type api (TyNum nm nt) (VNum n)"
| typed_string: "has_type api (TyString nm) (VString s)"
| typed_bigint: "has_type api TyBigInt (VBigInt n)"
| typed_time: "has_type api TyTime (VTime x)"
| typed_nil: "has_type api (TyPtr t) (VPtr None)"
| typed_ptr: "has_type api t v \<Longrightarrow> has_type api (TyPtr t) (VPtr (Some v))"
| typed_struct: "getStructFields api (TyStruct nm) = Inr sfs \<Longrightarrow> list_all2 (\<lambda>sf v. has_type api (fType sf) v) sfs vs \<Longrightarrow>
    has_type api (TyStruct nm) (VStruct vs)"
| typed_opaque: "getStructFields api (TyStruct nm) = Inl e \<Longrightarrow> has_type api (TyStruct nm) (VStruct [])"
| typed_slice: "list_all (has_type api et) vs \<Longrightarrow> has_type api (TySlice nm et) (VSlice vs)"
| typed_array: "list_all (has_type api et) vs \<Longrightarrow> length vs = k \<Longrightarrow> has_type api (TyArray nm k et) (VArray vs)"
| typed_map: "(\<And>e. e |\<in>| es \<Longrightarrow> has_type api kt (fst e) \<and> has_type api vt (snd e)) \<Longrightarrow> has_type api (TyMap nm kt vt) (VMap es)"
| typed_no_value: "has_type api (TyIface nm) (VIface None)"
| typed_iface: "interfacesRegistry api (TyIface nm) = Some io \<Longrightarrow> fromCodeToType io code = Some dt \<Longrightarrow> has_type api dt v \<Longrightarrow>
    has_type api (TyIface nm) (VIface (Some (dt, v)))"
| typed_other: "has_type api (TyOther nm) VOther"

text \<open>What the methods of the program keep: a \<^verbatim>\<open>Decode\<close> method fills a value of its type and reads at most the bytes it
  is given. The cache holds what parsing gives.\<close>

definition custom_decoders_typed :: "API \<Rightarrow> bool" where
  "custom_decoders_typed api \<longleftrightarrow> (\<forall>t f b v k. Deserializable_Decode (prog api) t = Some f \<longrightarrow> f b = Inr (v, k) \<longrightarrow>
     has_type api t v \<and> 0 \<le> k \<and> k \<le> int (length b))"

definition cache_ok :: "API \<Rightarrow> bool" where
  "cache_ok api \<longleftrightarrow> (\<forall>t fs. structFieldsCache api t = Some fs \<longrightarrow> parseStructFields (struct_decls (prog api) t) = Inr fs)"

definition typed_decoder :: "API \<Rightarrow> decoder \<Rightarrow> bool" where
  "typed_decoder api dec \<longleftrightarrow> (\<forall>isTop t ts b v k. dec isTop t ts b = ret (v, k) \<longrightarrow> has_type api t v \<and> 0 \<le> k \<and> k \<le> int (length b))"

definition moves :: "Deserializer \<Rightarrow> Deserializer \<Rightarrow> bool" where
  "moves d d' \<longleftrightarrow> d_src d' = d_src d \<and> in_range d'"

subsection \<open>Notions of the proofs\<close>

text \<open>What parsing guarantees of the fields.\<close>

definition parsed_field :: "structField \<Rightarrow> bool" where
  "parsed_field sf \<longleftrightarrow> (isEmbedded sf \<and> \<not> inlined (sf_settings sf) \<longrightarrow> is_struct_kind (DeRefPointer (fType sf)))
     \<and> (isOptional (sf_settings sf) \<longrightarrow> is_ptr_kind (fType sf) \<or> is_iface_kind (fType sf))"

section \<open>Lemmas\<close>

lemma andThen_ret: "andThen m f = ret y \<longleftrightarrow> (\<exists>x. m = ret x \<and> f x = ret y)"
  by (auto simp: andThen_def split: option.splits sum.splits)

lemma finish_ret: "finish r = ret (v, k) \<longleftrightarrow> (\<exists>d. r = Some (v, d) \<and> d_err d = None \<and> d_offset d = k)"
  by (auto simp: finish_def Done_def split: option.splits)

lemma reading_Some: "reading f r = Some (v, d) \<longleftrightarrow> (\<exists>x. r = Some (d, x) \<and> v = f x)"
  by (auto simp: reading_def)

subsection \<open>Positions\<close>

lemma in_range_New: "in_range (NewDeserializer b)" "d_src (NewDeserializer b) = b" "d_err (NewDeserializer b) = None"
  by (simp_all add: in_range_def NewDeserializer_def)

lemma RemainingBytes_length: "RemainingBytes d = Some l \<Longrightarrow> in_range d \<Longrightarrow> int (length l) = int (length (d_src d)) - d_offset d"
  by (auto simp: RemainingBytes_def slice_from_def in_range_def split: if_splits)

lemma moves_advance: "in_range d \<Longrightarrow> RemainingBytes d = Some l \<Longrightarrow> 0 \<le> k \<Longrightarrow> k \<le> int (length l) \<Longrightarrow> moves d (advance k d)"
  by (auto dest!: RemainingBytes_length simp: moves_def in_range_def advance_def)

lemma moves_fail [simp]: "moves d (fail ep e d') = moves d d'" "moves d (d'\<lparr>d_err := x\<rparr>) = moves d d'"
  by (simp_all add: moves_def in_range_def fail_def)

lemma moves_refl: "in_range d \<Longrightarrow> moves d d"
  by (simp add: moves_def)

lemma moves_trans: "moves d d' \<Longrightarrow> moves d' d'' \<Longrightarrow> moves d d''"
  by (simp add: moves_def)

lemma moves_in_range: "moves d d' \<Longrightarrow> in_range d'"
  by (simp add: moves_def)

lemma moves_bound: "moves (NewDeserializer b) d \<Longrightarrow> 0 \<le> d_offset d \<and> d_offset d \<le> int (length b)"
  by (auto simp: moves_def in_range_def NewDeserializer_def)

lemma Option_bind_Some: "Option.bind m f = Some y \<longleftrightarrow> (\<exists>x. m = Some x \<and> f x = Some y)"
  by (cases m) auto

lemmas read_cases = Option_bind_Some Let_def
lemmas read_intros = moves_refl moves_advance

lemma Skip_moves: "Skip d k ep = Some d' \<Longrightarrow> in_range d \<Longrightarrow> 0 \<le> k \<Longrightarrow> moves d d'"
  by (auto simp: Skip_def read_cases not_less split: if_splits intro!: read_intros)

lemma fail_not_advance: "fail ep e d \<noteq> advance 1 d"
  by (auto simp: fail_def advance_def dest: arg_cong [of _ _ d_offset])

lemma reads_move:
  assumes "in_range d"
  shows "ReadBool d v ep = Some (d', x) \<Longrightarrow> moves d d'"
    and "ReadNum d nt n ep = Some (d', x') \<Longrightarrow> moves d d'"
    and "ReadUint256 d i ep = Some (d', i') \<Longrightarrow> moves d d'"
    and "ReadTime d tm ep = Some (d', tm') \<Longrightarrow> moves d d'"
    and "ReadBytesInPlace d bs ep = Some (d', bs') \<Longrightarrow> moves d d'"
    and "ReadPayloadLength d = Some (d', r) \<Longrightarrow> moves d d'"
    and "CheckTypePrefix d code td ep = Some d' \<Longrightarrow> moves d d'"
    and "readSliceLength d lpt ep = Some (d', len, e) \<Longrightarrow> moves d d'"
  using assms
  by (auto simp: ReadBool_def ReadNum_def ReadUint256_def ReadTime_def ReadBytesInPlace_def ReadPayloadLength_def
      CheckTypePrefix_def readSliceLength_def byte_sizes read_cases not_less Suc_le_eq fail_not_advance
      split: if_splits TypeDenotationType.splits SeriLengthPrefixType.splits option.splits intro!: read_intros dest: Skip_moves)

lemma variable_moves:
  assumes d: "in_range d"
  shows "ReadVariableByteSlice d dst lpt ep mn mx = Some (d', x) \<Longrightarrow> moves d d'"
    and "ReadString d dst lpt ep mn mx = Some (d', x) \<Longrightarrow> moves d d'"
proof -
  have checked: "moves d0 (checkDenotedLength d0 n ep mn mx)" if "in_range d0" for d0 n
    using that by (simp add: checkDenotedLength_def moves_refl)
  have rest: "moves d (advance (int n) (checkDenotedLength d0 n ep mn mx))"
    if "moves d d0" "RemainingBytes (checkDenotedLength d0 n ep mn mx) = Some l" "n \<le> length l" for d0 n l
    using that checked by (meson moves_advance moves_in_range moves_trans of_nat_0_le_iff of_nat_mono)
  show "ReadVariableByteSlice d dst lpt ep mn mx = Some (d', x) \<Longrightarrow> moves d d'"
    and "ReadString d dst lpt ep mn mx = Some (d', x) \<Longrightarrow> moves d d'"
    using d reads_move(8) [OF d] rest moves_trans [OF _ checked] moves_in_range
    by (auto simp: ReadVariableByteSlice_def ReadString_def read_cases not_less moves_refl split: if_splits)
qed

text \<open>The loop over a sequence keeps what one item keeps.\<close>

lemma sequence_loop_keeps:
  assumes item: "\<And>st b st' k. I st \<Longrightarrow> item st b = Some (st', Inr k) \<Longrightarrow> I st' \<and> 0 \<le> k \<and> k \<le> int (length b)"
  shows "sequence_loop item id n i vs st d = Some (st', d') \<Longrightarrow> I st \<Longrightarrow> in_range d \<Longrightarrow> d_err d' = None \<Longrightarrow> I st' \<and> moves d d'"
proof (induction n arbitrary: i vs st d)
  case 0
  then show ?case by (simp add: moves_refl)
next
  case (Suc n)
  obtain b st1 r where b: "RemainingBytes d = Some b" "item st b = Some (st1, r)"
    using Suc.prems(1) by (auto simp: read_cases)
  with Suc.prems obtain k where k: "r = Inr k" by (cases r) auto
  have st1: "I st1" "moves d (advance k d)"
    using item [OF Suc.prems(2)] b k moves_advance [OF Suc.prems(3) b(1)] by auto
  have "\<exists>vs. sequence_loop item id n (Suc i) vs st1 (advance k d) = Some (st', d')"
  proof (cases vs)
    case (Cons v vs')
    then obtain w where
      "(case w of Inl e \<Rightarrow> Some (st1, fail id e (advance k d)) | Inr vs' \<Rightarrow> sequence_loop item id n (Suc i) vs' st1 (advance k d)) = Some (st', d')"
      using Suc.prems(1) b k unfolding id_def by (auto simp: read_cases simp del: run_validators.simps)
    then show ?thesis using Suc.prems(4) by (cases w) auto
  qed (use Suc.prems(1) b k in \<open>auto simp: read_cases id_def\<close>)
  with Suc.IH st1 Suc.prems(4) show ?case using moves_trans moves_in_range by meson
qed

lemma decodeSequence_keeps:
  assumes item: "\<And>st b st' k. I st \<Longrightarrow> item st b = Some (st', Inr k) \<Longrightarrow> I st' \<and> 0 \<le> k \<and> k \<le> int (length b)"
    and dec: "decodeSequence validation item st ts b = ret (st', k)" and st: "I st"
  shows "I st' \<and> 0 \<le> k \<and> k \<le> int (length b)"
proof -
  let ?d = "NewDeserializer b"
  obtain lpt and rules :: "unit ArrayRules" and d where r: "ReadSequenceOfObjects item ?d st (ts_toMode ts validation) lpt rules id = Some (st', d)"
    and d: "d_err d = None" "d_offset d = k"
    using dec by (auto simp: decodeSequence_def finish_ret Let_def split: option.splits)
  obtain d0 n e where d0: "readSliceLength ?d lpt id = Some (d0, n, e)"
    using r by (auto simp: ReadSequenceOfObjects_def NewDeserializer_def read_cases)
  have m: "moves ?d d0" using reads_move(8) [OF in_range_New(1) d0] .
  have loop: "sequence_loop item id n 0 vs st d0 = Some (st', d) \<Longrightarrow> I st' \<and> moves d0 d" for vs
    using sequence_loop_keeps [of I item] item st moves_in_range [OF m] d(1) by blast
  have "(st' = st \<and> (d = d0 \<or> (\<exists>e. d = d0\<lparr>d_err := e\<rparr>) \<or> (\<exists>e. d = fail id e d0))) \<or> (\<exists>vs. sequence_loop item id n 0 vs st d0 = Some (st', d))"
    using r by (auto simp: ReadSequenceOfObjects_def d0 in_range_New read_cases split: if_splits option.splits)
  then have "I st' \<and> moves d0 d" using loop st moves_in_range [OF m] by (auto simp: moves_refl)
  with m d show ?thesis using moves_trans moves_bound by blast
qed

subsection \<open>Each kind\<close>

lemma typed_bytes: "is_byte_elem et \<Longrightarrow> list_all (has_type api et) (bytes_val bs)" "length (bytes_val bs) = length bs"
  by (cases et; auto simp: bytes_val_def list_all_iff intro: typed_num) (simp add: bytes_val_def)

lemma check_object_type_moves: "check_object_type ts d = ret d' \<Longrightarrow> in_range d \<Longrightarrow> moves d d'"
  by (auto simp: check_object_type_def moves_refl dest: reads_move(7) split: if_splits sum.splits)

lemma zero_val_typed: "zero_val n api t = Some v \<Longrightarrow> has_type api t v"
proof (induction n arbitrary: t v)
  case (Suc n)
  have zero: "num_type_of (zero_num nt) = nt" for nt by (cases nt) simp_all
  show ?case
  proof (cases t)
    case (TyStruct nm)
    show ?thesis
    proof (cases "getStructFields api t")
      case (Inr sfs)
      with Suc.prems TyStruct obtain vs where vs: "those (map (\<lambda>sf. zero_val n api (fType sf)) sfs) = Some vs" "v = VStruct vs" by auto
      have "list_all2 (\<lambda>sf v. has_type api (fType sf) v) sfs ws" if "those (map (\<lambda>sf. zero_val n api (fType sf)) sfs) = Some ws" for ws sfs
        using that by (induction sfs arbitrary: ws) (auto split: option.splits intro: Suc.IH)
      with vs Inr TyStruct show ?thesis by (auto intro: typed_struct)
    qed (use Suc.prems TyStruct in \<open>auto intro: typed_opaque\<close>)
  next
    case (TyArray nm k et)
    with Suc show ?thesis by (auto intro!: typed_array simp: list_all_iff)
  qed (use Suc.prems zero in \<open>auto intro: has_type.intros\<close>)
qed simp

lemma slice_item_keeps:
  "typed_decoder api dec \<Longrightarrow> list_all (has_type api et) vs \<Longrightarrow> slice_item dec et vs b = Some (vs', Inr k) \<Longrightarrow>
    list_all (has_type api et) vs' \<and> 0 \<le> k \<and> k \<le> int (length b)"
  unfolding typed_decoder_def by (fastforce simp: slice_item_def split: option.splits sum.splits)

lemma decodeMapKVPair_typed:
  assumes dec: "typed_decoder api dec" and r: "decodeMapKVPair dec api kt vt b = ret ((k, v), n)"
  shows "has_type api kt k \<and> has_type api vt v \<and> 0 \<le> n \<and> n \<le> int (length b)"
proof -
  obtain kts vts i b' j where k: "dec False kt kts b = ret (k, i)" "slice_from b i = Some b'" "dec False vt vts b' = ret (v, j)" "n = i + j"
    using r by (auto simp: decodeMapKVPair_def andThen_ret split: option.splits)
  then have "has_type api kt k" "0 \<le> i" "i \<le> int (length b)" "has_type api vt v" "0 \<le> j" "j \<le> int (length b')"
    using dec unfolding typed_decoder_def by blast+
  moreover from this k(2) have "int (length b') = int (length b) - i" by (auto simp: slice_from_def split: if_splits)
  ultimately show ?thesis using k(4) by simp
qed

lemma map_item_keeps:
  assumes "typed_decoder api dec" "\<And>e. e |\<in>| es \<Longrightarrow> has_type api kt (fst e) \<and> has_type api vt (snd e)"
    "map_item dec api kt vt es b = Some (es', Inr k)"
  shows "(\<forall>e. e |\<in>| es' \<longrightarrow> has_type api kt (fst e) \<and> has_type api vt (snd e)) \<and> 0 \<le> k \<and> k \<le> int (length b)"
  using assms decodeMapKVPair_typed [OF assms(1)] by (auto simp: map_item_def split: option.splits sum.splits if_splits)

lemma parseStructFields_ok: "parseStructFields fds = Inr sfs \<Longrightarrow> list_all parsed_field sfs"
proof (induction fds arbitrary: sfs)
  case (Cons fd fds)
  then show ?case
    by (cases "parseStructFields fds") (auto simp: Let_def parsed_field_def isUnderlyingStruct_def isUnderlyingInterface_def
        split: if_splits option.splits sum.splits)
qed simp

lemma getStructFields_ok:
  assumes "cache_ok api" "getStructFields api t = Inr sfs" "is_struct_kind t"
  shows "list_all parsed_field sfs" "sfs = [] \<or> (\<exists>nm. t = TyStruct nm)"
proof -
  have p: "parseStructFields (struct_decls (prog api) t) = Inr sfs"
    using assms by (auto simp: getStructFields_def cache_ok_def split: option.splits)
  then show "list_all parsed_field sfs" by (rule parseStructFields_ok)
  show "sfs = [] \<or> (\<exists>nm. t = TyStruct nm)" using p assms(3) by (cases t) auto
qed

lemma nil_val_typed: "is_ptr_kind t \<or> is_iface_kind t \<Longrightarrow> has_type api t (nil_val t)"
  by (cases t) (auto simp: nil_val_def intro: has_type.intros)

lemma decode_field_typed:
  assumes dec: "typed_decoder api dec" and sf: "parsed_field sf" and d: "in_range d"
    and emb: "\<And>d t v d'. emb d t = ret (v, d') \<Longrightarrow> in_range d \<Longrightarrow> is_struct_kind t \<Longrightarrow> has_type api t v \<and> moves d d'"
    and r: "decode_field emb dec sf d = ret (v, d')"
  shows "has_type api (fType sf) v \<and> moves d d'"
proof -
  consider (embedded) "isEmbedded sf" "\<not> inlined (sf_settings sf)"
    | (optional) "\<not> isEmbedded sf \<or> inlined (sf_settings sf)" "isOptional (sf_settings sf)"
    | (plain) "\<not> isEmbedded sf \<or> inlined (sf_settings sf)" "\<not> isOptional (sf_settings sf)" by blast
  then show ?thesis
  proof cases
    case embedded
    then show ?thesis using r sf emb d
      by (cases "fType sf") (auto simp: decode_field_def parsed_field_def andThen_ret split: if_splits intro: typed_ptr)
  next
    case optional
    obtain d1 x where d1: "ReadPayloadLength d = Some (d1, x)" using r optional by (auto simp: decode_field_def split: option.splits)
    have m: "moves d d1" using reads_move(6) [OF d d1] .
    show ?thesis
    proof (cases "\<exists>b ts k. dec False (fType sf) ts b = ret (v, k) \<and> Skip d1 k id = Some d'")
      case True
      with dec show ?thesis using Skip_moves moves_trans [OF m] moves_in_range [OF m] unfolding typed_decoder_def by blast
    next
      case False
      with r optional d1 have "v = nil_val (fType sf) \<and> d' = d1"
        by (auto simp: decode_field_def andThen_ret split: if_splits option.splits sum.splits)
      with m sf optional show ?thesis by (simp add: nil_val_typed parsed_field_def)
    qed
  next
    case plain
    then obtain b ts k where "dec False (fType sf) ts b = ret (v, k)" "Skip d k id = Some d'"
      using r by (auto simp: decode_field_def andThen_ret split: option.splits)
    with dec d show ?thesis using Skip_moves unfolding typed_decoder_def by blast
  qed
qed

lemma decode_fields_typed:
  assumes dec: "typed_decoder api dec"
    and emb: "\<And>d t v d'. emb d t = ret (v, d') \<Longrightarrow> in_range d \<Longrightarrow> is_struct_kind t \<Longrightarrow> has_type api t v \<and> moves d d'"
  shows "decode_fields emb dec sfs d = ret (vs, d') \<Longrightarrow> list_all parsed_field sfs \<Longrightarrow> in_range d \<Longrightarrow>
    list_all2 (\<lambda>sf v. has_type api (fType sf) v) sfs vs \<and> moves d d'"
proof (induction sfs arbitrary: d vs)
  case (Cons sf sfs)
  then obtain v d1 vs' where v: "decode_field emb dec sf d = ret (v, d1)" "decode_fields emb dec sfs d1 = ret (vs', d')" "vs = v # vs'"
    by (auto simp: andThen_ret)
  have "has_type api (fType sf) v \<and> moves d d1"
    using decode_field_typed [OF dec _ Cons.prems(3) emb v(1)] Cons.prems(2) by simp
  moreover from this have "list_all2 (\<lambda>sf v. has_type api (fType sf) v) sfs vs' \<and> moves d1 d'"
    using Cons.IH [OF v(2)] Cons.prems(2) moves_in_range [of d d1] by auto
  ultimately show ?case using v(3) moves_trans by auto
qed (simp add: moves_refl)

lemma decodeStructFields_typed:
  assumes dec: "typed_decoder api dec" and cache: "cache_ok api"
  shows "decodeStructFields m dec api d t = ret (v, d') \<Longrightarrow> in_range d \<Longrightarrow> is_struct_kind t \<Longrightarrow> has_type api t v \<and> moves d d'"
proof (induction m arbitrary: d t v d')
  case (Suc m)
  obtain sfs where sfs: "getStructFields api t = Inr sfs" using Suc.prems by (auto split: sum.splits)
  note ok = getStructFields_ok [OF cache sfs Suc.prems(3)]
  show ?case
  proof (cases "sfs = []")
    case True
    have "has_type api t (empty_struct t)" using Suc.prems(3) sfs True by (cases t) (auto intro: has_type.intros)
    then show ?thesis using True Suc.prems sfs by (simp add: moves_refl)
  next
    case False
    then obtain vs where vs: "decode_fields (decodeStructFields m dec api) dec sfs d = ret (vs, d')" "v = VStruct vs"
      using Suc.prems(1) sfs by (auto simp: andThen_ret)
    have "list_all2 (\<lambda>sf v. has_type api (fType sf) v) sfs vs \<and> moves d d'"
      by (rule decode_fields_typed [OF dec Suc.IH vs(1) ok(1) Suc.prems(2)])
    with False ok(2) sfs vs(2) show ?thesis by (auto intro: typed_struct)
  qed
qed simp

subsection \<open>The whole decoder\<close>

lemma new_bound: "d_offset d = k \<Longrightarrow> moves (NewDeserializer b) d \<Longrightarrow> 0 \<le> k \<and> k \<le> int (length b)"
  using moves_bound by blast

lemma decodeStruct_typed:
  assumes "typed_decoder api dec" "cache_ok api" "is_struct_kind t" "decodeStruct m dec api t ts b = ret (v, k)"
  shows "has_type api t v \<and> 0 \<le> k \<and> k \<le> int (length b)"
proof (cases "t = TyTime")
  case True
  then show ?thesis using assms(4)
    by (auto simp: decodeStruct_def finish_ret reading_Some dest!: reads_move(4) [OF in_range_New(1)] moves_bound intro: typed_time)
next
  case False
  then obtain d0 d where d: "check_object_type ts (NewDeserializer b) = ret d0" "decodeStructFields m dec api d0 t = ret (v, d)" "d_offset d = k"
    using assms(4) by (auto simp: decodeStruct_def andThen_ret finish_ret)
  have m: "moves (NewDeserializer b) d0" by (rule check_object_type_moves [OF d(1) in_range_New(1)])
  have "has_type api t v \<and> moves d0 d" by (rule decodeStructFields_typed [OF assms(1,2) d(2) moves_in_range [OF m] assms(3)])
  then show ?thesis using d(3) new_bound moves_trans [OF m] by blast
qed

lemma decodeSlice_typed:
  assumes dec: "typed_decoder api dec" and r: "decodeSlice dec api validation et ts b = ret (vs, k)"
  shows "list_all (has_type api et) vs \<and> 0 \<le> k \<and> k \<le> int (length b)"
proof (cases "is_byte_elem et")
  case True
  then show ?thesis using r
    by (auto simp: decodeSlice_def finish_ret reading_Some typed_bytes dest!: variable_moves(1) [OF in_range_New(1)] moves_bound
        split: option.splits)
next
  case False
  then have "decodeSequence validation (slice_item dec et) [] ts b = ret (vs, k)"
    using r by (auto simp: decodeSlice_def andThen_ret)
  then show ?thesis
    by (rule decodeSequence_keeps [where I = "list_all (has_type api et)", rotated]) (simp, rule slice_item_keeps [OF dec])
qed

lemma decodeArray_typed:
  assumes r: "decodeArray m dec api validation n et ts b = ret (vs, k)"
  shows "list_all (has_type api et) vs \<and> length vs = n \<and> 0 \<le> k \<and> k \<le> int (length b)"
proof (cases "is_byte_elem et")
  case True
  then obtain d0 d bs where d: "check_object_type ts (NewDeserializer b) = ret d0" "ReadBytesInPlace d0 (replicate n 0) id = Some (d, bs)"
    "vs = bytes_val bs" "d_offset d = k"
    using r by (auto simp: decodeArray_def andThen_ret finish_ret reading_Some)
  have m: "moves (NewDeserializer b) d0" by (rule check_object_type_moves [OF d(1) in_range_New(1)])
  have "length bs = n" using d(2) by (auto simp: ReadBytesInPlace_def read_cases go_copy_def split: if_splits)
  then show ?thesis using d True new_bound moves_trans [OF m reads_move(5) [OF moves_in_range [OF m] d(2)]] by (auto simp: typed_bytes)
next
  case False
  then obtain z u where z: "zero_val m api et = Some z" "vs = replicate n z" "decodeSequence validation (array_item dec et) u ts b = ret ((), k)"
    using r by (auto simp: decodeArray_def andThen_ret split: option.splits)
  have "array_item dec et st b \<noteq> Some (st', Inr j)" for st b st' j
    by (simp add: array_item_def split: option.split sum.split)
  then have "0 \<le> k \<and> k \<le> int (length b)"
    using decodeSequence_keeps [where I = "\<lambda>_. True" and item = "array_item dec et", OF _ z(3)] by blast
  with z show ?thesis by (simp add: list_all_iff zero_val_typed)
qed

lemma decodeMap_typed:
  assumes dec: "typed_decoder api dec" and r: "decodeMap dec api validation kt vt ts b = ret (es, k)"
  shows "(\<forall>e. e |\<in>| es \<longrightarrow> has_type api kt (fst e) \<and> has_type api vt (snd e)) \<and> 0 \<le> k \<and> k \<le> int (length b)"
proof -
  obtain ts' where "decodeSequence validation (map_item dec api kt vt) {||} ts' b = ret (es, k)"
    using r by (auto simp: decodeMap_def andThen_ret Let_def)
  then show ?thesis
    by (rule decodeSequence_keeps [where I = "\<lambda>es. \<forall>e. e |\<in>| es \<longrightarrow> has_type api kt (fst e) \<and> has_type api vt (snd e)", rotated])
      (simp, rule map_item_keeps [OF dec], auto)
qed

lemma ReadNum_typed: "ReadNum d nt (zero_num nt) ep = Some (d', n) \<Longrightarrow> num_type_of n = nt"
proof -
  have "num_type_of (zero_num nt) = nt" "\<And>dat n. decode_num nt dat = Some n \<Longrightarrow> num_type_of n = nt" by (cases nt; auto)+
  then show "ReadNum d nt (zero_num nt) ep = Some (d', n) \<Longrightarrow> num_type_of n = nt"
    by (auto simp: ReadNum_def read_cases split: if_splits)
qed

lemma decode_kind_typed:
  assumes dec: "typed_decoder api dec" and cache: "cache_ok api" and r: "decode_kind m dec api validation t ts b = ret (v, k)"
  shows "has_type api t v \<and> 0 \<le> k \<and> k \<le> int (length b)"
proof (cases t)
  case (TyBool nm)
  with r show ?thesis
    by (auto simp: decode_kind_def finish_ret reading_Some dest!: reads_move(1) [OF in_range_New(1)] moves_bound intro: typed_bool)
next
  case (TyNum nm nt)
  with r obtain d n where "ReadNum (NewDeserializer b) nt (zero_num nt) id = Some (d, n)" "v = VNum n" "d_offset d = k"
    by (auto simp: decode_kind_def finish_ret reading_Some split: if_splits)
  with TyNum show ?thesis using reads_move(2) [OF in_range_New(1)] new_bound ReadNum_typed by (metis typed_num)
next
  case (TyString nm)
  with r show ?thesis
    by (auto simp: decode_kind_def decodeString_def finish_ret dest!: variable_moves(2) [OF in_range_New(1)] moves_bound intro: typed_string
        split: option.splits if_splits prod.splits)
next
  case (TyIface nm)
  then obtain io code dt w where "interfacesRegistry api t = Some io" "fromCodeToType io code = Some dt" "dec False dt ts b = ret (w, k)"
    "v = VIface (Some (dt, w))"
    using r by (auto simp: decode_kind_def decodeInterface_def andThen_ret split: option.splits)
  with TyIface dec show ?thesis unfolding typed_decoder_def by (blast intro: typed_iface)
next
  case (TySlice nm et)
  with r show ?thesis by (auto simp: decode_kind_def andThen_ret dest!: decodeSlice_typed [OF dec] intro: typed_slice)
next
  case (TyArray nm n et)
  with r show ?thesis by (auto simp: decode_kind_def andThen_ret dest!: decodeArray_typed intro: typed_array)
next
  case (TyMap nm kt vt)
  with r show ?thesis by (auto simp: decode_kind_def andThen_ret dest!: decodeMap_typed [OF dec] intro!: typed_map)
qed (use r in \<open>auto simp: decode_kind_def dest!: decodeStruct_typed [OF dec cache, rotated]\<close>)

lemma decodeBasedOnType_typed:
  assumes dec: "typed_decoder api dec" and cache: "cache_ok api"
  shows "decodeBasedOnType m dec api validation isTop t ts b = ret (v, k) \<Longrightarrow> has_type api t v \<and> 0 \<le> k \<and> k \<le> int (length b)"
proof (induction t arbitrary: isTop ts v)
  case (TyPtr u)
  show ?case
  proof (cases "u = TyBigInt")
    case True
    with TyPtr.prems show ?thesis
      by (auto simp: Let_def finish_ret reading_Some dest!: reads_move(3) [OF in_range_New(1)] moves_bound intro: typed_ptr typed_bigint split: if_splits)
  next
    case False
    then obtain w where w: "v = VPtr (Some w)" "decode_kind m dec api validation u (ts_merge ts (fst (GetByType api (TyPtr u)))) b = ret (w, k) \<or>
        decodeBasedOnType m dec api validation False u (ts_merge ts (fst (GetByType api (TyPtr u)))) b = ret (w, k)"
      using TyPtr.prems by (auto simp: Let_def andThen_ret split: if_splits)
    then have "has_type api u w \<and> 0 \<le> k \<and> k \<le> int (length b)" using TyPtr.IH decode_kind_typed [OF dec cache] by blast
    with w(1) show ?thesis by (auto intro: typed_ptr)
  qed
qed (use decode_kind_typed [OF dec cache] in auto)

lemma decode_call_typed:
  assumes dec: "typed_decoder api dec" and cache: "cache_ok api" and custom: "custom_decoders_typed api"
  shows "typed_decoder api (decode_call m dec api validation)"
  unfolding typed_decoder_def
proof (intro allI impI)
  fix isTop t ts b v k
  assume r: "decode_call m dec api validation isTop t ts b = ret (v, k)"
  consider (custom) f where "Deserializable_Decode (prog api) t = Some f" "decodeDeserializable api f t ts b = ret (v, k)"
    | (deref) w where "is_ptr_kind t" "dec False (DeRefPointer t) ts b = ret (w, k)" "v = VPtr (Some w)"
    | (based) "decodeBasedOnType m dec api validation isTop t ts b = ret (v, k)"
    using r by (cases t) (auto simp: decode_call_def andThen_ret split: if_splits option.splits)
  then show "has_type api t v \<and> 0 \<le> k \<and> k \<le> int (length b)"
  proof cases
    case custom
    then obtain ts' d b' i j where d: "check_object_type ts' (NewDeserializer b) = ret d" "RemainingBytes d = Some b'" "d_offset d = i"
      "f b' = Inr (v, j)" "k = i + j"
      by (auto simp: decodeDeserializable_def andThen_ret finish_ret Let_def split: option.splits)
    have m: "moves (NewDeserializer b) d" by (rule check_object_type_moves [OF d(1) in_range_New(1)])
    have "has_type api t v \<and> 0 \<le> j \<and> j \<le> int (length b')" using assms(3) custom(1) d(4) unfolding custom_decoders_typed_def by blast
    moreover have "int (length b') = int (length b) - i" "0 \<le> i"
      using RemainingBytes_length [OF d(2) moves_in_range [OF m]] m d(3) new_bound [OF d(3) m] by (simp_all add: moves_def in_range_New)
    ultimately show ?thesis using d(5) by simp
  next
    case deref
    then have "has_type api (DeRefPointer t) w \<and> 0 \<le> k \<and> k \<le> int (length b)" using dec unfolding typed_decoder_def by blast
    with deref show ?thesis by (cases t) (auto intro: typed_ptr)
  qed (rule decodeBasedOnType_typed [OF dec cache])
qed

lemma decode_typed_decoder:
  assumes "cache_ok api" and "custom_decoders_typed api"
  shows "typed_decoder api (decode n api validation)"
proof (induction n)
  case 0
  show ?case by (simp add: typed_decoder_def)
next
  case (Suc n)
  then show ?case using assms by (simp add: decode_call_typed)
qed

section \<open>Properties\<close>

text \<open>C10: Whatever the bytes are, when serix decodes them into a value of a type then it has filled a value of that type, down to the
  fields of the structs, the lengths of the arrays and the types behind the interfaces, and it has read no more bytes than there are.
  The \<^verbatim>\<open>Decode\<close> methods of the program are assumed to do so, too.\<close>

theorem serix_decode_typed:
  assumes "cache_ok api" and "custom_decoders_typed api" and "Serix_Decode n api validation ts t b = ret (v, k)"
  shows "has_type api t v \<and> 0 \<le> k \<and> k \<le> int (length b)"
proof -
  obtain w j where w: "decode n api validation True (TyPtr t) ts b = ret (w, j)" "(case w of VPtr (Some w) \<Rightarrow> ret (w, j) | _ \<Rightarrow> None) = ret (v, k)"
    using assms(3) by (auto simp: Serix_Decode_def andThen_ret)
  from w(2) have "w = VPtr (Some v) \<and> j = k" by (auto split: go_val.split_asm option.split_asm)
  with w(1) have "has_type api (TyPtr t) (VPtr (Some v)) \<and> 0 \<le> k \<and> k \<le> int (length b)"
    using decode_typed_decoder [OF assms(1,2)] unfolding typed_decoder_def by blast
  then show ?thesis by (auto elim: has_type.cases)
qed

theorem serix_decode_typed_witness: "has_type tx_api (TyStruct ''Tx'') tx_value"
proof -
  have "cache_ok tx_api" "custom_decoders_typed tx_api"
    by (simp_all add: cache_ok_def custom_decoders_typed_def tx_api_eq tx_program_def)
  moreover obtain n where "Serix_Decode n tx_api True NewTypeSettings (TyStruct ''Tx'') (tx_bytes @ []) = ret (tx_value, int (length tx_bytes))"
    using tx_decoded by blast
  ultimately show ?thesis using serix_decode_typed by blast
qed

end
