(* ===== verification/Spec2Isabelle.thy ===== *)
theory Spec2Isabelle
  imports SafeMath Seri_Objects Ring_Queues Stack_Bitmask Random_Map Map_Clients Ordered_Map List_Impl Priority_Queue Time_Heap Typed_Value KV_Sequence Health_Tracker Starving_Mutex Wait_Monitor Worker_Pool Worker_Group Subscription_Manager Serix_Types Serix_Encode Serix_Decode Serix_Codec Serix_Typing
begin

text \<open>
  \<^bold>\<open>Verification of the Go library hive.go.\<close>

  hive.go is a collection of packages for servers written in Go: serialization, data structures, key-value storage and the
  synchronisation of goroutines. This development models the packages below from their sources under \<^verbatim>\<open>src/\<close> and proves
  what makes them correct. One theory or a small group of theories belongs to each part.

  \<^bold>\<open>Conventions.\<close> A Go function is a HOL function from the state before the call to the state after it and its results. A record
  stands for a struct, a datatype for an enumeration, \<open>w word\<close> for an integer of \<open>w\<close> bits; \<^verbatim>\<open>int\<close> counters that cannot get near
  their bounds are \<open>int\<close> or \<open>nat\<close>. A slice of bytes is a list of 8-bit words, a Go map a partial function. The order in which
  the runtime ranges over a map is not specified, so it is an argument of the definitions that use it, with the law \<open>good_order\<close>
  (it lists the domain without repetition). A panic, an access out of range and a call that blocks forever give \<open>None\<close>; an
  error value is \<open>Inl\<close> or an optional error. Functions the program passes in are arguments. Loops are structural recursion or
  are bounded by a number that a theorem shows to be sufficient; the bounds are listed with their parts below. Goroutines are
  interleaved between their critical sections: a section under a mutex is one step, and \<open>Go_Locks\<close> has the read and write locks.

  \<^bold>\<open>Shared theories.\<close> \<open>Hive_Prelude\<close> has the types and the lemmas on slices, words and maps that all parts use. \<open>Refinement\<close>
  has the contracts between a component and its specification, as locales: \<open>data_refinement\<close> (an abstraction function),
  \<open>data_simulation\<close> (a relation) and \<open>nondet_simulation\<close> (a specification that allows several results). A component that keeps
  such a contract for every single call keeps it for every history of calls; the interpretations are in the theories of the components.

  \<^bold>\<open>Integers with checks\<close> (\<open>SafeMath\<close>; \<^verbatim>\<open>core/safemath\<close>). Every function, at every width and signedness: the result is exact or the
  error is reported, with the blind spot of \<^verbatim>\<open>SafeMul\<close> stated.

  \<^bold>\<open>The serializer\<close> (\<^verbatim>\<open>serializer\<close>). \<open>Array_Rules\<close> has the rules for arrays of \<^verbatim>\<open>serializable.go\<close> and shows that the combined
  validators accept exactly the sequences that satisfy the rules. \<open>Byte_Serializer\<close> and \<open>Byte_Deserializer\<close> are the two classes of
  \<^verbatim>\<open>serializer.go\<close>, method by method. \<open>Seri_Codec\<close> and \<open>Seri_Objects\<close> prove, through the locales \<open>seri_codec\<close> and \<open>seri_reader\<close>, that
  every message is read back, that exactly the well-formed inputs are accepted and no input panics, and the same for slices
  of objects and payloads.

  \<^bold>\<open>Serix\<close> (\<^verbatim>\<open>serializer/serix\<close>). \<open>Serix_Types\<close> has Go types and values as reflection shows them, the type settings, struct tags,
  struct fields and registries; \<open>Serix_Encode\<close> and \<open>Serix_Decode\<close> the functions of \<^verbatim>\<open>encode.go\<close> and \<^verbatim>\<open>decode.go\<close>. The recursion through
  \<^verbatim>\<open>encode\<close> and \<^verbatim>\<open>decode\<close> is bounded by a depth, that of embedded structs by a second one; running out gives \<open>None\<close>. \<open>Serix_Codec\<close>
  has the wire format as an inductive relation and proves that for every value of the format a depth exists from which on both
  directions return and are inverse to each other, so the bound is never what makes a call fail. \<open>Serix_Typing\<close> proves that
  decoding arbitrary bytes gives a value of the type asked for.

  \<^bold>\<open>Data structures\<close> (\<^verbatim>\<open>ds\<close>). \<open>Ring_Queues\<close>: queue and ring buffer; \<open>Stack_Bitmask\<close>: stacks and bit mask; \<open>Shrinking_Map\<close>, \<open>Random_Map\<close>
  and \<open>Map_Clients\<close> (bytes filter, indexed storage); \<open>Linked_Segments\<close> (chains of pointers), \<open>Ordered_Map\<close>, \<open>List_Heap\<close> and
  \<open>List_Impl\<close> (the doubly linked lists on an explicit store, several lists and elements at once); \<open>Go_Heap\<close> (\<^verbatim>\<open>container/heap\<close>, with
  the contract \<open>heap_contract\<close>), \<open>Priority_Queue\<close> (general heap, priority queues of \<^verbatim>\<open>ds\<close> and \<^verbatim>\<open>runtime/timed\<close>) and \<open>Time_Heap\<close>. Each is a
  refinement of a list, a map, an association list or a multiset, for every history of calls; iterations end, also when the
  consumer deletes elements.

  \<^bold>\<open>Key-value stores\<close> (\<^verbatim>\<open>kvstore\<close>). \<open>KV_Store\<close> has the interface as a record of functions with the contract \<open>kv_contract\<close> and the copy
  functions; \<open>Map_DB\<close> the in-memory store, the flushing wrapper and the realms, which satisfy the contract. The clients are proved once
  from the contract and hold for both: \<open>Typed_Store\<close>, \<open>Typed_Value\<close> (with its cache and concurrent callers), \<open>KV_Sequence\<close>,
  \<open>Health_Tracker\<close>.

  \<^bold>\<open>Goroutines\<close> (\<^verbatim>\<open>runtime\<close>). \<open>Starving_Mutex\<close>, \<open>Wait_Monitor\<close> (counter and stack with condition variables, by the locale \<open>wait_monitor\<close>),
  \<open>Worker_Pool\<close> and \<open>Worker_Group\<close>, as step relations over any number of goroutines: mutual exclusion, no lost wake-ups, no lost
  tasks, and that every schedule ends with all calls returned.

  \<^bold>\<open>Subscriptions\<close> (\<open>Subscription_Manager\<close>; \<^verbatim>\<open>web/subscriptionmanager\<close>). The counters of clients and topics, with the events.

  \<^bold>\<open>Not modelled.\<close> Code that is input and output, wall-clock time, reflection on the running program or a thin layer over an external
  library: \<^verbatim>\<open>app\<close>, \<^verbatim>\<open>apputils\<close>, \<^verbatim>\<open>log\<close>, \<^verbatim>\<open>logger\<close>, \<^verbatim>\<open>crypto\<close>, \<^verbatim>\<open>db\<close>, \<^verbatim>\<open>sql\<close>, \<^verbatim>\<open>kvstore/rocksdb\<close>, \<^verbatim>\<open>ads\<close>, \<^verbatim>\<open>codegen\<close>, \<^verbatim>\<open>stringify\<close>, \<^verbatim>\<open>web/basicauth\<close>,
  \<^verbatim>\<open>web/websockethub\<close>, \<^verbatim>\<open>runtime/ioutils\<close>, \<^verbatim>\<open>runtime/timeutil\<close>, \<^verbatim>\<open>runtime/inspection\<close> and the like. The map form of serix builds
  values for \<^verbatim>\<open>encoding/json\<close> and depends on that package. The memory model of Go below the granularity of critical sections, data
  races and running out of memory are outside the models.
\<close>

end
